(* ===== verification/Prelude.thy ===== *)
theory Prelude
  imports Main "HOL-Library.Word"
begin

text \<open>
  Shared vocabulary of the development: Rust's machine integers as words, the result type of
  fallible Rust code (\<open>Ok\<close>, \<open>Err\<close> and an explicit \<open>Panic\<close>), arithmetic with the overflow
  check of the \<^verbatim>\<open>dev\<close> profile (the default of \<^verbatim>\<open>kernel/GNUmakefile\<close>), state-passing programs
  with early return, little-endian encoding, and slices of byte buffers.

  \<^verbatim>\<open>usize\<close> values that are lengths or offsets into a buffer are \<open>nat\<close>: a Rust object is
  smaller than \<open>2 ^ 63\<close> bytes, so sums of such values do not overflow.
\<close>

unbundle bit_operations_syntax

type_synonym u8 = "8 word"
type_synonym u16 = "16 word"
type_synonym u32 = "32 word"
type_synonym u64 = "64 word"
type_synonym bytes = "8 word list"

named_theorems wp_simps \<open>outcomes of the program combinators\<close>


section \<open>Results\<close>

text \<open>A Rust \<^verbatim>\<open>Result\<close>, with the third outcome of a call: the thread panics.\<close>

datatype ('e, 'a) res = Ok 'a | Err 'e | Panic

primrec bind_res :: "('e, 'a) res \<Rightarrow> ('a \<Rightarrow> ('e, 'b) res) \<Rightarrow> ('e, 'b) res" where
  "bind_res (Ok x) f = f x"
| "bind_res (Err e) f = Err e"
| "bind_res Panic f = Panic"

primrec map_err :: "('e \<Rightarrow> 'f) \<Rightarrow> ('e, 'a) res \<Rightarrow> ('f, 'a) res" where
  "map_err f (Ok x) = Ok x"
| "map_err f (Err e) = Err (f e)"
| "map_err f Panic = Panic"

primrec is_ok :: "('e, 'a) res \<Rightarrow> bool" where
  "is_ok (Ok x) = True"
| "is_ok (Err e) = False"
| "is_ok Panic = False"

lemma bind_res_assoc [simp]:
  "bind_res (bind_res m f) g = bind_res m (\<lambda>x. bind_res (f x) g)"
  by (cases m) simp_all

lemma bind_res_Ok_iff: "bind_res m f = Ok y \<longleftrightarrow> (\<exists>x. m = Ok x \<and> f x = Ok y)"
  by (cases m) simp_all

lemma bind_res_OkE [elim]:
  assumes "bind_res m f = Ok y"
  obtains x where "m = Ok x" and "f x = Ok y"
  using assms by (auto simp: bind_res_Ok_iff)


section \<open>Checked arithmetic\<close>

definition add_ck :: "'l::len word \<Rightarrow> 'l word \<Rightarrow> ('e, 'l word) res" where
  "add_ck a b = (if unat a + unat b < 2 ^ LENGTH('l) then Ok (a + b) else Panic)"

definition sub_ck :: "'l::len word \<Rightarrow> 'l word \<Rightarrow> ('e, 'l word) res" where
  "sub_ck a b = (if b \<le> a then Ok (a - b) else Panic)"

definition mul_ck :: "'l::len word \<Rightarrow> 'l word \<Rightarrow> ('e, 'l word) res" where
  "mul_ck a b = (if unat a * unat b < 2 ^ LENGTH('l) then Ok (a * b) else Panic)"

definition saturating_sub :: "'l::len word \<Rightarrow> 'l word \<Rightarrow> 'l word" where
  "saturating_sub a b = (if b \<le> a then a - b else 0)"

lemma unat_bound: "unat x < 2 ^ LENGTH('l)" for x :: "'l::len word"
  by (rule unsigned_less)

lemma unat_add_no_wrap: "unat a + unat b < 2 ^ LENGTH('l) \<Longrightarrow> unat (a + b) = unat a + unat b"
  for a b :: "'l::len word"
  by (simp add: unat_word_ariths)

lemma unat_mult_no_wrap: "unat a * unat b < 2 ^ LENGTH('l) \<Longrightarrow> unat (a * b) = unat a * unat b"
  for a b :: "'l::len word"
  by (simp add: unat_word_ariths)

lemma ucast_small: "unat x < 2 ^ LENGTH('b) \<Longrightarrow> unat (ucast x :: 'b::len word) = unat x"
  for x :: "'a::len word"
  by (simp add: unsigned_ucast_eq take_bit_nat_eq_self)

lemma add_ck_Ok_iff:
  "add_ck a b = Ok c \<longleftrightarrow> unat a + unat b < 2 ^ LENGTH('l) \<and> c = a + b"
  for a b :: "'l::len word"
  by (auto simp: add_ck_def)

lemma unat_add_ck: "add_ck a b = Ok c \<Longrightarrow> unat c = unat a + unat b"
  for a b :: "'l::len word"
  by (auto simp: add_ck_Ok_iff unat_word_ariths)

lemma sub_ck_Ok_iff: "sub_ck a b = Ok c \<longleftrightarrow> b \<le> a \<and> c = a - b"
  by (auto simp: sub_ck_def)

lemma unat_sub_ck: "sub_ck a b = Ok c \<Longrightarrow> unat c = unat a - unat b"
  by (auto simp: sub_ck_Ok_iff unat_sub)

lemma mul_ck_Ok_iff:
  "mul_ck a b = Ok c \<longleftrightarrow> unat a * unat b < 2 ^ LENGTH('l) \<and> c = a * b"
  for a b :: "'l::len word"
  by (auto simp: mul_ck_def)

lemma unat_mul_ck: "mul_ck a b = Ok c \<Longrightarrow> unat c = unat a * unat b"
  for a b :: "'l::len word"
  by (auto simp: mul_ck_Ok_iff unat_word_ariths)

lemma unat_saturating_sub: "unat (saturating_sub a b) = unat a - unat b"
  by (simp add: saturating_sub_def unat_sub word_le_nat_alt)


section \<open>Programs\<close>

text \<open>
  Stateful code takes the state it mutates and returns the outcome with the new state;
  \<open>bnd\<close> is the \<^verbatim>\<open>?\<close> operator, which leaves at the first error with the state reached so far.
\<close>

type_synonym ('w, 'e, 'a) prog = "'w \<Rightarrow> ('e, 'a) res \<times> 'w"

definition ret :: "'a \<Rightarrow> ('w, 'e, 'a) prog" where
  "ret x = (\<lambda>w. (Ok x, w))"

definition fail :: "'e \<Rightarrow> ('w, 'e, 'a) prog" where
  "fail e = (\<lambda>w. (Err e, w))"

definition lift_res :: "('e, 'a) res \<Rightarrow> ('w, 'e, 'a) prog" where
  "lift_res r = (\<lambda>w. (r, w))"

definition bnd :: "('w, 'e, 'a) prog \<Rightarrow> ('a \<Rightarrow> ('w, 'e, 'b) prog) \<Rightarrow> ('w, 'e, 'b) prog" where
  "bnd m f = (\<lambda>w. case m w of
      (Ok x, w') \<Rightarrow> f x w'
    | (Err e, w') \<Rightarrow> (Err e, w')
    | (Panic, w') \<Rightarrow> (Panic, w'))"

lemma ret_apply [simp]: "ret x w = (Ok x, w)"
  by (simp add: ret_def)

lemma fail_apply [simp]: "fail e w = (Err e, w)"
  by (simp add: fail_def)

lemma lift_res_apply [simp]: "lift_res r w = (r, w)"
  by (simp add: lift_res_def)

lemma bnd_Ok [simp]: "m w = (Ok x, w') \<Longrightarrow> bnd m f w = f x w'"
  by (simp add: bnd_def)

lemma bnd_Err [simp]: "m w = (Err e, w') \<Longrightarrow> bnd m f w = (Err e, w')"
  by (simp add: bnd_def)

lemma bnd_Panic [simp]: "m w = (Panic, w') \<Longrightarrow> bnd m f w = (Panic, w')"
  by (simp add: bnd_def)

lemma bnd_OkE:
  assumes "bnd m f w = (Ok y, w'')"
  obtains x w' where "m w = (Ok x, w')" and "f x w' = (Ok y, w'')"
  using assms by (auto simp: bnd_def split: prod.splits res.splits)

lemma bnd_ret [simp]: "bnd (ret x) f = f x"
  by (rule ext) simp

lemma bnd_assoc: "bnd (bnd m f) g = bnd m (\<lambda>x. bnd (f x) g)"
  by (rule ext) (simp add: bnd_def split: prod.splits res.splits)

text \<open>
  \<open>wp m w Q\<close>: running \<open>m\<close> from \<open>w\<close> ends with an outcome and a state that satisfy \<open>Q\<close>. The
  rules push it through a program one call at a time.
\<close>

definition wp :: "('w, 'e, 'a) prog \<Rightarrow> 'w \<Rightarrow> (('e, 'a) res \<Rightarrow> 'w \<Rightarrow> bool) \<Rightarrow> bool" where
  "wp m w Q \<longleftrightarrow> (case m w of (r, w') \<Rightarrow> Q r w')"

lemma wp_ret [wp_simps]: "wp (ret x) w Q \<longleftrightarrow> Q (Ok x) w"
  by (simp add: wp_def)

lemma wp_fail [wp_simps]: "wp (fail e) w Q \<longleftrightarrow> Q (Err e) w"
  by (simp add: wp_def)

lemma wp_lift_res [wp_simps]: "wp (lift_res r) w Q \<longleftrightarrow> Q r w"
  by (simp add: wp_def)

lemma wp_bnd [wp_simps]:
  "wp (bnd m f) w Q \<longleftrightarrow>
     wp m w (\<lambda>r w'. case r of Ok x \<Rightarrow> wp (f x) w' Q | Err e \<Rightarrow> Q (Err e) w' | Panic \<Rightarrow> Q Panic w')"
  by (auto simp: wp_def bnd_def split: prod.splits res.splits)

lemma wp_mono: "wp m w P \<Longrightarrow> (\<And>r w'. P r w' \<Longrightarrow> Q r w') \<Longrightarrow> wp m w Q"
  by (auto simp: wp_def)

lemma wp_eq: "m w = (r, w') \<Longrightarrow> wp m w Q \<longleftrightarrow> Q r w'"
  by (simp add: wp_def)



section \<open>Little-endian integers\<close>

primrec le_encode :: "nat \<Rightarrow> nat \<Rightarrow> bytes" where
  "le_encode 0 v = []"
| "le_encode (Suc n) v = of_nat (v mod 256) # le_encode n (v div 256)"

primrec le_decode :: "bytes \<Rightarrow> nat" where
  "le_decode [] = 0"
| "le_decode (b # bs) = unat b + 256 * le_decode bs"

definition to_le_bytes :: "'l::len word \<Rightarrow> bytes" where
  "to_le_bytes x = le_encode (LENGTH('l) div 8) (unat x)"

definition from_le_bytes :: "bytes \<Rightarrow> 'l::len word" where
  "from_le_bytes bs = of_nat (le_decode bs)"

lemma length_le_encode [simp]: "length (le_encode n v) = n"
  by (induction n arbitrary: v) simp_all

lemma unat_of_nat_mod_256 [simp]: "unat (of_nat (v mod 256) :: u8) = v mod 256"
  by (simp add: unat_of_nat)

lemma le_decode_encode: "le_decode (le_encode n v) = v mod 256 ^ n"
proof (induction n arbitrary: v)
  case 0
  then show ?case by simp
next
  case (Suc n)
  have "v mod 256 + 256 * (v div 256 mod 256 ^ n) = v mod (256 * 256 ^ n)"
    by (simp add: mod_mult2_eq)
  then show ?case by (simp add: Suc.IH)
qed

lemma le_decode_bound: "le_decode bs < 256 ^ length bs"
proof (induction bs)
  case Nil
  then show ?case by simp
next
  case (Cons b bs)
  have "unat b < 256" using unsigned_less [of b] by simp
  moreover have "le_decode bs + 1 \<le> 256 ^ length bs" using Cons.IH by simp
  then have "256 * (le_decode bs + 1) \<le> 256 * 256 ^ length bs" by (rule mult_le_mono2)
  ultimately show ?case by simp
qed

lemma le_encode_decode: "le_encode (length bs) (le_decode bs) = bs"
proof (induction bs)
  case Nil
  then show ?case by simp
next
  case (Cons b bs)
  have "unat b < 256" using unsigned_less [of b] by simp
  then show ?case using Cons.IH by simp
qed

lemma from_to_le_bytes:
  assumes "8 dvd LENGTH('l::len)"
  shows "from_le_bytes (to_le_bytes x) = (x :: 'l word)"
proof -
  have "(256::nat) ^ (LENGTH('l) div 8) = (2 ^ 8) ^ (LENGTH('l) div 8)" by simp
  also have "\<dots> = 2 ^ LENGTH('l)"
    using assms by (simp only: power_mult [symmetric] dvd_mult_div_cancel)
  finally show ?thesis
    by (simp add: from_le_bytes_def to_le_bytes_def le_decode_encode)
qed

lemma length_to_le_bytes [simp]: "length (to_le_bytes (x :: 'l::len word)) = LENGTH('l) div 8"
  by (simp add: to_le_bytes_def)

lemma to_from_le_bytes:
  assumes "8 dvd LENGTH('l::len)" and "length bs = LENGTH('l) div 8"
  shows "to_le_bytes (from_le_bytes bs :: 'l word) = bs"
proof -
  have "(256::nat) ^ (LENGTH('l) div 8) = (2 ^ 8) ^ (LENGTH('l) div 8)" by simp
  also have "\<dots> = 2 ^ LENGTH('l)"
    using assms(1) by (simp only: power_mult [symmetric] dvd_mult_div_cancel)
  finally have "le_decode bs < 2 ^ LENGTH('l)"
    using le_decode_bound [of bs] assms(2) by simp
  then show ?thesis
    using le_encode_decode [of bs] assms(2)
    by (simp add: to_le_bytes_def from_le_bytes_def unat_of_nat)
qed


section \<open>Byte buffers\<close>

text \<open>
  \<open>window n i d\<close> is the slice \<^verbatim>\<open>d[i..i+n]\<close> of a buffer known to be long enough; \<open>slice\<close> is
  the same with Rust's bounds check. \<open>splice d i xs\<close> is \<^verbatim>\<open>d[i..i+xs.len()].copy_from_slice(xs)\<close>
  within bounds, \<open>put\<close> the same with the check.
\<close>

definition window :: "nat \<Rightarrow> nat \<Rightarrow> bytes \<Rightarrow> bytes" where
  "window n i d = take n (drop i d)"

definition slice :: "bytes \<Rightarrow> nat \<Rightarrow> nat \<Rightarrow> ('e, bytes) res" where
  "slice d i j = (if i \<le> j \<and> j \<le> length d then Ok (window (j - i) i d) else Panic)"

definition splice :: "bytes \<Rightarrow> nat \<Rightarrow> bytes \<Rightarrow> bytes" where
  "splice d i xs = take i d @ xs @ drop (i + length xs) d"

definition put :: "bytes \<Rightarrow> nat \<Rightarrow> bytes \<Rightarrow> ('e, bytes) res" where
  "put d i xs = (if i + length xs \<le> length d then Ok (splice d i xs) else Panic)"

definition get_le :: "nat \<Rightarrow> bytes \<Rightarrow> 'l::len word" where
  "get_le i d = from_le_bytes (window (LENGTH('l) div 8) i d)"

definition get_le_ck :: "nat \<Rightarrow> bytes \<Rightarrow> ('e, 'l::len word) res" where
  "get_le_ck i d = (if i + LENGTH('l) div 8 \<le> length d then Ok (get_le i d) else Panic)"

definition index_ck :: "bytes \<Rightarrow> nat \<Rightarrow> ('e, u8) res" where
  "index_ck d i = (if i < length d then Ok (d ! i) else Panic)"

lemma length_window [simp]: "length (window n i d) = min n (length d - i)"
  by (simp add: window_def)

lemma length_splice [simp]: "i + length xs \<le> length d \<Longrightarrow> length (splice d i xs) = length d"
  by (simp add: splice_def)

lemma window_all [simp]: "length d \<le> n \<Longrightarrow> window n 0 d = d"
  by (simp add: window_def)

lemma window_splice_same [simp]:
  "i \<le> length d \<Longrightarrow> n = length xs \<Longrightarrow> window n i (splice d i xs) = xs"
  by (simp add: window_def splice_def)

lemma window_splice_before [simp]:
  "j + n \<le> i \<Longrightarrow> i \<le> length d \<Longrightarrow> window n j (splice d i xs) = window n j d"
  by (simp add: window_def splice_def drop_take)

lemma window_splice_after [simp]:
  "i + length xs \<le> j \<Longrightarrow> i + length xs \<le> length d \<Longrightarrow> window n j (splice d i xs) = window n j d"
  by (simp add: window_def splice_def min_def)

lemma window_append1 [simp]: "i + n \<le> length xs \<Longrightarrow> window n i (xs @ ys) = window n i xs"
  by (simp add: window_def)

lemma window_append2 [simp]: "length xs \<le> i \<Longrightarrow> window n i (xs @ ys) = window n (i - length xs) ys"
  by (simp add: window_def)

lemma window_append_exact [simp]: "n = length xs \<Longrightarrow> window n 0 (xs @ ys) = xs"
  by (simp add: window_def)

lemma window_window [simp]: "j + m \<le> n \<Longrightarrow> window m j (window n i d) = window m (i + j) d"
  by (simp add: window_def drop_take min_def add.commute)

lemma nth_window [simp]: "k < n \<Longrightarrow> i + n \<le> length d \<Longrightarrow> window n i d ! k = d ! (i + k)"
  by (simp add: window_def)

lemma nth_splice:
  assumes "i + length xs \<le> length d"
  shows "splice d i xs ! k = (if i \<le> k \<and> k < i + length xs then xs ! (k - i) else d ! k)"
  using assms by (auto simp: splice_def nth_append)

lemma get_le_splice_same [simp]:
  assumes "8 dvd LENGTH('l::len)" and "i \<le> length d"
  shows "get_le i (splice d i (to_le_bytes x)) = (x :: 'l word)"
  using assms by (simp add: get_le_def from_to_le_bytes)

lemma get_le_splice_before [simp]:
  "j + LENGTH('l) div 8 \<le> i \<Longrightarrow> i \<le> length d \<Longrightarrow>
     get_le j (splice d i xs) = (get_le j d :: 'l::len word)"
  by (simp add: get_le_def)

lemma get_le_splice_after [simp]:
  "i + length xs \<le> j \<Longrightarrow> i + length xs \<le> length d \<Longrightarrow>
     get_le j (splice d i xs) = (get_le j d :: 'l::len word)"
  by (simp add: get_le_def)

lemma get_le_append_same [simp]:
  assumes "8 dvd LENGTH('l::len)"
  shows "get_le 0 (to_le_bytes x @ ys) = (x :: 'l word)"
  using assms by (simp add: get_le_def from_to_le_bytes)

lemma get_le_whole [simp]:
  assumes "8 dvd LENGTH('l::len)"
  shows "get_le 0 (to_le_bytes x) = (x :: 'l word)"
  using assms by (simp add: get_le_def from_to_le_bytes)

lemma get_le_append_skip [simp]:
  "length xs \<le> j \<Longrightarrow> get_le j (xs @ ys) = (get_le (j - length xs) ys :: 'l::len word)"
  by (simp add: get_le_def)

lemma get_le_append_front:
  "j + LENGTH('l) div 8 \<le> length xs \<Longrightarrow> get_le j (xs @ ys) = (get_le j xs :: 'l::len word)"
  by (simp add: get_le_def)

lemma get_le_ck_Ok [simp]:
  "i + LENGTH('l) div 8 \<le> length d \<Longrightarrow> get_le_ck i d = Ok (get_le i d :: 'l::len word)"
  by (simp add: get_le_ck_def)

lemma slice_Ok [simp]: "i \<le> j \<Longrightarrow> j \<le> length d \<Longrightarrow> slice d i j = Ok (window (j - i) i d)"
  by (simp add: slice_def)

lemma put_Ok [simp]: "i + length xs \<le> length d \<Longrightarrow> put d i xs = Ok (splice d i xs)"
  by (simp add: put_def)

lemma index_ck_Ok [simp]: "i < length d \<Longrightarrow> index_ck d i = Ok (d ! i)"
  by (simp add: index_ck_def)

text \<open>The loop \<^verbatim>\<open>while data.len() % 8 != 0 { data.push(0) }\<close> of the serializers.\<close>

function pad8 :: "bytes \<Rightarrow> bytes" where
  "pad8 d = (if length d mod 8 \<noteq> 0 then pad8 (d @ [0]) else d)"
  by pat_completeness auto
termination
proof (relation "measure (\<lambda>d. (8 - length d mod 8) mod 8)")
  show "wf (measure (\<lambda>d :: bytes. (8 - length d mod 8) mod 8))" by simp
next
  fix d :: bytes
  assume "length d mod 8 \<noteq> 0"
  then have "(8 - Suc (length d) mod 8) mod 8 < (8 - length d mod 8) mod 8"
    using mod_less_divisor [of 8 "length d"] by (auto simp: mod_Suc)
  then show "(d @ [0], d) \<in> measure (\<lambda>d. (8 - length d mod 8) mod 8)" by simp
qed

declare pad8.simps [simp del]

lemma pad8_eq: "pad8 d = d @ replicate ((8 - length d mod 8) mod 8) 0"
proof (induction d rule: pad8.induct)
  case (1 d)
  show ?case
  proof (cases "length d mod 8 = 0")
    case True
    then show ?thesis by (subst pad8.simps) simp
  next
    case False
    then have "(8 - length d mod 8) mod 8 = Suc ((8 - Suc (length d) mod 8) mod 8)"
      using mod_less_divisor [of 8 "length d"] by (auto simp: mod_Suc)
    with False 1 show ?thesis by (subst pad8.simps) simp
  qed
qed

lemma length_pad8: "length (pad8 d) = 8 * ((length d + 7) div 8)"
proof -
  define q r where "q = length d div 8" and "r = length d mod 8"
  have d: "length d = 8 * q + r" and r: "r < 8" by (simp_all add: q_def r_def)
  have "length (pad8 d) = length d + (8 - r) mod 8" by (simp add: pad8_eq r_def)
  also have "\<dots> = 8 * ((8 * q + r + 7) div 8)"
  proof (cases "r = 0")
    case True
    then show ?thesis by (simp add: d)
  next
    case False
    then have "(8 * q + r + 7) div 8 = (8 * Suc q + (r - 1)) div 8" by (simp add: algebra_simps)
    also have "\<dots> = Suc q" using r by (subst div_mult_self4) simp_all
    finally show ?thesis using False r by (simp add: d)
  qed
  finally show ?thesis by (simp add: d)
qed

lemma pad8_aligned: "length d mod 8 = 0 \<Longrightarrow> pad8 d = d"
  by (subst pad8.simps) simp

lemma length_pad8_ge: "length d \<le> length (pad8 d)"
  by (simp add: pad8_eq)

lemma window_pad8 [simp]: "i + n \<le> length d \<Longrightarrow> window n i (pad8 d) = window n i d"
  by (simp add: pad8_eq)

lemma get_le_pad8 [simp]:
  "i + LENGTH('l) div 8 \<le> length d \<Longrightarrow> get_le i (pad8 d) = (get_le i d :: 'l::len word)"
  by (simp add: get_le_def)


section \<open>UTF-8\<close>

text \<open>
  \<open>utf8_step\<close> gives the length of the next part of a byte string and whether it is well formed; a byte past the end reads
  as 0, which continues no sequence. \<open>utf8_valid\<close> is \<^verbatim>\<open>core::str::from_utf8(..).is_ok()\<close>.
\<close>

definition byte_at :: "bytes \<Rightarrow> nat \<Rightarrow> nat" where
  "byte_at bs i = (if i < length bs then unat (bs ! i) else 0)"

definition continues :: "nat \<Rightarrow> bool" where
  "continues b \<longleftrightarrow> 0x80 \<le> b \<and> b \<le> 0xBF"

definition utf8_step :: "bytes \<Rightarrow> nat \<times> bool" where
  "utf8_step bs =
     (let b = byte_at bs 0; b1 = byte_at bs 1 in
      if b < 0x80 then (1, True)
      else if 0xC2 \<le> b \<and> b \<le> 0xDF then (if continues b1 then (2, True) else (1, False))
      else if 0xE0 \<le> b \<and> b \<le> 0xEF then
        (if continues b1 \<and> (b = 0xE0 \<longrightarrow> 0xA0 \<le> b1) \<and> (b = 0xED \<longrightarrow> b1 \<le> 0x9F)
         then (if continues (byte_at bs 2) then (3, True) else (2, False))
         else (1, False))
      else if 0xF0 \<le> b \<and> b \<le> 0xF4 then
        (if continues b1 \<and> (b = 0xF0 \<longrightarrow> 0x90 \<le> b1) \<and> (b = 0xF4 \<longrightarrow> b1 \<le> 0x8F)
         then (if continues (byte_at bs 2)
               then (if continues (byte_at bs 3) then (4, True) else (3, False))
               else (2, False))
         else (1, False))
      else (1, False))"

lemma utf8_step_pos: "0 < fst (utf8_step bs)"
  by (simp add: utf8_step_def Let_def)

function utf8_valid :: "bytes \<Rightarrow> bool" where
  "utf8_valid bs = (if bs = [] then True else case utf8_step bs of (n, valid) \<Rightarrow> valid \<and> utf8_valid (drop n bs))"
  by pat_completeness auto
termination
proof (relation "measure length", goal_cases)
  case (2 bs n valid)
  with utf8_step_pos [of bs] show ?case by (cases "utf8_step bs") simp
qed simp

declare utf8_valid.simps [simp del]

end
