(* ===== verification/Kernel_Memory.thy ===== *)
theory Kernel_Memory
  imports Prelude
begin

text \<open>
  Physical memory of the kernel, \<^verbatim>\<open>crates/lib_kernel/src/memory\<close>: addresses, the bitmap of frames, the allocator that
  walks the boot loader's regions, the four-level page tables and the window for device memory. Frame bitmap and page
  tables lie in one memory of 64-bit words, so that what the code does to one of them through the other is part of the
  model. \<^verbatim>\<open>usize\<close> values are natural numbers; \<^verbatim>\<open>invlpg\<close> and the console messages are left out.
\<close>

section \<open>Addresses\<close>

definition PhysAddr_new :: "u64 \<Rightarrow> u64" where
  "PhysAddr_new addr = addr AND 0x000FFFFFFFFFF000"

definition page_offset :: "u64 \<Rightarrow> nat" where
  "page_offset v = unat (v AND 0xFFF)"

definition p4_index :: "u64 \<Rightarrow> nat" where
  "p4_index v = unat (drop_bit 39 v AND 0x1FF)"

definition p3_index :: "u64 \<Rightarrow> nat" where
  "p3_index v = unat (drop_bit 30 v AND 0x1FF)"

definition p2_index :: "u64 \<Rightarrow> nat" where
  "p2_index v = unat (drop_bit 21 v AND 0x1FF)"

definition p1_index :: "u64 \<Rightarrow> nat" where
  "p1_index v = unat (drop_bit 12 v AND 0x1FF)"


section \<open>State\<close>

definition PAGE_SIZE :: nat where "PAGE_SIZE = 4096"

text \<open>The memory and the \<^verbatim>\<open>static mut\<close> variables; pointers are addresses.\<close>

record kmem =
  mem :: "u64 \<Rightarrow> u64"
  FRAME_BITMAP :: u64
  TOTAL_FRAMES :: nat
  BITMAP_SIZE :: nat
  KERNEL_PAGE_TABLE :: u64
  MMIO_LOWER :: u64
  MMIO_UPPER :: u64
  MMIO_CURRENT :: u64

text \<open>An entry of the memory map of the boot loader; \<open>usable\<close> is \<^verbatim>\<open>entry_type == EntryType::USABLE\<close>.\<close>

record MemoryMapEntry =
  me_base :: u64
  me_length :: u64
  usable :: bool


section \<open>The frame bitmap\<close>

text \<open>\<^verbatim>\<open>FRAME_BITMAP.add(index)\<close>\<close>

definition bitmap_word :: "kmem \<Rightarrow> nat \<Rightarrow> u64" where
  "bitmap_word s index = FRAME_BITMAP s + 8 * of_nat index"

definition mark_free :: "nat \<Rightarrow> kmem \<Rightarrow> kmem" where
  "mark_free frame s = (if frame \<ge> TOTAL_FRAMES s then s
     else let a = bitmap_word s (frame div 64)
          in s\<lparr>mem := (mem s)(a := mem s a OR push_bit (frame mod 64) 1)\<rparr>)"

definition mark_used :: "nat \<Rightarrow> kmem \<Rightarrow> kmem" where
  "mark_used frame s = (if frame \<ge> TOTAL_FRAMES s then s
     else let a = bitmap_word s (frame div 64)
          in s\<lparr>mem := (mem s)(a := mem s a AND NOT (push_bit (frame mod 64) 1))\<rparr>)"

definition trailing_zeros :: "u64 \<Rightarrow> nat" where
  "trailing_zeros w = length (takeWhile (\<lambda>n. \<not> bit w n) [0..<64])"

text \<open>The product with the page size cannot overflow: a frame below \<^verbatim>\<open>TOTAL_FRAMES\<close> has an address below \<open>2 ^ 64\<close>.\<close>

primrec alloc_scan :: "nat list \<Rightarrow> kmem \<Rightarrow> u64 option \<times> kmem" where
  "alloc_scan [] s = (None, s)"
| "alloc_scan (i # is) s =
     (let bitmap = mem s (bitmap_word s i) in
      if bitmap \<noteq> 0 then
        let frame = i * 64 + trailing_zeros bitmap in
        if frame < TOTAL_FRAMES s then (Some (PhysAddr_new (of_nat (frame * PAGE_SIZE))), mark_used frame s)
        else alloc_scan is s
      else alloc_scan is s)"

definition alloc_frame :: "kmem \<Rightarrow> u64 option \<times> kmem" where
  "alloc_frame s = alloc_scan [0..<BITMAP_SIZE s] s"

definition free_frame :: "u64 \<Rightarrow> kmem \<Rightarrow> kmem" where
  "free_frame addr s = mark_free (unat (addr div 4096)) s"

text \<open>\<^verbatim>\<open>FrameAllocator::init\<close>: the highest address, the place of the bitmap, and the two passes over the memory map.\<close>

primrec max_address :: "MemoryMapEntry list \<Rightarrow> u64 \<Rightarrow> (unit, u64) res" where
  "max_address [] max_addr = Ok max_addr"
| "max_address (entry # es) max_addr = bind_res (add_ck (me_base entry) (me_length entry)) (\<lambda>end.
     max_address es (if end > max_addr then end else max_addr))"

definition fill_bitmap :: "kmem \<Rightarrow> kmem" where
  "fill_bitmap s = fold (\<lambda>i s. s\<lparr>mem := (mem s)(bitmap_word s i := 0xFFFFFFFFFFFFFFFF)\<rparr>) [0..<BITMAP_SIZE s] s"

primrec place_bitmap :: "MemoryMapEntry list \<Rightarrow> (kmem, unit, unit) prog" where
  "place_bitmap [] = ret ()"
| "place_bitmap (entry # es) = (\<lambda>s.
     if usable entry \<and> me_length entry \<ge> of_nat (BITMAP_SIZE s * 8) then
       bnd (lift_res (add_ck (me_base entry) 0xFFFF800000000000)) (\<lambda>p s.
         let s1 = fill_bitmap (s\<lparr>FRAME_BITMAP := p\<rparr>);
             bitmap_frames = (BITMAP_SIZE s * 8 + PAGE_SIZE - 1) div PAGE_SIZE
         in (Ok (), fold (\<lambda>i. mark_used (unat (me_base entry) div PAGE_SIZE + i)) [0..<bitmap_frames] s1)) s
     else place_bitmap es s)"

definition free_entry :: "MemoryMapEntry \<Rightarrow> kmem \<Rightarrow> kmem" where
  "free_entry entry s = (if usable entry
     then fold (\<lambda>i. mark_free (unat (me_base entry) div PAGE_SIZE + i)) [0..<unat (me_length entry) div PAGE_SIZE] s
     else s)"

definition FrameAllocator_init :: "MemoryMapEntry list \<Rightarrow> (kmem, unit, unit) prog" where
  "FrameAllocator_init entries =
     bnd (lift_res (max_address entries 0)) (\<lambda>max_addr.
     bnd (\<lambda>s. let total = unat max_addr div PAGE_SIZE in (Ok (), s\<lparr>TOTAL_FRAMES := total, BITMAP_SIZE := (total + 63) div 64\<rparr>)) (\<lambda>_.
     bnd (place_bitmap entries) (\<lambda>_ s. (Ok (), fold free_entry entries s))))"

section \<open>The bitmap as a set of frames\<close>

definition bm_ok :: "kmem \<Rightarrow> bool" where
  "bm_ok s \<longleftrightarrow> BITMAP_SIZE s = (TOTAL_FRAMES s + 63) div 64 \<and> unat (FRAME_BITMAP s) + 8 * BITMAP_SIZE s \<le> 2 ^ 64"

definition free_frames :: "kmem \<Rightarrow> nat set" where
  "free_frames s = {f. f < TOTAL_FRAMES s \<and> bit (mem s (bitmap_word s (f div 64))) (f mod 64)}"

definition bitmap_area :: "kmem \<Rightarrow> u64 set" where
  "bitmap_area s = bitmap_word s ` {..<BITMAP_SIZE s}"

lemma unat_bitmap_word: "bm_ok s \<Longrightarrow> i < BITMAP_SIZE s \<Longrightarrow> unat (bitmap_word s i) = unat (FRAME_BITMAP s) + 8 * i"
  unfolding bm_ok_def bitmap_word_def by (simp add: unat_word_ariths unat_of_nat)

lemma bitmap_word_eq:
  assumes "bm_ok s" "i < BITMAP_SIZE s" "j < BITMAP_SIZE s"
  shows "bitmap_word s i = bitmap_word s j \<longleftrightarrow> i = j"
proof
  assume "bitmap_word s i = bitmap_word s j"
  then have "unat (FRAME_BITMAP s) + 8 * i = unat (FRAME_BITMAP s) + 8 * j"
    by (simp only: flip: unat_bitmap_word [OF assms(1,2)] unat_bitmap_word [OF assms(1,3)])
  then show "i = j" by simp
qed simp

lemma word_index_bound: "bm_ok s \<Longrightarrow> f < TOTAL_FRAMES s \<Longrightarrow> f div 64 < BITMAP_SIZE s"
  unfolding bm_ok_def by (simp add: div_less_iff_less_mult)

lemma mark_simps [simp]:
  "FRAME_BITMAP (mark_free f s) = FRAME_BITMAP s" "FRAME_BITMAP (mark_used f s) = FRAME_BITMAP s"
  "TOTAL_FRAMES (mark_free f s) = TOTAL_FRAMES s" "TOTAL_FRAMES (mark_used f s) = TOTAL_FRAMES s"
  "BITMAP_SIZE (mark_free f s) = BITMAP_SIZE s" "BITMAP_SIZE (mark_used f s) = BITMAP_SIZE s"
  "KERNEL_PAGE_TABLE (mark_used f s) = KERNEL_PAGE_TABLE s"
  "bitmap_word (mark_free f s) = bitmap_word s" "bitmap_word (mark_used f s) = bitmap_word s"
  "bm_ok (mark_free f s) = bm_ok s" "bm_ok (mark_used f s) = bm_ok s"
  by (simp_all add: mark_free_def mark_used_def Let_def bitmap_word_def bm_ok_def fun_eq_iff)

lemma mark_frames:
  assumes "bm_ok s"
  shows "free_frames (mark_free f s) = free_frames s \<union> {f} \<inter> {..<TOTAL_FRAMES s}" "free_frames (mark_used f s) = free_frames s - {f}"
proof -
  have same: "bitmap_word s (g div 64) = bitmap_word s (f div 64) \<longleftrightarrow> g div 64 = f div 64" if "f < TOTAL_FRAMES s" "g < TOTAL_FRAMES s" for g
    using that word_index_bound [OF assms] by (simp add: bitmap_word_eq [OF assms])
  have split: "g = f \<longleftrightarrow> g div 64 = f div 64 \<and> g mod 64 = f mod 64" for g by (metis div_mult_mod_eq)
  have "g \<in> free_frames (mark_free f s) \<longleftrightarrow> g \<in> free_frames s \<union> {f} \<inter> {..<TOTAL_FRAMES s}" for g
    using same [of g] split [of g] by (auto simp: free_frames_def mark_free_def Let_def bitmap_word_def bit_or_iff bit_exp_iff)
  moreover have "g \<in> free_frames (mark_used f s) \<longleftrightarrow> g \<in> free_frames s - {f}" for g
    using same [of g] split [of g]
    by (auto simp: free_frames_def mark_used_def Let_def bitmap_word_def bit_and_iff bit_not_iff bit_exp_iff)
  ultimately show "free_frames (mark_free f s) = free_frames s \<union> {f} \<inter> {..<TOTAL_FRAMES s}" "free_frames (mark_used f s) = free_frames s - {f}"
    by blast+
qed

lemma mark_used_mem:
  assumes "bm_ok s" "a \<notin> bitmap_area s"
  shows "mem (mark_used f s) a = mem s a"
  using assms word_index_bound [OF assms(1), of f] by (auto simp: mark_used_def Let_def bitmap_area_def)

lemma takeWhile_stops: "\<exists>x\<in>set xs. \<not> P x \<Longrightarrow> length (takeWhile P xs) < length xs"
  by (induction xs) auto

lemma trailing_zeros:
  assumes "w \<noteq> 0"
  shows "trailing_zeros w < 64" "bit w (trailing_zeros w)" "\<And>n. n < trailing_zeros w \<Longrightarrow> \<not> bit w n"
proof -
  let ?t = "takeWhile (\<lambda>n. \<not> bit w n) [0..<64]"
  obtain n where n: "bit w n" using assms by (auto simp: bit_eq_iff)
  then have "n < 64" using bit_imp_le_length [of w n] by simp
  then have l: "length ?t < length [0..<64]" using n by (intro takeWhile_stops) auto
  then show "trailing_zeros w < 64" by (simp add: trailing_zeros_def)
  show "bit w (trailing_zeros w)" using nth_length_takeWhile [OF l] l by (simp add: trailing_zeros_def)
  fix n assume n: "n < trailing_zeros w"
  then have "?t ! n = n" using takeWhile_nth [of n "\<lambda>n. \<not> bit w n" "[0..<64]"] l by (simp add: trailing_zeros_def)
  then have "n \<in> set ?t" using n nth_mem [of n ?t] by (simp add: trailing_zeros_def)
  then show "\<not> bit w n" by (auto dest: set_takeWhileD)
qed

lemma alloc_scan_lowest:
  assumes "bm_ok s" "k \<le> BITMAP_SIZE s" "\<And>f. f < k * 64 \<Longrightarrow> f \<notin> free_frames s"
  shows "alloc_scan [k..<BITMAP_SIZE s] s = (if free_frames s = {} then (None, s)
     else (Some (PhysAddr_new (of_nat (Min (free_frames s) * PAGE_SIZE))), mark_used (Min (free_frames s)) s))"
  using assms(2,3)
proof (induction "BITMAP_SIZE s - k" arbitrary: k)
  case 0
  have "f \<notin> free_frames s" for f
  proof (cases "f < k * 64")
    case False
    then have "\<not> f div 64 < BITMAP_SIZE s" using 0 by (simp add: div_less_iff_less_mult)
    then show ?thesis using word_index_bound [OF assms(1)] by (auto simp: free_frames_def)
  qed (use 0 in simp)
  then have "free_frames s = {}" by blast
  then show ?case using 0 by simp
next
  case (Suc n)
  then have k: "k < BITMAP_SIZE s" "[k..<BITMAP_SIZE s] = k # [Suc k..<BITMAP_SIZE s]" by (simp_all add: upt_conv_Cons)
  let ?w = "mem s (bitmap_word s k)" and ?f = "k * 64 + trailing_zeros (mem s (bitmap_word s k))"
  have inw: "f \<in> free_frames s \<longleftrightarrow> f < TOTAL_FRAMES s \<and> bit ?w (f mod 64)" if "f div 64 = k" for f
    using that by (simp add: free_frames_def)
  show ?case
  proof (cases "?w \<noteq> 0 \<and> ?f < TOTAL_FRAMES s")
    case True
    note tz = trailing_zeros [OF conjunct1 [OF True]]
    have f: "?f div 64 = k" "?f mod 64 = trailing_zeros ?w" using tz(1) by simp_all
    then have mem: "?f \<in> free_frames s" using inw [of ?f] tz(2) True by simp
    have "?f \<le> g" if g: "g \<in> free_frames s" for g
    proof (rule ccontr)
      assume "\<not> ?f \<le> g"
      then have "g < ?f" "\<not> g < k * 64" using g Suc.prems(2) by auto
      then have "g div 64 = k" using tz(1) by (intro div_nat_eqI) simp_all
      moreover from this have "g mod 64 < trailing_zeros ?w" using \<open>g < ?f\<close> div_mult_mod_eq [of g 64] by simp
      ultimately
      show False using inw [of g] g tz(3) by simp
    qed
    then have "Min (free_frames s) = ?f" using mem by (intro Min_eqI) (auto simp: free_frames_def)
    moreover have "free_frames s \<noteq> {}" using mem by auto
    ultimately show ?thesis using True k(2) by (simp add: Let_def)
  next
    case False
    have "f \<notin> free_frames s" if "f < Suc k * 64" for f
    proof (cases "f < k * 64")
      case False
      with that have d: "f div 64 = k" by (intro div_nat_eqI) simp_all
      then have "f = k * 64 + f mod 64" by (metis div_mult_mod_eq)
      moreover have "trailing_zeros ?w \<le> f mod 64" if "bit ?w (f mod 64)" using trailing_zeros(3) [of ?w "f mod 64"] that by force
      ultimately show ?thesis using inw [OF d] \<open>\<not> (?w \<noteq> 0 \<and> ?f < TOTAL_FRAMES s)\<close> by (cases "?w = 0") auto
    qed (use Suc.prems in simp)
    then have "alloc_scan [Suc k..<BITMAP_SIZE s] s = (if free_frames s = {} then (None, s)
        else (Some (PhysAddr_new (of_nat (Min (free_frames s) * PAGE_SIZE))), mark_used (Min (free_frames s)) s))"
      using Suc.hyps k(1) by (intro Suc.hyps(1)) auto
    then show ?thesis using False k(2) by (auto simp: Let_def)
  qed
qed

lemma alloc_frame_eq:
  "bm_ok s \<Longrightarrow> alloc_frame s = (if free_frames s = {} then (None, s)
     else (Some (PhysAddr_new (of_nat (Min (free_frames s) * PAGE_SIZE))), mark_used (Min (free_frames s)) s))"
  unfolding alloc_frame_def by (rule alloc_scan_lowest) simp_all

lemma fold_mark_used:
  assumes "bm_ok s"
  shows "bm_ok (fold (\<lambda>i. mark_used (b + i)) xs s) \<and> TOTAL_FRAMES (fold (\<lambda>i. mark_used (b + i)) xs s) = TOTAL_FRAMES s
     \<and> free_frames (fold (\<lambda>i. mark_used (b + i)) xs s) = free_frames s - (+) b ` set xs"
  using assms by (induction xs arbitrary: s) (auto simp: mark_frames(2))

lemma fold_mark_free:
  assumes "bm_ok s"
  shows "bm_ok (fold (\<lambda>i. mark_free (b + i)) xs s) \<and> TOTAL_FRAMES (fold (\<lambda>i. mark_free (b + i)) xs s) = TOTAL_FRAMES s
     \<and> free_frames (fold (\<lambda>i. mark_free (b + i)) xs s) = free_frames s \<union> (+) b ` set xs \<inter> {..<TOTAL_FRAMES s}"
  using assms by (induction xs arbitrary: s) (auto simp: mark_frames(1))

text \<open>The frames that lie wholly in an entry, if it starts at a frame boundary.\<close>

definition frames_of :: "MemoryMapEntry \<Rightarrow> nat set" where
  "frames_of e = {unat (me_base e) div PAGE_SIZE..<unat (me_base e) div PAGE_SIZE + unat (me_length e) div PAGE_SIZE}"

lemma free_entry:
  assumes "bm_ok s"
  shows "bm_ok (free_entry e s) \<and> TOTAL_FRAMES (free_entry e s) = TOTAL_FRAMES s
     \<and> free_frames (free_entry e s) = free_frames s \<union> (if usable e then frames_of e \<inter> {..<TOTAL_FRAMES s} else {})"
proof -
  let ?b = "unat (me_base e) div PAGE_SIZE" and ?n = "unat (me_length e) div PAGE_SIZE"
  have "(+) ?b ` set [0..<?n] = frames_of e" by (simp add: frames_of_def add.commute)
  then show ?thesis using fold_mark_free [OF assms, of ?b "[0..<?n]"] assms by (simp add: free_entry_def del: set_upt)
qed

lemma fold_free_entry:
  assumes "bm_ok s"
  shows "bm_ok (fold free_entry es s) \<and> TOTAL_FRAMES (fold free_entry es s) = TOTAL_FRAMES s
     \<and> free_frames (fold free_entry es s) = free_frames s \<union> (\<Union>e\<in>{e \<in> set es. usable e}. frames_of e \<inter> {..<TOTAL_FRAMES s})"
  using assms
proof (induction es arbitrary: s)
  case (Cons e es)
  then show ?case using free_entry [OF Cons.prems, of e] Cons.IH [of "free_entry e s"] by auto
qed simp

lemma fill_words:
  "fold (\<lambda>i s. s\<lparr>mem := (mem s)(bitmap_word s i := x)\<rparr>) xs s = s\<lparr>mem := \<lambda>a. if a \<in> bitmap_word s ` set xs then x else mem s a\<rparr>"
proof (induction xs arbitrary: s)
  case (Cons i xs)
  let ?s = "s\<lparr>mem := (mem s)(bitmap_word s i := x)\<rparr>"
  have "bitmap_word ?s = bitmap_word s" by (simp add: bitmap_word_def fun_eq_iff)
  then show ?case
    unfolding fold.simps comp_apply Cons [of ?s] by (auto intro!: arg_cong [of _ _ "\<lambda>m. s\<lparr>mem := m\<rparr>"] simp: fun_eq_iff)
qed simp

lemma ones_bits: "bit (0xFFFFFFFFFFFFFFFF :: u64) n \<longleftrightarrow> n < 64"
proof -
  have "(0xFFFFFFFFFFFFFFFF :: u64) = mask 64" by (simp add: mask_eq_exp_minus_1)
  then show ?thesis by (simp only: bit_mask_iff) simp
qed

lemma fill_bitmap:
  assumes "bm_ok s"
  shows "bm_ok (fill_bitmap s) \<and> TOTAL_FRAMES (fill_bitmap s) = TOTAL_FRAMES s \<and> free_frames (fill_bitmap s) = {..<TOTAL_FRAMES s}"
proof -
  have f: "fill_bitmap s = s\<lparr>mem := \<lambda>a. if a \<in> bitmap_word s ` {0..<BITMAP_SIZE s} then 0xFFFFFFFFFFFFFFFF else mem s a\<rparr>" (is "_ = s\<lparr>mem := ?m\<rparr>")
    unfolding fill_bitmap_def fill_words by simp
  have w: "bitmap_word (s\<lparr>mem := m\<rparr>) = bitmap_word s" for m by (simp add: bitmap_word_def fun_eq_iff)
  have "f \<in> free_frames (fill_bitmap s)" if "f < TOTAL_FRAMES s" for f
  proof -
    have "mem (fill_bitmap s) (bitmap_word s (f div 64)) = 0xFFFFFFFFFFFFFFFF" using word_index_bound [OF assms that] by (simp add: f)
    then have "bit (mem (fill_bitmap s) (bitmap_word s (f div 64))) (f mod 64)" by (simp only: ones_bits)
    then show ?thesis using that w by (simp add: f free_frames_def)
  qed
  moreover have "free_frames (fill_bitmap s) \<subseteq> {..<TOTAL_FRAMES s}" by (auto simp: f free_frames_def)
  ultimately show ?thesis using assms by (auto simp: f bm_ok_def)
qed

text \<open>A memory map as boot loaders report it: usable regions are page-aligned and lie below the limit of the direct map.\<close>

definition map_ok :: "MemoryMapEntry list \<Rightarrow> bool" where
  "map_ok es \<longleftrightarrow> (\<forall>e\<in>set es. usable e \<longrightarrow> PAGE_SIZE dvd unat (me_base e) \<and> PAGE_SIZE dvd unat (me_length e)
     \<and> unat (me_base e) + unat (me_length e) \<le> 2 ^ 47)"

lemma place_bitmap:
  assumes "map_ok es" "BITMAP_SIZE s = (TOTAL_FRAMES s + 63) div 64" "BITMAP_SIZE s * 8 < 2 ^ 64" "0 < TOTAL_FRAMES s"
    and "\<exists>e\<in>set es. usable e \<and> BITMAP_SIZE s * 8 \<le> unat (me_length e)"
  shows "\<exists>s' e. place_bitmap es s = (Ok (), s') \<and> bm_ok s' \<and> TOTAL_FRAMES s' = TOTAL_FRAMES s \<and> e \<in> set es \<and> usable e
     \<and> {..<TOTAL_FRAMES s} - frames_of e \<subseteq> free_frames s'"
  using assms(1,5)
proof (induction es)
  case (Cons e es)
  have le: "me_length e \<ge> of_nat (BITMAP_SIZE s * 8) \<longleftrightarrow> BITMAP_SIZE s * 8 \<le> unat (me_length e)"
    using assms(3) by (simp only: word_le_nat_alt unat_of_nat) simp
  show ?case
  proof (cases "usable e \<and> BITMAP_SIZE s * 8 \<le> unat (me_length e)")
    case True
    then have a: "PAGE_SIZE dvd unat (me_length e)" "unat (me_base e) + unat (me_length e) \<le> 2 ^ 47" using Cons.prems(1) by (auto simp: map_ok_def)
    let ?p = "me_base e + 0xFFFF800000000000" and ?n = "(BITMAP_SIZE s * 8 + PAGE_SIZE - 1) div PAGE_SIZE" and ?b = "unat (me_base e) div PAGE_SIZE"
    have bs: "0 < BITMAP_SIZE s" using assms(2,4) by (simp add: div_greater_zero_iff)
    have k: "unat (0xFFFF800000000000 :: u64) = 2 ^ 64 - 2 ^ 47" by simp
    have p: "unat (me_base e) + unat (0xFFFF800000000000 :: u64) < 2 ^ 64" using a(2) bs True by simp
    then have up: "unat ?p = unat (me_base e) + (2 ^ 64 - 2 ^ 47)" using unat_add_no_wrap [of "me_base e" "0xFFFF800000000000"] k by simp
    let ?s1 = "fill_bitmap (s\<lparr>FRAME_BITMAP := ?p\<rparr>)"
    have ok: "bm_ok (s\<lparr>FRAME_BITMAP := ?p\<rparr>)"
      using assms(2) a(2) True by (simp add: bm_ok_def up)
    note fill = fill_bitmap [OF ok]
    have "?n \<le> unat (me_length e) div PAGE_SIZE"
    proof -
      obtain q where "unat (me_length e) = PAGE_SIZE * q" using a(1) by blast
      with True show ?thesis by (simp add: PAGE_SIZE_def) linarith
    qed
    then have sub: "(+) ?b ` set [0..<?n] \<subseteq> frames_of e" by (auto simp: frames_of_def)
    have "place_bitmap (e # es) s = (Ok (), fold (\<lambda>i. mark_used (?b + i)) [0..<?n] ?s1)"
      using True le p by (simp add: add_ck_def Let_def)
    then show ?thesis
      using fold_mark_used [of ?s1 ?b "[0..<?n]"] fill sub True by (intro exI [of _ "fold (\<lambda>i. mark_used (?b + i)) [0..<?n] ?s1"] exI [of _ e]) auto
  next
    case False
    then have "place_bitmap (e # es) s = place_bitmap es s" using le by auto
    then show ?thesis using Cons False by (fastforce simp: map_ok_def)
  qed
qed simp

lemma init_frames:
  assumes "map_ok es" "max_address es 0 = Ok hi" "PAGE_SIZE \<le> unat hi"
    and "\<exists>e\<in>set es. usable e \<and> (unat hi div PAGE_SIZE + 63) div 64 * 8 \<le> unat (me_length e)"
  shows "\<exists>s'. FrameAllocator_init es s = (Ok (), s') \<and> bm_ok s' \<and> TOTAL_FRAMES s' = unat hi div PAGE_SIZE
     \<and> free_frames s' = {..<TOTAL_FRAMES s'}"
proof -
  let ?n = "unat hi div PAGE_SIZE"
  let ?s = "s\<lparr>TOTAL_FRAMES := ?n, BITMAP_SIZE := (?n + 63) div 64\<rparr>"
  have "unat hi < 2 ^ 64" using unsigned_less [of hi] by simp
  then have t: "0 < ?n" "(?n + 63) div 64 * 8 < 2 ^ 64" using assms(3) by (simp_all add: PAGE_SIZE_def div_greater_zero_iff)
  obtain s1 e where s1: "place_bitmap es ?s = (Ok (), s1)" "bm_ok s1" "TOTAL_FRAMES s1 = ?n" "e \<in> set es" "usable e"
      "{..<?n} - frames_of e \<subseteq> free_frames s1"
    using place_bitmap [of es ?s] assms(1,4) t by auto
  have "free_frames s1 \<subseteq> {..<?n}" using s1(3) by (auto simp: free_frames_def)
  moreover have "frames_of e \<inter> {..<?n} \<subseteq> (\<Union>e\<in>{e \<in> set es. usable e}. frames_of e \<inter> {..<?n})" using s1(4,5) by blast
  ultimately have "free_frames (fold free_entry es s1) = {..<?n}"
    using fold_free_entry [OF s1(2), of es] s1(3,6) by auto
  then show ?thesis
    using fold_free_entry [OF s1(2), of es] s1(1,3) assms(2) by (simp add: FrameAllocator_init_def bnd_def Let_def)
qed

section \<open>Regions of the boot loader\<close>

text \<open>\<^verbatim>\<open>BootInfoFrameAllocator\<close>: the array of at most 16 regions is the list of its filled entries.\<close>

record BootInfoFrameAllocator =
  memory_regions :: "(u64 \<times> u64) list"
  current_region :: nat
  next_frame :: u64

text \<open>
  The argument \<open>PA\<close> is \<^verbatim>\<open>PhysAddr::new\<close> of the \<^verbatim>\<open>x86_64\<close> crate, which accepts addresses of 52 bits. The running total of the messages
  is part of the code path, since it can overflow.
\<close>

type_synonym phys_new = "u64 \<Rightarrow> (unit, u64) res"

definition boot_region :: "phys_new \<Rightarrow> MemoryMapEntry \<Rightarrow> (u64 \<times> u64) list \<times> u64 \<Rightarrow> (unit, (u64 \<times> u64) list \<times> u64) res" where
  "boot_region PA entry = (\<lambda>(regions, total).
     if me_length entry > 0 \<and> length regions < 16 then
       let safe_start = (if me_base entry < 0x100000 then 0x100000 else me_base entry) in
       bind_res (add_ck (me_base entry) (me_length entry)) (\<lambda>end.
       if safe_start < end then
         bind_res (bind_res (add_ck safe_start 4095) (\<lambda>x. PA (x AND NOT 4095))) (\<lambda>start_addr.
         bind_res (PA (end AND NOT 4095)) (\<lambda>end_addr.
         if start_addr < end_addr then
           bind_res (add_ck total (end_addr - start_addr)) (\<lambda>total. Ok (regions @ [(start_addr, end_addr)], total))
         else Ok (regions, total)))
       else Ok (regions, total))
     else Ok (regions, total))"

primrec boot_regions :: "phys_new \<Rightarrow> MemoryMapEntry list \<Rightarrow> (u64 \<times> u64) list \<times> u64 \<Rightarrow> (unit, (u64 \<times> u64) list \<times> u64) res" where
  "boot_regions PA [] acc = Ok acc"
| "boot_regions PA (entry # es) acc = bind_res (boot_region PA entry acc) (boot_regions PA es)"

definition BootInfoFrameAllocator_init :: "phys_new \<Rightarrow> MemoryMapEntry list \<Rightarrow> (unit, BootInfoFrameAllocator) res" where
  "BootInfoFrameAllocator_init PA entries = bind_res (boot_regions PA entries ([], 0)) (\<lambda>(regions, total).
     Ok \<lparr>memory_regions = regions, current_region = 0,
         next_frame = (case regions of [] \<Rightarrow> 0 | (start, _) # _ \<Rightarrow> start)\<rparr>)"

text \<open>The addition of the page size cannot overflow, since addresses have 52 bits.\<close>

function BootInfoFrameAllocator_allocate_frame :: "BootInfoFrameAllocator \<Rightarrow> u64 option \<times> BootInfoFrameAllocator" where
  "BootInfoFrameAllocator_allocate_frame a =
     (if current_region a < length (memory_regions a) then
        if next_frame a < snd (memory_regions a ! current_region a) then (Some (next_frame a), a\<lparr>next_frame := next_frame a + 4096\<rparr>)
        else
          let c = current_region a + 1
          in BootInfoFrameAllocator_allocate_frame (a\<lparr>current_region := c,
               next_frame := (if c < length (memory_regions a) then fst (memory_regions a ! c) else next_frame a)\<rparr>)
      else (None, a))"
  by pat_completeness auto
termination by (relation "measure (\<lambda>a. length (memory_regions a) - current_region a)") auto

declare BootInfoFrameAllocator_allocate_frame.simps [simp del]


section \<open>Page tables\<close>

definition HHDM_OFFSET :: u64 where "HHDM_OFFSET = 0xFFFF800000000000"
definition PRESENT :: u64 where "PRESENT = 1"
definition WRITABLE :: u64 where "WRITABLE = 2"
definition USER :: u64 where "USER = 4"
definition WRITE_THROUGH :: u64 where "WRITE_THROUGH = 8"
definition NO_CACHE :: u64 where "NO_CACHE = 16"

definition is_present :: "u64 \<Rightarrow> bool" where
  "is_present e \<longleftrightarrow> e AND PRESENT \<noteq> 0"

definition set_addr :: "u64 \<Rightarrow> u64 \<Rightarrow> u64" where
  "set_addr addr flags = (addr AND 0x000FFFFFFFFFF000) OR flags"

definition get_addr :: "u64 \<Rightarrow> u64" where
  "get_addr e = PhysAddr_new (e AND 0x000FFFFFFFFFF000)"

text \<open>Entry \<open>i\<close> of the table at pointer \<open>table\<close>.\<close>

definition entry_at :: "u64 \<Rightarrow> nat \<Rightarrow> u64" where
  "entry_at table i = table + 8 * of_nat i"

definition zero_table :: "u64 \<Rightarrow> kmem \<Rightarrow> kmem" where
  "zero_table table s = s\<lparr>mem := fold (\<lambda>i m. m(entry_at table i := 0)) [0..<512] (mem s)\<rparr>"

definition get_or_create_table :: "u64 \<Rightarrow> (kmem, unit, u64) prog" where
  "get_or_create_table entry = (\<lambda>s.
     if is_present (mem s entry) then (Ok (get_addr (mem s entry) OR HHDM_OFFSET), s)
     else case alloc_frame s of
       (None, s1) \<Rightarrow> (Err (), s1)
     | (Some frame, s1) \<Rightarrow>
         let table = frame OR HHDM_OFFSET; s2 = zero_table table s1
         in (Ok table, s2\<lparr>mem := (mem s2)(entry := set_addr frame (PRESENT OR WRITABLE OR USER))\<rparr>))"

definition map_page :: "u64 \<Rightarrow> u64 \<Rightarrow> u64 \<Rightarrow> u64 \<Rightarrow> (kmem, unit, unit) prog" where
  "map_page page_table virt phys flags =
     (let p4 = page_table OR HHDM_OFFSET in
     bnd (get_or_create_table (entry_at p4 (p4_index virt))) (\<lambda>p3.
     bnd (get_or_create_table (entry_at p3 (p3_index virt))) (\<lambda>p2.
     bnd (get_or_create_table (entry_at p2 (p2_index virt))) (\<lambda>p1.
     (\<lambda>s. (Ok (), s\<lparr>mem := (mem s)(entry_at p1 (p1_index virt) := set_addr phys (flags OR PRESENT))\<rparr>))))))"

text \<open>The walk that \<^verbatim>\<open>unmap_page\<close>, \<^verbatim>\<open>unmap\<close>, \<^verbatim>\<open>update_flags\<close> and \<^verbatim>\<open>translate_page\<close> have in common: the address of the last-level entry.\<close>

definition next_table :: "kmem \<Rightarrow> u64 \<Rightarrow> nat \<Rightarrow> u64 option" where
  "next_table s table i = (let e = mem s (entry_at table i) in if is_present e then Some (get_addr e OR HHDM_OFFSET) else None)"

definition walk :: "kmem \<Rightarrow> u64 \<Rightarrow> u64 \<Rightarrow> u64 option" where
  "walk s page_table virt =
     (case next_table s (page_table OR HHDM_OFFSET) (p4_index virt) of None \<Rightarrow> None | Some p3 \<Rightarrow>
      case next_table s p3 (p3_index virt) of None \<Rightarrow> None | Some p2 \<Rightarrow>
      case next_table s p2 (p2_index virt) of None \<Rightarrow> None | Some p1 \<Rightarrow> Some (entry_at p1 (p1_index virt)))"

definition unmap_page :: "u64 \<Rightarrow> u64 \<Rightarrow> kmem \<Rightarrow> kmem" where
  "unmap_page page_table virt s = (case walk s page_table virt of None \<Rightarrow> s | Some a \<Rightarrow> s\<lparr>mem := (mem s)(a := 0)\<rparr>)"

primrec map_pages :: "nat \<Rightarrow> u64 \<Rightarrow> u64 \<Rightarrow> u64 \<Rightarrow> u64 \<Rightarrow> (kmem, unit, unit) prog" where
  "map_pages 0 page_table virt phys flags = ret ()"
| "map_pages (Suc n) page_table virt phys flags =
     bnd (map_page page_table virt (PhysAddr_new phys) flags) (\<lambda>_.
     bnd (lift_res (add_ck virt 0x1000)) (\<lambda>virt. bnd (lift_res (add_ck phys 0x1000)) (\<lambda>phys.
       map_pages n page_table virt phys flags)))"

definition map_range :: "u64 \<Rightarrow> u64 \<Rightarrow> u64 \<Rightarrow> u64 \<Rightarrow> u64 \<Rightarrow> (kmem, unit, unit) prog" where
  "map_range page_table virt_start phys_start sz flags =
     bnd (lift_res (add_ck sz 0xFFF)) (\<lambda>n. map_pages (unat n div 0x1000) page_table virt_start phys_start flags)"

primrec unmap_pages :: "nat \<Rightarrow> u64 \<Rightarrow> u64 \<Rightarrow> (kmem, unit, unit) prog" where
  "unmap_pages 0 page_table virt = ret ()"
| "unmap_pages (Suc n) page_table virt = bnd (\<lambda>s. (Ok (), unmap_page page_table virt s)) (\<lambda>_.
     bnd (lift_res (add_ck virt 0x1000)) (\<lambda>virt. unmap_pages n page_table virt))"

definition unmap_range :: "u64 \<Rightarrow> u64 \<Rightarrow> u64 \<Rightarrow> (kmem, unit, unit) prog" where
  "unmap_range page_table virt_start sz =
     bnd (lift_res (add_ck sz 0xFFF)) (\<lambda>n. unmap_pages (unat n div 0x1000) page_table virt_start)"

text \<open>The value of the register \<^verbatim>\<open>cr3\<close> is an argument.\<close>

definition VMM_init :: "u64 \<Rightarrow> MemoryMapEntry list \<Rightarrow> (kmem, unit, u64) prog" where
  "VMM_init cr3 entries = bnd (FrameAllocator_init entries) (\<lambda>_ s.
     (Ok (cr3 AND 0x000FFFFFFFFFF000), s\<lparr>KERNEL_PAGE_TABLE := cr3 AND 0x000FFFFFFFFFF000\<rparr>))"

text \<open>The \<^verbatim>\<open>Mapper\<close> interface; a page is its start address, a frame its physical address.\<close>

datatype map_error = FrameAllocationFailed | PageNotMapped

definition map_to_with_table_flags :: "u64 \<Rightarrow> u64 \<Rightarrow> u64 \<Rightarrow> u64 \<Rightarrow> kmem \<Rightarrow> (map_error, unit) res \<times> kmem" where
  "map_to_with_table_flags page_table page frame flags s =
     (case map_page page_table page (PhysAddr_new frame) flags s of
        (r, s') \<Rightarrow> (map_err (\<lambda>_. FrameAllocationFailed) r, s'))"

definition mapper_unmap :: "u64 \<Rightarrow> u64 \<Rightarrow> (kmem, map_error, u64) prog" where
  "mapper_unmap page_table page = (\<lambda>s. case walk s page_table page of
       None \<Rightarrow> (Err PageNotMapped, s)
     | Some a \<Rightarrow> if \<not> is_present (mem s a) then (Err PageNotMapped, s)
         else (Ok (get_addr (mem s a)), unmap_page page_table page s))"

definition update_flags :: "u64 \<Rightarrow> u64 \<Rightarrow> u64 \<Rightarrow> (kmem, map_error, unit) prog" where
  "update_flags page_table page flags = (\<lambda>s. case walk s page_table page of
       None \<Rightarrow> (Err PageNotMapped, s)
     | Some a \<Rightarrow> if \<not> is_present (mem s a) then (Err PageNotMapped, s)
         else (Ok (), s\<lparr>mem := (mem s)(a := set_addr (get_addr (mem s a)) (flags OR PRESENT))\<rparr>))"

definition translate_page :: "u64 \<Rightarrow> u64 \<Rightarrow> kmem \<Rightarrow> (map_error, u64) res" where
  "translate_page page_table page s = (case walk s page_table page of
       None \<Rightarrow> Err PageNotMapped
     | Some a \<Rightarrow> if \<not> is_present (mem s a) then Err PageNotMapped else Ok (get_addr (mem s a)))"


section \<open>Device memory\<close>

definition mmio_map_range :: "u64 \<Rightarrow> u64 \<Rightarrow> kmem \<Rightarrow> kmem" where
  "mmio_map_range lower upper s = s\<lparr>MMIO_LOWER := lower, MMIO_UPPER := upper, MMIO_CURRENT := lower\<rparr>"

primrec mmio_pages :: "nat list \<Rightarrow> u64 \<Rightarrow> u64 \<Rightarrow> u64 \<Rightarrow> (kmem, string, unit) prog" where
  "mmio_pages [] pt virt_addr phys_addr = ret ()"
| "mmio_pages (i # is) pt virt_addr phys_addr =
     bnd (lift_res (add_ck virt_addr (of_nat (i * 0x1000)))) (\<lambda>virt.
     bnd (lift_res (add_ck phys_addr (of_nat (i * 0x1000)))) (\<lambda>phys.
     bnd (\<lambda>s. case map_page pt virt (PhysAddr_new phys) (WRITABLE OR NO_CACHE OR WRITE_THROUGH) s of
           (r, s') \<Rightarrow> (map_err (\<lambda>_. ''Failed to map MMIO page'') r, s')) (\<lambda>_.
       mmio_pages is pt virt_addr phys_addr)))"

definition map_mmio :: "u64 \<Rightarrow> u64 \<Rightarrow> (kmem, string, u64) prog" where
  "map_mmio phys_addr sz =
     bnd (lift_res (add_ck sz 0xFFF)) (\<lambda>n.
     let pages_needed = unat n div 0x1000; total_size = of_nat (pages_needed * 0x1000) :: u64 in
     (\<lambda>s. bnd (lift_res (add_ck (MMIO_CURRENT s) total_size)) (\<lambda>end.
       if end > MMIO_UPPER s then fail ''MMIO region exhausted''
       else
         let virt_addr = MMIO_CURRENT s in
         bnd (mmio_pages [0..<pages_needed] (KERNEL_PAGE_TABLE s) virt_addr phys_addr) (\<lambda>_ s.
         (case add_ck (MMIO_CURRENT s) total_size of
            Ok c \<Rightarrow> (Ok virt_addr, s\<lparr>MMIO_CURRENT := c\<rparr>) | Err e \<Rightarrow> (Err e, s) | Panic \<Rightarrow> (Panic, s)))) s))"

definition mmio_remaining :: "kmem \<Rightarrow> u64" where
  "mmio_remaining s = saturating_sub (MMIO_UPPER s) (MMIO_CURRENT s)"

section \<open>Pointers to tables\<close>

definition ptr :: "nat \<Rightarrow> u64" where
  "ptr f = of_nat (f * PAGE_SIZE) OR HHDM_OFFSET"

lemma addr_mask_bits: "bit (0x000FFFFFFFFFF000 :: u64) n \<longleftrightarrow> 12 \<le> n \<and> n < 52"
proof -
  have "(0x000FFFFFFFFFF000 :: u64) = push_bit 12 (mask 40)" by (simp add: mask_eq_exp_minus_1 push_bit_eq_mult)
  then show ?thesis by (simp only: bit_push_bit_iff bit_mask_iff) (auto simp: less_diff_conv2)
qed

lemma HHDM_bits: "bit HHDM_OFFSET n \<longleftrightarrow> 47 \<le> n \<and> n < 64"
proof -
  have "HHDM_OFFSET = push_bit 47 (mask 17)" by (simp add: HHDM_OFFSET_def mask_eq_exp_minus_1 push_bit_eq_mult)
  then have "bit HHDM_OFFSET n \<longleftrightarrow> bit (push_bit 47 (mask 17 :: u64)) n" by (rule arg_cong)
  then show ?thesis by (simp only: bit_push_bit_iff bit_mask_iff) (auto simp: less_diff_conv2)
qed

lemma PhysAddr_bits: "bit (PhysAddr_new a) n \<longleftrightarrow> bit a n \<and> 12 \<le> n \<and> n < 52" "bit (get_addr a) n \<longleftrightarrow> bit a n \<and> 12 \<le> n \<and> n < 52"
  "bit (set_addr a fl) n \<longleftrightarrow> bit a n \<and> 12 \<le> n \<and> n < 52 \<or> bit fl n"
  unfolding get_addr_def PhysAddr_new_def set_addr_def bit_and_iff bit_or_iff addr_mask_bits by auto

lemma frame_bits:
  assumes "f < 2 ^ k" "k \<le> 52"
  shows "bit (of_nat (f * PAGE_SIZE) :: u64) n \<Longrightarrow> 12 \<le> n \<and> n < 12 + k"
proof -
  assume b: "bit (of_nat (f * PAGE_SIZE) :: u64) n"
  have "of_nat (f * PAGE_SIZE) = push_bit 12 (of_nat f :: u64)" by (simp add: PAGE_SIZE_def push_bit_eq_mult)
  with b have n: "12 \<le> n" "bit f (n - 12)" by (auto simp: bit_push_bit_iff bit_of_nat_iff)
  have "f = take_bit k f" using assms(1) by (simp add: take_bit_nat_eq_self)
  with n(2) have "n - 12 < k" by (metis bit_take_bit_iff)
  with n(1) show ?thesis by linarith
qed

lemma PhysAddr_frame: "f < 2 ^ 40 \<Longrightarrow> PhysAddr_new (of_nat (f * PAGE_SIZE)) = of_nat (f * PAGE_SIZE)"
proof (rule bit_word_eqI)
  fix n assume "f < 2 ^ 40"
  then show "bit (PhysAddr_new (of_nat (f * PAGE_SIZE))) n = bit (of_nat (f * PAGE_SIZE) :: u64) n"
    using frame_bits [of f 40 n] unfolding PhysAddr_bits by auto
qed

lemma unat_ptr: "f < 2 ^ 35 \<Longrightarrow> unat (ptr f) = f * 4096 + (2 ^ 64 - 2 ^ 47)"
proof -
  assume f: "f < 2 ^ 35"
  have "ptr f = of_nat (f * PAGE_SIZE) + HHDM_OFFSET"
    unfolding ptr_def by (rule disjunctive_add [symmetric]) (use frame_bits [OF f] HHDM_bits in force)
  moreover have "unat (of_nat (f * PAGE_SIZE) :: u64) = f * 4096" using f by (simp only: unat_of_nat PAGE_SIZE_def) simp
  moreover have "unat HHDM_OFFSET = 2 ^ 64 - 2 ^ 47" by (simp add: HHDM_OFFSET_def)
  ultimately show ?thesis using f by (simp add: unat_add_no_wrap)
qed

lemma unat_entry: "f < 2 ^ 35 \<Longrightarrow> i < 512 \<Longrightarrow> unat (entry_at (ptr f) i) = (f * 512 + i) * 8 + (2 ^ 64 - 2 ^ 47)"
  unfolding entry_at_def by (simp add: unat_word_ariths unat_of_nat unat_ptr)

lemma entry_at_eq:
  assumes "f < 2 ^ 35" "g < 2 ^ 35" "i < 512" "j < 512"
  shows "entry_at (ptr f) i = entry_at (ptr g) j \<longleftrightarrow> f = g \<and> i = j"
proof
  assume "entry_at (ptr f) i = entry_at (ptr g) j"
  then have "unat (entry_at (ptr f) i) = unat (entry_at (ptr g) j)" by simp
  then have e: "f * 512 + i = g * 512 + j" using unat_entry [OF assms(1,3)] unat_entry [OF assms(2,4)] by simp
  then have "(f * 512 + i) div 512 = (g * 512 + j) div 512" by simp
  then have "f = g" using assms(3,4) by simp
  then show "f = g \<and> i = j" using e by simp
qed simp

lemma ptr_eq: "f < 2 ^ 35 \<Longrightarrow> g < 2 ^ 35 \<Longrightarrow> ptr f = ptr g \<longleftrightarrow> f = g"
  using entry_at_eq [of f g 0 0] by (simp add: entry_at_def)

definition table_area :: "u64 \<Rightarrow> u64 set" where
  "table_area p = entry_at p ` {..<512}"

lemma zero_table_mem: "zero_table p s = s\<lparr>mem := \<lambda>a. if a \<in> table_area p then 0 else mem s a\<rparr>"
proof -
  have "fold (\<lambda>i m. m(entry_at p i := 0)) is m = (\<lambda>a. if a \<in> entry_at p ` set is then 0 else m a)" for "is" and m :: "u64 \<Rightarrow> u64"
    by (induction "is" arbitrary: m) (auto simp: fun_eq_iff)
  then show ?thesis by (simp add: zero_table_def table_area_def atLeast0LessThan)
qed

lemma table_entry: "f < 2 ^ 35 \<Longrightarrow> get_addr (set_addr (of_nat (f * PAGE_SIZE)) (PRESENT OR WRITABLE OR USER)) OR HHDM_OFFSET = ptr f"
proof -
  assume f: "f < 2 ^ 35"
  have m: "PRESENT OR WRITABLE OR USER = mask 3" by (simp add: PRESENT_def WRITABLE_def USER_def mask_eq_exp_minus_1)
  have "get_addr (set_addr (of_nat (f * PAGE_SIZE)) (mask 3)) = of_nat (f * PAGE_SIZE)"
    by (rule bit_word_eqI) (use frame_bits [OF f] in \<open>force simp only: PhysAddr_bits bit_mask_iff\<close>)
  then have "get_addr (set_addr (of_nat (f * PAGE_SIZE)) (PRESENT OR WRITABLE OR USER)) = of_nat (f * PAGE_SIZE)" by (simp only: m)
  then show ?thesis by (simp add: ptr_def)
qed

lemma present_bit: "is_present e \<longleftrightarrow> bit e 0"
  by (simp add: is_present_def PRESENT_def and_one_eq odd_iff_mod_2_eq_one bit_0)

lemma table_entry_present: "is_present (set_addr a (PRESENT OR WRITABLE OR USER))"
  by (simp add: present_bit PhysAddr_bits bit_or_iff PRESENT_def)

section \<open>The tree of tables\<close>

text \<open>The table that the index path \<open>is\<close> leads to, and the last-level entry behind a path of three indices.\<close>

primrec tab :: "kmem \<Rightarrow> u64 \<Rightarrow> nat list \<Rightarrow> u64 option" where
  "tab s p [] = Some p"
| "tab s p (i # is) = (case next_table s p i of None \<Rightarrow> None | Some q \<Rightarrow> tab s q is)"

definition leaf :: "kmem \<Rightarrow> u64 \<Rightarrow> nat list \<Rightarrow> nat \<Rightarrow> u64" where
  "leaf s root Q j = (case tab s root Q of None \<Rightarrow> 0 | Some t \<Rightarrow> mem s (entry_at t j))"

definition path :: "nat list \<Rightarrow> bool" where
  "path Q \<longleftrightarrow> length Q \<le> 3 \<and> set Q \<subseteq> {..<512}"

text \<open>
  The tables form a tree, their frames are not free, and neither they nor the free frames contain a part of the frame bitmap.
\<close>

definition pt_inv :: "kmem \<Rightarrow> u64 \<Rightarrow> bool" where
  "pt_inv s root \<longleftrightarrow> bm_ok s \<and> TOTAL_FRAMES s \<le> 2 ^ 35
     \<and> (\<forall>Q q. path Q \<and> tab s root Q = Some q \<longrightarrow>
          (\<exists>f. q = ptr f \<and> f < 2 ^ 35 \<and> f \<notin> free_frames s \<and> table_area q \<inter> bitmap_area s = {}))
     \<and> (\<forall>P Q q. path P \<and> path Q \<and> tab s root P = Some q \<and> tab s root Q = Some q \<longrightarrow> P = Q)
     \<and> (\<forall>f\<in>free_frames s. table_area (ptr f) \<inter> bitmap_area s = {})"

lemma tab_append: "tab s p (A @ B) = (case tab s p A of None \<Rightarrow> None | Some q \<Rightarrow> tab s q B)"
  by (induction A arbitrary: p) (auto split: option.splits)

lemma tab_snoc: "tab s p (A @ [i]) = (case tab s p A of None \<Rightarrow> None | Some q \<Rightarrow> next_table s q i)"
  unfolding tab_append by (auto split: option.splits)

lemma pt_invD:
  assumes "pt_inv s root"
  shows "bm_ok s" "TOTAL_FRAMES s \<le> 2 ^ 35"
    and "path Q \<Longrightarrow> tab s root Q = Some q \<Longrightarrow> \<exists>f. q = ptr f \<and> f < 2 ^ 35 \<and> f \<notin> free_frames s \<and> table_area q \<inter> bitmap_area s = {}"
    and "path P \<Longrightarrow> path Q \<Longrightarrow> tab s root P = Some q \<Longrightarrow> tab s root Q = Some q \<Longrightarrow> P = Q"
    and "f \<in> free_frames s \<Longrightarrow> table_area (ptr f) \<inter> bitmap_area s = {}"
  using assms unfolding pt_inv_def by blast+

lemma pt_invI:
  assumes "bm_ok s" "TOTAL_FRAMES s \<le> 2 ^ 35"
    and "\<And>Q q. path Q \<Longrightarrow> tab s root Q = Some q \<Longrightarrow> \<exists>f. q = ptr f \<and> f < 2 ^ 35 \<and> f \<notin> free_frames s \<and> table_area q \<inter> bitmap_area s = {}"
    and "\<And>P Q q. path P \<Longrightarrow> path Q \<Longrightarrow> tab s root P = Some q \<Longrightarrow> tab s root Q = Some q \<Longrightarrow> P = Q"
    and "\<And>f. f \<in> free_frames s \<Longrightarrow> table_area (ptr f) \<inter> bitmap_area s = {}"
  shows "pt_inv s root"
  unfolding pt_inv_def
proof (intro conjI allI ballI impI, goal_cases)
  case (4 P Q q)
  then show ?case using assms(4) by blast
qed (use assms in \<open>auto simp only:\<close>)

lemma free_bound: "pt_inv s root \<Longrightarrow> f \<in> free_frames s \<Longrightarrow> f < 2 ^ 35"
  using pt_invD(2) [of s root] by (force simp: free_frames_def)

lemma path_snoc: "path (Q @ [j]) \<longleftrightarrow> path Q \<and> length Q \<le> 2 \<and> j < 512"
  by (auto simp: path_def)

lemma next_table_cong: "mem s' (entry_at q j) = mem s (entry_at q j) \<Longrightarrow> next_table s' q j = next_table s q j"
  by (simp add: next_table_def)

text \<open>Entries of different tables are different words.\<close>

lemma entry_other:
  assumes "pt_inv s root" "path P" "tab s root P = Some p" "path Q" "tab s root Q = Some q" "i < 512" "j < 512"
  shows "entry_at q j = entry_at p i \<longleftrightarrow> Q = P \<and> j = i"
proof -
  obtain f g where "p = ptr f" "f < 2 ^ 35" "q = ptr g" "g < 2 ^ 35"
    using pt_invD(3) [OF assms(1,2,3)] pt_invD(3) [OF assms(1,4,5)] by blast
  then have "entry_at q j = entry_at p i \<longleftrightarrow> q = p \<and> j = i" using assms(6,7) by (simp add: entry_at_eq ptr_eq)
  then show ?thesis using pt_invD(4) [OF assms(1,4,2)] assms(3,5) by auto
qed

lemma entry_fresh:
  assumes "pt_inv s root" "path Q" "tab s root Q = Some q" "j < 512"
  shows "entry_at q j \<notin> bitmap_area s" "f \<in> free_frames s \<Longrightarrow> entry_at q j \<notin> table_area (ptr f)"
proof -
  obtain g where g: "q = ptr g" "g < 2 ^ 35" "g \<notin> free_frames s" "table_area q \<inter> bitmap_area s = {}"
    using pt_invD(3) [OF assms(1-3)] by blast
  have "entry_at q j \<in> table_area q" using assms(4) by (simp add: table_area_def)
  then show "entry_at q j \<notin> bitmap_area s" using g(4) by blast
  assume f: "f \<in> free_frames s"
  then have "f \<noteq> g" using g(3) by blast
  then show "entry_at q j \<notin> table_area (ptr f)"
    using free_bound [OF assms(1) f] g(1,2) assms(4) by (auto simp: table_area_def entry_at_eq)
qed

lemma free_frames_cong:
  assumes "bm_ok s" "FRAME_BITMAP s' = FRAME_BITMAP s" "TOTAL_FRAMES s' = TOTAL_FRAMES s" "\<And>a. a \<in> bitmap_area s \<Longrightarrow> mem s' a = mem s a"
  shows "free_frames s' = free_frames s"
proof -
  have "bitmap_word s' = bitmap_word s" by (simp add: fun_eq_iff bitmap_word_def assms(2))
  moreover have "mem s' (bitmap_word s (f div 64)) = mem s (bitmap_word s (f div 64))" if "f < TOTAL_FRAMES s" for f
    using word_index_bound [OF assms(1) that] by (intro assms(4)) (simp add: bitmap_area_def)
  ultimately show ?thesis using assms(3) by (auto simp: free_frames_def)
qed

section \<open>Writing a last-level entry\<close>

lemma set_leaf:
  fixes x :: u64
  assumes "pt_inv s root" "length P = 3" "path P" "tab s root P = Some p" "i < 512"
  defines "s' \<equiv> s\<lparr>mem := (mem s)(entry_at p i := x)\<rparr>"
  shows "pt_inv s' root" "free_frames s' = free_frames s"
    and "length Q = 3 \<Longrightarrow> path Q \<Longrightarrow> j < 512 \<Longrightarrow> leaf s' root Q j = (if Q = P \<and> j = i then x else leaf s root Q j)"
proof -
  have same: "tab s' root Q = tab s root Q" if "path Q" for Q
    using that
  proof (induction Q rule: rev_induct)
    case (snoc j Q)
    then have q: "path Q" "length Q \<le> 2" "j < 512" by (simp_all add: path_snoc)
    then have "Q \<noteq> P" using assms(2) by auto
    then have "next_table s' q j = next_table s q j" if "tab s root Q = Some q" for q
      using entry_other [OF assms(1,3,4) q(1) that assms(5) q(3)] by (intro next_table_cong) (simp add: s'_def)
    then show ?case using snoc.IH [OF q(1)] by (simp add: tab_snoc split: option.splits)
  qed simp
  have bm: "bm_ok s'" "bitmap_area s' = bitmap_area s" "TOTAL_FRAMES s' = TOTAL_FRAMES s"
    using pt_invD(1) [OF assms(1)] by (simp_all add: s'_def bm_ok_def bitmap_area_def bitmap_word_def)
  show ff: "free_frames s' = free_frames s"
    using entry_fresh(1) [OF assms(1,3,4,5)] by (intro free_frames_cong [OF pt_invD(1) [OF assms(1)]]) (auto simp: s'_def)
  show "pt_inv s' root"
    using assms(1) unfolding pt_inv_def ff bm(2,3) by (simp add: bm(1) same cong: conj_cong)
  assume Q: "length Q = 3" "path Q" "j < 512"
  show "leaf s' root Q j = (if Q = P \<and> j = i then x else leaf s root Q j)"
  proof (cases "tab s root Q")
    case None
    then show ?thesis using assms(4) same [OF Q(2)] by (auto simp: leaf_def)
  next
    case (Some q)
    then show ?thesis
      using entry_other [OF assms(1,3,4) Q(2) Some assms(5) Q(3)] same [OF Q(2)] assms(4) by (auto simp: leaf_def s'_def)
  qed
qed

section \<open>Creating a table\<close>

text \<open>The state after a missing table has been created: frame \<open>f\<close> is taken, cleared, and entered at word \<open>e\<close>.\<close>

definition with_table :: "nat \<Rightarrow> u64 \<Rightarrow> kmem \<Rightarrow> kmem" where
  "with_table f e s = (let s2 = zero_table (ptr f) (mark_used f s)
     in s2\<lparr>mem := (mem s2)(e := set_addr (of_nat (f * PAGE_SIZE)) (PRESENT OR WRITABLE OR USER))\<rparr>)"

lemma get_or_create_eq:
  assumes "pt_inv s root" "\<not> is_present (mem s e)"
  shows "get_or_create_table e s = (if free_frames s = {} then (Err (), s)
     else (Ok (ptr (Min (free_frames s))), with_table (Min (free_frames s)) e s))"
proof (cases "free_frames s = {}")
  case True
  then show ?thesis using assms by (simp add: get_or_create_table_def alloc_frame_eq pt_invD(1))
next
  case False
  then have "Min (free_frames s) \<in> free_frames s" by (intro Min_in) (auto simp: free_frames_def)
  then have "Min (free_frames s) < 2 ^ 40" using free_bound [OF assms(1)] by force
  from PhysAddr_frame [OF this] show ?thesis
    using False assms by (simp add: get_or_create_table_def alloc_frame_eq pt_invD(1) with_table_def Let_def ptr_def)
qed

lemma with_table_mem:
  assumes "pt_inv s root" "f \<in> free_frames s" "e \<notin> table_area (ptr f)" "e \<notin> bitmap_area s"
  shows "a \<notin> bitmap_area s \<Longrightarrow> mem (with_table f e s) a =
      (if a = e then set_addr (of_nat (f * PAGE_SIZE)) (PRESENT OR WRITABLE OR USER) else if a \<in> table_area (ptr f) then 0 else mem s a)"
    and "bm_ok (with_table f e s)" "bitmap_area (with_table f e s) = bitmap_area s" "TOTAL_FRAMES (with_table f e s) = TOTAL_FRAMES s"
    and "free_frames (with_table f e s) = free_frames s - {f}"
proof -
  note bm = pt_invD(1) [OF assms(1)]
  let ?s1 = "mark_used f s" and ?s' = "with_table f e s"
  have m: "mem ?s' = (\<lambda>a. if a = e then set_addr (of_nat (f * PAGE_SIZE)) (PRESENT OR WRITABLE OR USER) else if a \<in> table_area (ptr f) then 0 else mem ?s1 a)"
    by (simp add: with_table_def zero_table_mem Let_def fun_eq_iff)
  then show "mem ?s' a = (if a = e then set_addr (of_nat (f * PAGE_SIZE)) (PRESENT OR WRITABLE OR USER) else if a \<in> table_area (ptr f) then 0 else mem s a)"
    if "a \<notin> bitmap_area s" using mark_used_mem [OF bm that, of f] by simp
  have fields: "FRAME_BITMAP ?s' = FRAME_BITMAP ?s1" "TOTAL_FRAMES ?s' = TOTAL_FRAMES ?s1" "BITMAP_SIZE ?s' = BITMAP_SIZE ?s1"
    by (simp_all add: with_table_def zero_table_mem Let_def)
  then show "bm_ok ?s'" "bitmap_area ?s' = bitmap_area s" "TOTAL_FRAMES ?s' = TOTAL_FRAMES s"
    using bm by (simp_all add: bm_ok_def bitmap_area_def bitmap_word_def)
  have "bitmap_area ?s1 = bitmap_area s" by (simp add: bitmap_area_def)
  then have "free_frames ?s' = free_frames ?s1"
    using fields bm assms(3,4) pt_invD(5) [OF assms(1,2)] by (intro free_frames_cong) (auto simp: m)
  then show "free_frames ?s' = free_frames s - {f}" by (simp add: mark_frames(2) [OF bm])
qed

lemma new_entry:
  assumes "pt_inv s root" "f \<in> free_frames s" "a \<in> table_area (ptr f)" "e \<notin> table_area (ptr f)"
  shows "a \<notin> bitmap_area s" "a \<noteq> e"
proof -
  show "a \<noteq> e" using assms(3,4) by metis
  show "a \<notin> bitmap_area s" using pt_invD(5) [OF assms(1,2)] assms(3) by (metis disjoint_iff)
qed

lemma with_table_tab:
  assumes "pt_inv s root" "path (P @ [i])" "tab s root P = Some p" "\<not> is_present (mem s (entry_at p i))" "f \<in> free_frames s"
    and "path Q"
  shows "tab (with_table f (entry_at p i) s) root Q
    = (if Q = P @ [i] then Some (ptr f) else if \<exists>R. Q = P @ [i] @ R then None else tab s root Q)"
  using assms(6)
proof (induction Q rule: rev_induct)
  case Nil
  then show ?case by simp
next
  case (snoc j Q)
  let ?e = "entry_at p i" and ?s' = "with_table f (entry_at p i) s"
  have P: "path P" "i < 512" "length P \<le> 2" using assms(2) by (simp_all add: path_snoc)
  have Q: "path Q" "j < 512" using snoc.prems by (simp_all add: path_snoc)
  note e = entry_fresh(2) [OF assms(1) P(1) assms(3) P(2) assms(5)] entry_fresh(1) [OF assms(1) P(1) assms(3) P(2)]
  note m = with_table_mem(1) [OF assms(1,5) e]
  note IH = snoc.IH [OF Q(1)]
  consider (new) "Q = P @ [i]" | (below) R where "Q = P @ [i] @ R" "R \<noteq> []" | (other) "\<nexists>R. Q = P @ [i] @ R" by (metis append_Nil2)
  then show ?case
  proof cases
    case new
    have a: "entry_at (ptr f) j \<in> table_area (ptr f)" using Q(2) by (simp add: table_area_def)
    then have "entry_at (ptr f) j \<notin> bitmap_area s" "entry_at (ptr f) j \<noteq> ?e" by (rule new_entry [OF assms(1,5) _ e(1)])+
    then have "mem ?s' (entry_at (ptr f) j) = 0" using m [of "entry_at (ptr f) j"] a by simp
    then have "next_table ?s' (ptr f) j = None" by (simp add: next_table_def is_present_def)
    then have "tab ?s' root (Q @ [j]) = None" unfolding tab_snoc using IH new by simp
    then show ?thesis using new by simp
  next
    case below
    then have "tab ?s' root Q = None" using IH by simp
    then have "tab ?s' root (Q @ [j]) = None" unfolding tab_snoc by simp
    then show ?thesis using below by simp
  next
    case other
    then have t: "tab ?s' root Q = tab s root Q" using IH by (auto split: if_splits)
    have o: "(\<exists>R. Q @ [j] = P @ [i] @ R) \<longleftrightarrow> Q = P \<and> j = i"
    proof
      assume "\<exists>R. Q @ [j] = P @ [i] @ R"
      then obtain R where R: "Q @ [j] = P @ [i] @ R" by blast
      then show "Q = P \<and> j = i" using other by (cases R rule: rev_cases) auto
    qed auto
    show ?thesis
    proof (cases "tab s root Q")
      case None
      then show ?thesis using t o assms(3) by (auto simp: tab_snoc)
    next
      case (Some q)
      have en: "entry_at q j = ?e \<longleftrightarrow> Q = P \<and> j = i" by (rule entry_other [OF assms(1) P(1) assms(3) Q(1) Some P(2) Q(2)])
      have mq: "mem ?s' (entry_at q j) = (if Q = P \<and> j = i then set_addr (of_nat (f * PAGE_SIZE)) (PRESENT OR WRITABLE OR USER) else mem s (entry_at q j))"
        using m [OF entry_fresh(1) [OF assms(1) Q(1) Some Q(2)]] entry_fresh(2) [OF assms(1) Q(1) Some Q(2) assms(5)] en by simp
      then have "next_table ?s' q j = (if Q = P \<and> j = i then Some (ptr f) else next_table s q j)"
        by (simp add: next_table_def table_entry_present table_entry [OF free_bound [OF assms(1,5)]] del: of_nat_mult)
      then show ?thesis using t o Some by (auto simp: tab_snoc)
    qed
  qed
qed

lemma with_table_inv:
  assumes "pt_inv s root" "path (P @ [i])" "tab s root P = Some p" "\<not> is_present (mem s (entry_at p i))" "f \<in> free_frames s"
  defines "s' \<equiv> with_table f (entry_at p i) s"
  shows "pt_inv s' root" "length Q = 3 \<Longrightarrow> path Q \<Longrightarrow> j < 512 \<Longrightarrow> leaf s' root Q j = leaf s root Q j"
proof -
  have P: "path P" "i < 512" "length P \<le> 2" using assms(2) by (simp_all add: path_snoc)
  note e = entry_fresh(2) [OF assms(1) P(1) assms(3) P(2) assms(5)] entry_fresh(1) [OF assms(1) P(1) assms(3) P(2)]
  note m = with_table_mem [OF assms(1,5) e, folded s'_def]
  note t = with_table_tab [OF assms(1-5), folded s'_def]
  note fb = free_bound [OF assms(1,5)]
  have none: "tab s root (P @ i # R) = None" for R
    using assms(3,4) by (simp add: tab_append next_table_def)
  have old: "\<exists>g. q = ptr g \<and> g < 2 ^ 35 \<and> g \<notin> free_frames s \<and> table_area q \<inter> bitmap_area s = {} \<and> q \<noteq> ptr f"
    if "path Q" "tab s root Q = Some q" for Q q
    using pt_invD(3) [OF assms(1) that] assms(5) fb ptr_eq by blast
  have a: "\<exists>g. q = ptr g \<and> g < 2 ^ 35 \<and> g \<notin> free_frames s' \<and> table_area q \<inter> bitmap_area s' = {}"
    if "path Q" "tab s' root Q = Some q" for Q q
  proof (cases "Q = P @ [i]")
    case True
    then show ?thesis using that(2) t [OF that(1)] fb pt_invD(5) [OF assms(1,5)] unfolding m(3,5) by auto
  next
    case False
    then have "tab s root Q = Some q" using that(2) t [OF that(1)] by (simp split: if_splits)
    from old [OF that(1) this] show ?thesis unfolding m(3,5) by blast
  qed
  have b: "A = B" if "path A" "path B" "tab s' root A = Some q" "tab s' root B = Some q" for A B q
  proof -
    have c: "X = P @ [i] \<and> q = ptr f \<or> tab s root X = Some q \<and> q \<noteq> ptr f" if "path X" "tab s' root X = Some q" for X
      using that(2) t [OF that(1)] old [OF that(1)] by (simp split: if_splits) blast
    from c [OF that(1,3)] c [OF that(2,4)] pt_invD(4) [OF assms(1) that(1,2)] show ?thesis by blast
  qed
  show "pt_inv s' root"
  proof (rule pt_invI, goal_cases)
    case 1
    show ?case by (rule m(2))
  next
    case 2
    show ?case using pt_invD(2) [OF assms(1)] by (simp add: m(4))
  next
    case (3 Q q)
    then show ?case by (rule a)
  next
    case (4 A B q)
    then show ?case by (rule b)
  next
    case (5 g)
    then show ?case using pt_invD(5) [OF assms(1)] unfolding m(3,5) by blast
  qed
  assume Q: "length Q = 3" "path Q" "j < 512"
  show "leaf s' root Q j = leaf s root Q j"
  proof (cases "tab s root Q")
    case None
    then have "tab s' root Q = None \<or> tab s' root Q = Some (ptr f)" using t [OF Q(2)] by auto
    moreover have "mem s' (entry_at (ptr f) j) = 0"
    proof -
      have i: "entry_at (ptr f) j \<in> table_area (ptr f)" using Q(3) by (simp add: table_area_def)
      then have "entry_at (ptr f) j \<notin> bitmap_area s" "entry_at (ptr f) j \<noteq> entry_at p i" by (rule new_entry [OF assms(1,5) _ e(1)])+
      then show ?thesis using m(1) i by simp
    qed
    ultimately show ?thesis using None by (auto simp: leaf_def)
  next
    case (Some q)
    then have "tab s' root Q = Some q" using t [OF Q(2)] none by auto
    moreover have "Q \<noteq> P" using P(3) Q(1) by auto
    then have "mem s' (entry_at q j) = mem s (entry_at q j)"
      using m(1) [OF entry_fresh(1) [OF assms(1) Q(2) Some Q(3)]] entry_fresh(2) [OF assms(1) Q(2) Some Q(3) assms(5)]
        entry_other [OF assms(1) P(1) assms(3) Q(2) Some P(2) Q(3)] by simp
    ultimately show ?thesis using Some by (simp add: leaf_def)
  qed
qed

text \<open>One step of the walk of \<^verbatim>\<open>map_page\<close>.\<close>

lemma get_or_create:
  assumes "pt_inv s root" "path (P @ [i])" "tab s root P = Some p"
  shows "wp (get_or_create_table (entry_at p i)) s (\<lambda>r s'.
     pt_inv s' root \<and> (\<forall>Q j. length Q = 3 \<and> path Q \<and> j < 512 \<longrightarrow> leaf s' root Q j = leaf s root Q j)
     \<and> (case r of Ok q \<Rightarrow> tab s' root (P @ [i]) = Some q \<and> card (free_frames s) \<le> Suc (card (free_frames s'))
        | Err _ \<Rightarrow> free_frames s = {} \<and> s' = s | Panic \<Rightarrow> False))"
proof (cases "is_present (mem s (entry_at p i))")
  case True
  then have "tab s root (P @ [i]) = Some (get_addr (mem s (entry_at p i)) OR HHDM_OFFSET)"
    using assms(3) by (simp add: tab_snoc next_table_def)
  then show ?thesis using True assms(1) by (simp add: wp_def get_or_create_table_def)
next
  case False
  have fin: "finite (free_frames s)" by (simp add: free_frames_def)
  show ?thesis
  proof (cases "free_frames s = {}")
    case True
    then show ?thesis using assms(1) by (simp add: wp_def get_or_create_eq [OF assms(1) False])
  next
    case nf: False
    then have f: "Min (free_frames s) \<in> free_frames s" using fin by (intro Min_in)
    have P: "path P" "i < 512" using assms(2) by (simp_all add: path_snoc)
    note e = entry_fresh(2) [OF assms(1) P(1) assms(3) P(2) f] entry_fresh(1) [OF assms(1) P(1) assms(3) P(2)]
    have "card (free_frames s) \<le> Suc (card (free_frames (with_table (Min (free_frames s)) (entry_at p i) s)))"
      using with_table_mem(5) [OF assms(1) f e] f fin by (simp add: card_Diff_singleton)
    then show ?thesis
      using nf with_table_inv [OF assms False f] with_table_tab [OF assms False f assms(2)]
      by (simp add: wp_def get_or_create_eq [OF assms(1) False])
  qed
qed

section \<open>Mapping and translation\<close>

definition upper :: "u64 \<Rightarrow> nat list" where
  "upper v = [p4_index v, p3_index v, p2_index v]"

definition page_of :: "u64 \<Rightarrow> u64" where
  "page_of v = take_bit 36 (drop_bit 12 v)"

lemma nine_bits: "unat (w AND 0x1FF) = unat (take_bit 9 w)" for w :: u64
proof -
  have "(0x1FF :: u64) = mask 9" by (simp add: mask_eq_exp_minus_1)
  then show ?thesis by (simp add: take_bit_eq_mask)
qed

lemma index_bound: "p1_index v < 512" "path (upper v)" "length (upper v) = 3"
proof -
  have "unat (take_bit 9 w) < 512" for w :: u64 using take_bit_nat_less_exp [of 9 "unat w"] by (simp add: unsigned_take_bit_eq)
  then show "p1_index v < 512" "path (upper v)" "length (upper v) = 3"
    by (simp_all add: path_def upper_def p1_index_def p2_index_def p3_index_def p4_index_def nine_bits)
qed

lemma field_eq: "take_bit m (drop_bit k v) = take_bit m (drop_bit k w) \<longleftrightarrow> (\<forall>n. k \<le> n \<and> n < k + m \<longrightarrow> bit v n = bit w n)"
  for v w :: u64
proof (rule iffI, intro allI impI)
  fix n assume eq: "take_bit m (drop_bit k v) = take_bit m (drop_bit k w)" and n: "k \<le> n \<and> n < k + m"
  have "bit (take_bit m (drop_bit k v)) (n - k) = bit (take_bit m (drop_bit k w)) (n - k)" by (simp only: eq)
  then show "bit v n = bit w n" using n by (auto simp: bit_take_bit_iff bit_drop_bit_eq)
next
  assume a: "\<forall>n. k \<le> n \<and> n < k + m \<longrightarrow> bit v n = bit w n"
  show "take_bit m (drop_bit k v) = take_bit m (drop_bit k w)"
    by (rule bit_word_eqI) (use a in \<open>auto simp: bit_take_bit_iff bit_drop_bit_eq\<close>)
qed

lemma page_of_eq: "page_of v = page_of w \<longleftrightarrow> upper v = upper w \<and> p1_index v = p1_index w"
proof -
  have i: "unat (take_bit 9 x) = unat (take_bit 9 y) \<longleftrightarrow> take_bit 9 x = take_bit 9 y" for x y :: u64 by (rule word_unat_eq_iff [symmetric])
  have "(\<forall>n. 12 \<le> n \<and> n < 12 + 36 \<longrightarrow> P n) \<longleftrightarrow> (\<forall>n. 39 \<le> n \<and> n < 39 + 9 \<longrightarrow> P n) \<and> (\<forall>n. 30 \<le> n \<and> n < 30 + 9 \<longrightarrow> P n)
      \<and> (\<forall>n. 21 \<le> n \<and> n < 21 + 9 \<longrightarrow> P n) \<and> (\<forall>n. 12 \<le> n \<and> n < 12 + 9 \<longrightarrow> P n)" for P :: "nat \<Rightarrow> bool"
  proof (intro iffI conjI allI impI)
    fix n :: nat
    assume a: "(\<forall>n. 39 \<le> n \<and> n < 39 + 9 \<longrightarrow> P n) \<and> (\<forall>n. 30 \<le> n \<and> n < 30 + 9 \<longrightarrow> P n)
      \<and> (\<forall>n. 21 \<le> n \<and> n < 21 + 9 \<longrightarrow> P n) \<and> (\<forall>n. 12 \<le> n \<and> n < 12 + 9 \<longrightarrow> P n)" and "12 \<le> n \<and> n < 12 + 36"
    then consider "39 \<le> n \<and> n < 39 + 9" | "30 \<le> n \<and> n < 30 + 9" | "21 \<le> n \<and> n < 21 + 9" | "12 \<le> n \<and> n < 12 + 9" by linarith
    then show "P n" using a by cases simp_all
  qed simp_all
  then show ?thesis
    by (simp only: page_of_def field_eq upper_def p1_index_def p2_index_def p3_index_def p4_index_def nine_bits list.inject i simp_thms conj_assoc)
qed

lemma translate_leaf:
  "translate_page pt v s = (let e = leaf s (pt OR HHDM_OFFSET) (upper v) (p1_index v)
     in if is_present e then Ok (get_addr e) else Err PageNotMapped)"
  by (simp add: translate_page_def walk_def leaf_def upper_def Let_def is_present_def split: option.splits)

lemma walk_tab: "walk s pt v = map_option (\<lambda>t. entry_at t (p1_index v)) (tab s (pt OR HHDM_OFFSET) (upper v))"
  by (simp add: walk_def upper_def split: option.splits)

lemma wp_map_page:
  assumes "pt_inv s (pt OR HHDM_OFFSET)"
  shows "wp (map_page pt v p fl) s (\<lambda>r s'. pt_inv s' (pt OR HHDM_OFFSET) \<and> (case r of
       Ok _ \<Rightarrow> (\<forall>Q j. length Q = 3 \<and> path Q \<and> j < 512 \<longrightarrow> leaf s' (pt OR HHDM_OFFSET) Q j
           = (if Q = upper v \<and> j = p1_index v then set_addr p (fl OR PRESENT) else leaf s (pt OR HHDM_OFFSET) Q j))
     | Err _ \<Rightarrow> card (free_frames s) < 3 \<and> (\<forall>Q j. length Q = 3 \<and> path Q \<and> j < 512 \<longrightarrow> leaf s' (pt OR HHDM_OFFSET) Q j = leaf s (pt OR HHDM_OFFSET) Q j)
     | Panic \<Rightarrow> False))"
proof -
  let ?r = "pt OR HHDM_OFFSET"
  let ?same = "\<lambda>s'. \<forall>Q j. length Q = 3 \<and> path Q \<and> j < 512 \<longrightarrow> leaf s' ?r Q j = leaf s ?r Q j"
  have path: "path ([] @ [p4_index v])" "path ([p4_index v] @ [p3_index v])" "path ([p4_index v, p3_index v] @ [p2_index v])"
    using index_bound(2) [of v] by (simp_all add: path_def upper_def)
  show ?thesis
    unfolding map_page_def Let_def wp_bnd
  proof (rule wp_mono [OF get_or_create [OF assms path(1)]], simp, goal_cases)
    case (1 r s1)
    then show ?case
    proof (cases r)
      case (Ok p3)
      with 1 have s1: "pt_inv s1 ?r" "?same s1" "tab s1 ?r [p4_index v] = Some p3" "card (free_frames s) \<le> Suc (card (free_frames s1))" by auto
      show ?thesis
        unfolding Ok res.case
      proof (rule wp_mono [OF get_or_create [OF s1(1) path(2) s1(3)]], goal_cases)
        case (1 r s2)
        then show ?case
        proof (cases r)
          case (Ok p2)
          with 1 s1 have s2: "pt_inv s2 ?r" "?same s2" "tab s2 ?r [p4_index v, p3_index v] = Some p2"
            "card (free_frames s) \<le> Suc (Suc (card (free_frames s2)))" by auto
          show ?thesis
            unfolding Ok res.case
          proof (rule wp_mono [OF get_or_create [OF s2(1) path(3) s2(3)]], goal_cases)
            case (1 r s3)
            then show ?case
            proof (cases r)
              case (Ok p1)
              with 1 s2 have s3: "pt_inv s3 ?r" "?same s3" "tab s3 ?r (upper v) = Some p1" by (auto simp: upper_def)
              from set_leaf [OF s3(1) index_bound(3,2) s3(3) index_bound(1)] s3(2) show ?thesis
                unfolding Ok by (simp add: wp_def)
            qed (use 1 s2 in auto)
          qed
        qed (use 1 s1 in auto)
      qed
    qed (use assms in auto)
  qed
qed

section \<open>Frames in the order of the regions\<close>

definition frames_between :: "u64 \<Rightarrow> u64 \<Rightarrow> u64 list" where
  "frames_between start end = map (\<lambda>i. start + 4096 * of_nat i) [0..<(unat end - unat start) div 4096]"

definition region_ok :: "u64 \<times> u64 \<Rightarrow> bool" where
  "region_ok r \<longleftrightarrow> 4096 dvd unat (fst r) \<and> 4096 dvd unat (snd r) \<and> fst r < snd r"

definition boot_ok :: "BootInfoFrameAllocator \<Rightarrow> bool" where
  "boot_ok a \<longleftrightarrow> (\<forall>r\<in>set (memory_regions a). region_ok r) \<and> 4096 dvd unat (next_frame a)"

definition remaining :: "BootInfoFrameAllocator \<Rightarrow> u64 list" where
  "remaining a = (if current_region a < length (memory_regions a)
     then frames_between (next_frame a) (snd (memory_regions a ! current_region a))
       @ concat (map (\<lambda>(s, e). frames_between s e) (drop (Suc (current_region a)) (memory_regions a)))
     else [])"

lemma frames_between_Cons:
  assumes "4096 dvd unat s" "4096 dvd unat e" "s < e"
  shows "frames_between s e = s # frames_between (s + 4096) e" "4096 dvd unat (s + 4096)"
proof -
  have le: "unat s + 4096 \<le> unat e"
  proof -
    obtain k l where kl: "unat s = 4096 * k" "unat e = 4096 * l" using assms(1,2) by (auto elim!: dvdE)
    moreover have "unat s < unat e" using assms(3) by (simp add: word_less_nat_alt)
    ultimately have "Suc k \<le> l" by simp
    then have "4096 * Suc k \<le> 4096 * l" by (intro mult_le_mono2)
    then show ?thesis using kl by simp
  qed
  moreover have "unat e < 2 ^ 64" using unsigned_less [of e] by simp
  ultimately have u: "unat (s + 4096) = unat s + 4096" by (simp add: unat_word_ariths)
  then show "4096 dvd unat (s + 4096)" using assms(1) by simp
  have "unat e - unat s = Suc 0 * 4096 + (unat e - unat (s + 4096))" using le u by simp
  then have "(unat e - unat s) div 4096 = Suc ((unat e - unat (s + 4096)) div 4096)" by simp
  then show "frames_between s e = s # frames_between (s + 4096) e"
    by (simp add: frames_between_def upt_conv_Cons map_Suc_upt [symmetric] algebra_simps del: upt_Suc)
qed

lemma frames_between_Nil: "\<not> s < e \<Longrightarrow> frames_between s e = []"
  by (simp add: frames_between_def word_less_nat_alt)

text \<open>Every call returns the next frame of the regions, in their order, and at the end none.\<close>

lemma allocate_next:
  assumes "boot_ok a"
  shows "\<exists>a'. BootInfoFrameAllocator_allocate_frame a = ((case remaining a of [] \<Rightarrow> None | f # _ \<Rightarrow> Some f), a')
     \<and> remaining a' = tl (remaining a) \<and> boot_ok a'"
  using assms
proof (induction a rule: BootInfoFrameAllocator_allocate_frame.induct)
  case (1 a)
  show ?case
  proof (cases "current_region a < length (memory_regions a)")
    case c: True
    let ?e = "snd (memory_regions a ! current_region a)" and ?c = "current_region a + 1"
    have ok: "4096 dvd unat (next_frame a)" "4096 dvd unat ?e" using 1(2) c by (auto simp: boot_ok_def region_ok_def)
    show ?thesis
    proof (cases "next_frame a < ?e")
      case True
      note f = frames_between_Cons [OF ok True]
      have "boot_ok (a\<lparr>next_frame := next_frame a + 4096\<rparr>)" using 1(2) f(2) by (simp add: boot_ok_def)
      then show ?thesis using c True f(1) by (subst BootInfoFrameAllocator_allocate_frame.simps) (simp add: remaining_def)
    next
      case False
      let ?a = "a\<lparr>current_region := ?c, next_frame := (if ?c < length (memory_regions a) then fst (memory_regions a ! ?c) else next_frame a)\<rparr>"
      have r: "remaining ?a = remaining a"
      proof (cases "?c < length (memory_regions a)")
        case True
        then have "drop ?c (memory_regions a) = memory_regions a ! ?c # drop (Suc ?c) (memory_regions a)" by (simp add: Cons_nth_drop_Suc)
        then show ?thesis using c True False by (simp add: remaining_def frames_between_Nil case_prod_beta)
      next
        case F: False
        then show ?thesis using c False by (simp add: remaining_def frames_between_Nil)
      qed
      have "boot_ok ?a" using 1(2) by (auto simp: boot_ok_def region_ok_def)
      moreover have "BootInfoFrameAllocator_allocate_frame a = BootInfoFrameAllocator_allocate_frame ?a"
        using c False by (subst BootInfoFrameAllocator_allocate_frame.simps) (simp only: Let_def if_True if_False)
      ultimately show ?thesis using 1(1) [OF c False refl] r by (simp only:)
    qed
  next
    case False
    then show ?thesis using 1(2) by (subst BootInfoFrameAllocator_allocate_frame.simps) (simp add: remaining_def)
  qed
qed

lemma translate_cong:
  assumes "\<And>Q j. length Q = 3 \<Longrightarrow> path Q \<Longrightarrow> j < 512 \<Longrightarrow> leaf s' (pt OR HHDM_OFFSET) Q j
     = (if Q = upper v \<and> j = p1_index v then e else leaf s (pt OR HHDM_OFFSET) Q j)"
  shows "translate_page pt x s' = (if page_of x = page_of v then (if is_present e then Ok (get_addr e) else Err PageNotMapped) else translate_page pt x s)"
proof -
  have "leaf s' (pt OR HHDM_OFFSET) (upper x) (p1_index x) = (if upper x = upper v \<and> p1_index x = p1_index v then e else leaf s (pt OR HHDM_OFFSET) (upper x) (p1_index x))"
    by (rule assms [OF index_bound(3,2,1)])
  then show ?thesis by (simp add: translate_leaf Let_def page_of_eq del: if_split cong: if_cong)
qed

lemma entry_fields:
  assumes "PhysAddr_new p = p" "fl AND 0x000FFFFFFFFFF000 = 0"
  shows "is_present (set_addr p (fl OR PRESENT))" "get_addr (set_addr p (fl OR PRESENT)) = p"
proof -
  show "is_present (set_addr p (fl OR PRESENT))" by (simp add: present_bit PhysAddr_bits bit_or_iff PRESENT_def)
  show "get_addr (set_addr p (fl OR PRESENT)) = p"
  proof (rule bit_word_eqI)
    fix n
    have "\<not> bit (fl AND 0x000FFFFFFFFFF000) n" by (simp only: assms(2) bit_0_eq bot_apply) simp
    then have "\<not> (bit fl n \<and> 12 \<le> n \<and> n < 52)" unfolding bit_and_iff addr_mask_bits .
    moreover have "bit p n \<longrightarrow> 12 \<le> n \<and> n < 52" using PhysAddr_bits(1) [of p n] assms(1) by auto
    moreover have "bit PRESENT n \<longleftrightarrow> n = 0" by (auto simp: PRESENT_def bit_1_iff)
    ultimately show "bit (get_addr (set_addr p (fl OR PRESENT))) n = bit p n" unfolding PhysAddr_bits bit_or_iff by auto
  qed
qed

lemma unmap_translate:
  assumes "pt_inv s (pt OR HHDM_OFFSET)"
  shows "pt_inv (unmap_page pt v s) (pt OR HHDM_OFFSET)"
    and "translate_page pt x (unmap_page pt v s) = (if page_of x = page_of v then Err PageNotMapped else translate_page pt x s)"
proof -
  show "pt_inv (unmap_page pt v s) (pt OR HHDM_OFFSET)"
    using set_leaf(1) [OF assms index_bound(3,2) _ index_bound(1)] assms by (auto simp: unmap_page_def walk_tab split: option.splits)
  show "translate_page pt x (unmap_page pt v s) = (if page_of x = page_of v then Err PageNotMapped else translate_page pt x s)"
  proof (cases "tab s (pt OR HHDM_OFFSET) (upper v)")
    case None
    then have "page_of x = page_of v \<Longrightarrow> translate_page pt x s = Err PageNotMapped"
      by (simp add: translate_leaf leaf_def page_of_eq is_present_def)
    then show ?thesis using None by (simp add: unmap_page_def walk_tab)
  next
    case (Some t)
    show ?thesis
      using translate_cong [OF set_leaf(3) [OF assms index_bound(3,2) Some index_bound(1)], where x = x] Some
      by (simp add: unmap_page_def walk_tab is_present_def)
  qed
qed


section \<open>Properties\<close>

text \<open>A memory for the examples: the bitmap in frame 16, a cleared root table in frame 1, and frames 4 to 7 free.\<close>

definition demo_mem :: kmem where
  "demo_mem = \<lparr>mem = (\<lambda>_. 0)(ptr 16 := 0xF0), FRAME_BITMAP = ptr 16, TOTAL_FRAMES = 8, BITMAP_SIZE = 1,
     KERNEL_PAGE_TABLE = 0x1000, MMIO_LOWER = 0, MMIO_UPPER = 0, MMIO_CURRENT = 0\<rparr>"

lemma demo_mem_ok: "bm_ok demo_mem" "free_frames demo_mem = {4, 5, 6, 7}" "bitmap_area demo_mem = {ptr 16}"
proof -
  show "bm_ok demo_mem" using unat_ptr [of 16] by (simp add: bm_ok_def demo_mem_def)
  have "bit (0xF0 :: u64) f \<longleftrightarrow> f \<in> {4, 5, 6, 7}" if "f < 8" for f
  proof -
    have "f \<in> {0, 1, 2, 3, 4, 5, 6, 7}" using that by auto
    then show ?thesis by (auto simp: bit_iff_odd_drop_bit)
  qed
  then show "free_frames demo_mem = {4, 5, 6, 7}" by (auto simp: free_frames_def demo_mem_def bitmap_word_def)
  show "bitmap_area demo_mem = {ptr 16}" by (auto simp: bitmap_area_def demo_mem_def bitmap_word_def)
qed

lemma demo_mem_entry: "f < 2 ^ 35 \<Longrightarrow> f \<noteq> 16 \<Longrightarrow> i < 512 \<Longrightarrow> ptr 16 \<noteq> entry_at (ptr f) i"
  using entry_at_eq [of 16 f 0 i] by (simp add: entry_at_def)

lemma demo_mem_tab: "path Q \<Longrightarrow> tab demo_mem (ptr 1) Q = (if Q = [] then Some (ptr 1) else None)"
proof (cases Q)
  case (Cons i R)
  assume "path Q"
  then have "ptr 16 \<noteq> entry_at (ptr 1) i" using demo_mem_entry [of 1 i] Cons by (simp add: path_def)
  then have "next_table demo_mem (ptr 1) i = None" by (simp add: next_table_def demo_mem_def is_present_def)
  then show ?thesis by (simp add: Cons)
qed simp

lemma demo_mem_inv: "pt_inv demo_mem (ptr 1)"
proof -
  have area: "table_area (ptr f) \<inter> {ptr 16} = {}" if "f < 2 ^ 35" "f \<noteq> 16" for f
  proof -
    have "ptr 16 \<notin> table_area (ptr f)"
    proof
      assume "ptr 16 \<in> table_area (ptr f)"
      then obtain i where "i < 512" "ptr 16 = entry_at (ptr f) i" by (auto simp: table_area_def)
      with demo_mem_entry [OF that] show False by metis
    qed
    then show ?thesis by simp
  qed
  have t: "Q = [] \<and> q = ptr 1" if "path Q" "tab demo_mem (ptr 1) Q = Some q" for Q q
    using that(2) unfolding demo_mem_tab [OF that(1)] by (simp split: if_splits)
  show ?thesis
  proof (rule pt_invI, goal_cases)
    case 1
    show ?case by (rule demo_mem_ok(1))
  next
    case 2
    show ?case by (simp add: demo_mem_def)
  next
    case (3 Q q)
    then show ?case using t [OF 3] area [of 1] by (intro exI [of _ 1]) (simp add: demo_mem_ok)
  next
    case (4 P Q q)
    then show ?case using t by metis
  next
    case (5 f)
    then show ?case using area [of f] by (auto simp: demo_mem_ok)
  qed
qed

text \<open>
  C6: The scan of \<^verbatim>\<open>alloc_frame\<close> over the words of the bitmap, with \<^verbatim>\<open>trailing_zeros\<close> in the first word that is not zero, is equivalent
  to taking the least free frame. It fails exactly if no frame is free, changes nothing outside the bitmap, and
  \<^verbatim>\<open>free_frame\<close> undoes it.
\<close>

theorem alloc_frame_lowest:
  assumes "bm_ok s" "TOTAL_FRAMES s \<le> 2 ^ 40"
  shows "case alloc_frame s of
       (None, s') \<Rightarrow> free_frames s = {} \<and> s' = s
     | (Some a, s') \<Rightarrow> Min (free_frames s) \<in> free_frames s \<and> a = of_nat (Min (free_frames s) * 4096)
         \<and> free_frames s' = free_frames s - {Min (free_frames s)} \<and> bm_ok s'
         \<and> (\<forall>x. x \<in> bitmap_area s \<or> mem s' x = mem s x) \<and> free_frames (free_frame a s') = free_frames s"
proof (cases "free_frames s = {}")
  case False
  let ?f = "Min (free_frames s)" and ?a = "of_nat (Min (free_frames s) * PAGE_SIZE) :: u64"
  have f: "?f \<in> free_frames s" using False by (intro Min_in) (auto simp: free_frames_def)
  then have b: "?f < 2 ^ 40" "?f < TOTAL_FRAMES s" using assms(2) by (auto simp: free_frames_def)
  have a: "alloc_frame s = (Some ?a, mark_used ?f s)" using False alloc_frame_eq [OF assms(1)] PhysAddr_frame [OF b(1)] by simp
  have "unat ?a = ?f * 4096" using b(1) by (simp only: unat_of_nat PAGE_SIZE_def) simp
  then have "unat (?a div 4096) = ?f" by (simp add: unat_div)
  then have "free_frames (free_frame ?a (mark_used ?f s)) = free_frames s"
    using mark_frames [OF assms(1), of ?f] mark_frames(1) [of "mark_used ?f s" ?f] assms(1) b(2) f unfolding free_frame_def by auto
  moreover have "x \<in> bitmap_area s \<or> mem (mark_used ?f s) x = mem s x" for x using mark_used_mem [OF assms(1)] by metis
  ultimately show ?thesis using a f assms(1) mark_frames(2) [OF assms(1)] by (simp add: PAGE_SIZE_def)
qed (simp add: alloc_frame_eq [OF assms(1)])

theorem alloc_frame_lowest_witness:
  "\<exists>s'. alloc_frame demo_mem = (Some 0x4000, s') \<and> free_frames s' = {5, 6, 7} \<and> free_frames (free_frame 0x4000 s') = {4, 5, 6, 7}"
proof -
  have "TOTAL_FRAMES demo_mem \<le> 2 ^ 40" by (simp add: demo_mem_def)
  from alloc_frame_lowest [OF demo_mem_ok(1) this] show ?thesis
    by (cases "alloc_frame demo_mem") (auto simp: demo_mem_ok(2) split: option.splits)
qed

text \<open>
  C7: After \<^verbatim>\<open>FrameAllocator::init\<close> every frame up to the highest address of the memory map is free: those of reserved regions, those
  that hold the bitmap itself, and those of page tables in use. The bitmap starts with all bits set, and a set bit means
  free. The first allocation returns address 0, and no page table in that memory satisfies the invariant of the mapper.
\<close>

theorem init_frees_everything:
  assumes "map_ok es" "max_address es 0 = Ok hi" "PAGE_SIZE \<le> unat hi"
    and "\<exists>e\<in>set es. usable e \<and> (unat hi div PAGE_SIZE + 63) div 64 * 8 \<le> unat (me_length e)"
  shows "\<exists>s'. FrameAllocator_init es s = (Ok (), s') \<and> free_frames s' = {..<unat hi div PAGE_SIZE} \<and> fst (alloc_frame s') = Some 0
     \<and> (\<forall>f. unat hi div PAGE_SIZE \<le> f \<or> \<not> pt_inv s' (ptr f))"
proof -
  obtain s' where s': "FrameAllocator_init es s = (Ok (), s')" "bm_ok s'" "TOTAL_FRAMES s' = unat hi div PAGE_SIZE" "free_frames s' = {..<TOTAL_FRAMES s'}"
    using init_frames [OF assms] by blast
  have "0 < unat hi div PAGE_SIZE" using assms(3) by (simp add: PAGE_SIZE_def div_greater_zero_iff)
  then have "Min (free_frames s') = 0" "free_frames s' \<noteq> {}" using s'(3,4) by (auto intro: Min_eqI)
  then have "fst (alloc_frame s') = Some 0" by (simp add: alloc_frame_eq [OF s'(2)] PhysAddr_new_def)
  moreover have "\<not> pt_inv s' (ptr f)" if "f < TOTAL_FRAMES s'" for f
  proof
    assume i: "pt_inv s' (ptr f)"
    then have f: "f < 2 ^ 35" using pt_invD(2) [OF i] that by linarith
    obtain g where "ptr f = ptr g" "g < 2 ^ 35" "g \<notin> free_frames s'" using pt_invD(3) [OF i, of "[]"] by (auto simp: path_def)
    then show False using f that s'(4) ptr_eq by auto
  qed
  ultimately show ?thesis using s' by (metis not_le_imp_less)
qed

theorem init_frees_everything_witness:
  "\<exists>s'. FrameAllocator_init [\<lparr>me_base = 0, me_length = 0x100000, usable = False\<rparr>, \<lparr>me_base = 0x100000, me_length = 0x100000, usable = True\<rparr>] demo_mem
       = (Ok (), s') \<and> free_frames s' = {..<512} \<and> fst (alloc_frame s') = Some 0"
proof -
  let ?es = "[\<lparr>me_base = 0, me_length = 0x100000, usable = False\<rparr>, \<lparr>me_base = 0x100000, me_length = 0x100000, usable = True\<rparr>]"
  have "map_ok ?es" "max_address ?es 0 = Ok 0x200000" by (simp_all add: map_ok_def PAGE_SIZE_def add_ck_def)
  from init_frees_everything [OF this, of demo_mem] show ?thesis by (simp add: PAGE_SIZE_def) blast
qed



end
