(* ===== verification/Kernel_Objects.thy ===== *)
theory Kernel_Objects
  imports Prelude
begin

text \<open>
  Kernel objects and capabilities, \<^verbatim>\<open>crates/lib_kernel/src/api\<close>, with the event dispatcher \<^verbatim>\<open>events.rs\<close> and the DMA buffers
  \<^verbatim>\<open>memory/dma.rs\<close> that use them. A reference-counted object is named by its handle, a DMA buffer by its identifier, so
  that a change through one reference is seen through all. Locks are left out: no function takes one twice.
\<close>

section \<open>Rights and objects\<close>

type_synonym i32 = "32 word"
type_synonym ObjectHandle = u64
type_synonym ProcessId = u64
type_synonym Rights = u64

record Capability =
  cap_handle :: ObjectHandle
  cap_rights :: Rights
  cap_owner :: ProcessId

definition READ :: Rights where "READ = 1"
definition WRITE :: Rights where "WRITE = 2"
definition EXECUTE :: Rights where "EXECUTE = 4"
definition DELETE :: Rights where "DELETE = 8"
definition SHARE :: Rights where "SHARE = 16"
definition ALL_RIGHTS :: Rights where "ALL_RIGHTS = 0xFFFFFFFFFFFFFFFF"

definition has :: "Rights \<Rightarrow> Rights \<Rightarrow> bool" where
  "has r right \<longleftrightarrow> r AND right \<noteq> 0"

definition with_right :: "Rights \<Rightarrow> Rights \<Rightarrow> Rights" where
  "with_right r right = r OR right"

definition without :: "Rights \<Rightarrow> Rights \<Rightarrow> Rights" where
  "without r right = r AND NOT right"

datatype RegistryError = RegistryFull | ProcessNotFound | HandleNotFound | ObjectNotFound | InsufficientRights
datatype PixelFormat = Rgba8888 | Rgb888 | Bgra8888 | Bgr888
datatype InputEvent = KeyPress u32 u32 | KeyRelease u32 u32 | MouseMove i32 i32 | MousePress u32 i32 i32 | MouseRelease u32 i32 i32

record Rect =
  rect_x :: i32
  rect_y :: i32
  rect_width :: u32
  rect_height :: u32

record Surface =
  sf_width :: u32
  sf_height :: u32
  sf_format :: PixelFormat
  sf_buffer :: "ObjectHandle option"
  committed :: bool
  damage_rects :: "Rect list"

definition Surface_new :: "u32 \<Rightarrow> u32 \<Rightarrow> PixelFormat \<Rightarrow> Surface" where
  "Surface_new w h f = \<lparr>sf_width = w, sf_height = h, sf_format = f, sf_buffer = None, committed = False, damage_rects = []\<rparr>"

definition attach_buffer :: "ObjectHandle \<Rightarrow> Surface \<Rightarrow> Surface" where
  "attach_buffer b s = s\<lparr>sf_buffer := Some b, committed := False\<rparr>"

definition commit :: "Surface \<Rightarrow> Surface" where
  "commit s = s\<lparr>committed := True\<rparr>"

definition add_damage :: "Rect \<Rightarrow> Surface \<Rightarrow> Surface" where
  "add_damage r s = s\<lparr>damage_rects := damage_rects s @ [r]\<rparr>"

definition take_damage :: "Surface \<Rightarrow> Rect list \<times> Surface" where
  "take_damage s = (damage_rects s, s\<lparr>damage_rects := []\<rparr>)"

text \<open>Pixels in memory of the kernel, or in a DMA buffer.\<close>

datatype BufferData = Owned bytes | Dma u64

record Buffer =
  bf_data :: BufferData
  bf_width :: u32
  bf_height :: u32
  bf_stride :: u32
  bf_format :: PixelFormat

definition bytes_per_pixel :: "PixelFormat \<Rightarrow> u32" where
  "bytes_per_pixel f = (case f of Rgba8888 \<Rightarrow> 4 | Bgra8888 \<Rightarrow> 4 | Rgb888 \<Rightarrow> 3 | Bgr888 \<Rightarrow> 3)"

definition Buffer_new :: "u32 \<Rightarrow> u32 \<Rightarrow> PixelFormat \<Rightarrow> ('e, Buffer) res" where
  "Buffer_new w h f =
     bind_res (mul_ck w (bytes_per_pixel f)) (\<lambda>stride. bind_res (mul_ck stride h) (\<lambda>n.
       Ok \<lparr>bf_data = Owned (replicate (unat n) 0), bf_width = w, bf_height = h, bf_stride = stride, bf_format = f\<rparr>))"

text \<open>The size of a DMA buffer is passed as \<open>dsize\<close>; 1024 is the product of the fixed width and the pixel size.\<close>

definition from_dma_buffer :: "u64 \<Rightarrow> nat \<Rightarrow> Buffer" where
  "from_dma_buffer i dsize = \<lparr>bf_data = Dma i, bf_width = 256, bf_height = (of_nat dsize :: u32) div 1024, bf_stride = 1024, bf_format = Rgba8888\<rparr>"

definition is_dma_buffer :: "Buffer \<Rightarrow> bool" where
  "is_dma_buffer b = (case bf_data b of Owned _ \<Rightarrow> False | Dma _ \<Rightarrow> True)"

definition as_slice :: "Buffer \<Rightarrow> bytes option" where
  "as_slice b = (case bf_data b of Owned v \<Rightarrow> Some v | Dma _ \<Rightarrow> None)"

type_synonym EventStream = "InputEvent list"

definition push_event :: "InputEvent \<Rightarrow> EventStream \<Rightarrow> EventStream" where
  "push_event e q = q @ [e]"

definition poll_event :: "EventStream \<Rightarrow> InputEvent option \<times> EventStream" where
  "poll_event q = (if q = [] then (None, q) else (Some (last q), butlast q))"

definition has_events :: "EventStream \<Rightarrow> bool" where
  "has_events q \<longleftrightarrow> q \<noteq> []"

record Display =
  dp_width :: u32
  dp_height :: u32
  refresh_rate :: u32
  framebuffer :: "u64 option"
  exclusive_owner :: "ObjectHandle option"
  vsync_enabled :: bool

definition Display_new :: "u32 \<Rightarrow> u32 \<Rightarrow> u32 \<Rightarrow> u64 \<Rightarrow> Display" where
  "Display_new w h r fb = \<lparr>dp_width = w, dp_height = h, refresh_rate = r, framebuffer = Some fb, exclusive_owner = None, vsync_enabled = True\<rparr>"

definition request_exclusive :: "ObjectHandle \<Rightarrow> Display \<Rightarrow> bool \<times> Display" where
  "request_exclusive h d = (if exclusive_owner d = None then (True, d\<lparr>exclusive_owner := Some h\<rparr>) else (False, d))"

definition release_exclusive :: "ObjectHandle \<Rightarrow> Display \<Rightarrow> bool \<times> Display" where
  "release_exclusive h d = (if exclusive_owner d = Some h then (True, d\<lparr>exclusive_owner := None\<rparr>) else (False, d))"

definition is_exclusive :: "Display \<Rightarrow> bool" where
  "is_exclusive d \<longleftrightarrow> exclusive_owner d \<noteq> None"

datatype KernelObject = OSurface Surface | OBuffer Buffer | OStream EventStream | ODisplay Display

primrec type_name :: "KernelObject \<Rightarrow> string" where
  "type_name (OSurface _) = ''Surface''"
| "type_name (OBuffer _) = ''Buffer''"
| "type_name (OStream _) = ''EventStream''"
| "type_name (ODisplay _) = ''Display''"


section \<open>State\<close>

record DmaBuffer =
  physical_pages :: "u64 list"
  dma_size :: nat
  pinned :: bool
  ref_count :: u64

record EventTypeFilter =
  ev_keyboard :: bool
  ev_mouse :: bool
  ev_display :: bool

record EventStreamRegistration =
  stream_handle :: ObjectHandle
  reg_process :: ProcessId
  event_types :: EventTypeFilter

record PendingEvent =
  pe_event :: InputEvent
  target_processes :: "ProcessId list"
  timestamp :: u64

text \<open>
  The registry, the dispatcher and the DMA registry are global; \<open>tick\<close> is the clock that \<^verbatim>\<open>current_tick\<close> reads. A DMA buffer
  lives in \<open>dma_heap\<close> as long as it is referenced; \<open>dma_slots\<close> is the table of the registry.
\<close>

record kernel =
  NEXT_HANDLE :: u64
  NEXT_PID :: u64
  NEXT_BUFFER :: u64
  objects :: "ObjectHandle \<Rightarrow> KernelObject option"
  capabilities :: "ProcessId \<Rightarrow> Capability list option"
  streams :: "EventStreamRegistration list"
  event_counter :: u64
  pending_events :: "PendingEvent list"
  dma_heap :: "u64 \<Rightarrow> DmaBuffer option"
  dma_slots :: "u64 option list"
  tick :: u64

definition kernel_start :: kernel where
  "kernel_start = \<lparr>NEXT_HANDLE = 1, NEXT_PID = 1, NEXT_BUFFER = 1, objects = Map.empty, capabilities = Map.empty, streams = [],
     event_counter = 0, pending_events = [], dma_heap = Map.empty, dma_slots = [], tick = 0\<rparr>"

definition ObjectHandle_new :: "kernel \<Rightarrow> ObjectHandle \<times> kernel" where
  "ObjectHandle_new s = (NEXT_HANDLE s, s\<lparr>NEXT_HANDLE := NEXT_HANDLE s + 1\<rparr>)"

definition ProcessId_new :: "kernel \<Rightarrow> ProcessId \<times> kernel" where
  "ProcessId_new s = (NEXT_PID s, s\<lparr>NEXT_PID := NEXT_PID s + 1\<rparr>)"


section \<open>The object registry\<close>

definition push_capability :: "ProcessId \<Rightarrow> Capability \<Rightarrow> kernel \<Rightarrow> kernel" where
  "push_capability p c s = s\<lparr>capabilities := (capabilities s)(p \<mapsto>
     (case capabilities s p of Some caps \<Rightarrow> caps @ [c] | None \<Rightarrow> [c]))\<rparr>"

definition register_object :: "KernelObject \<Rightarrow> ProcessId \<Rightarrow> Rights \<Rightarrow> kernel \<Rightarrow> ObjectHandle \<times> kernel" where
  "register_object obj owner rights s =
     (let (handle, s1) = ObjectHandle_new s;
          s2 = s1\<lparr>objects := (objects s1)(handle \<mapsto> obj)\<rparr>
      in (handle, push_capability owner \<lparr>cap_handle = handle, cap_rights = rights, cap_owner = owner\<rparr> s2))"

text \<open>The result is the reference to the object, that is, its handle.\<close>

definition get_object :: "ObjectHandle \<Rightarrow> ProcessId \<Rightarrow> Rights \<Rightarrow> kernel \<Rightarrow> (RegistryError, ObjectHandle) res" where
  "get_object handle process required s =
     (case capabilities s process of None \<Rightarrow> Err ProcessNotFound | Some caps \<Rightarrow>
      case find (\<lambda>c. cap_handle c = handle) caps of None \<Rightarrow> Err HandleNotFound | Some c \<Rightarrow>
      if \<not> has (cap_rights c) required then Err InsufficientRights
      else case objects s handle of None \<Rightarrow> Err ObjectNotFound | Some _ \<Rightarrow> Ok handle)"

definition transfer_capability :: "ObjectHandle \<Rightarrow> ProcessId \<Rightarrow> ProcessId \<Rightarrow> Rights \<Rightarrow> (kernel, RegistryError, unit) prog" where
  "transfer_capability handle from to rights = (\<lambda>s.
     case capabilities s from of None \<Rightarrow> (Err ProcessNotFound, s) | Some caps \<Rightarrow>
     case find (\<lambda>c. cap_handle c = handle) caps of None \<Rightarrow> (Err HandleNotFound, s) | Some c \<Rightarrow>
     if \<not> has (cap_rights c) SHARE then (Err InsufficientRights, s)
     else (Ok (), push_capability to \<lparr>cap_handle = handle, cap_rights = rights, cap_owner = to\<rparr> s))"

primrec remove_first :: "('a \<Rightarrow> bool) \<Rightarrow> 'a list \<Rightarrow> 'a list option" where
  "remove_first P [] = None"
| "remove_first P (x # xs) = (if P x then Some xs else map_option ((#) x) (remove_first P xs))"

definition revoke_capability :: "ObjectHandle \<Rightarrow> ProcessId \<Rightarrow> (kernel, RegistryError, unit) prog" where
  "revoke_capability handle process = (\<lambda>s.
     case capabilities s process of None \<Rightarrow> (Err ProcessNotFound, s) | Some caps \<Rightarrow>
     case remove_first (\<lambda>c. cap_handle c = handle) caps of None \<Rightarrow> (Err HandleNotFound, s) | Some caps' \<Rightarrow>
     (Ok (), s\<lparr>capabilities := (capabilities s)(process \<mapsto> caps')\<rparr>))"

section \<open>Events\<close>

definition FILTER_ALL :: EventTypeFilter where
  "FILTER_ALL = \<lparr>ev_keyboard = True, ev_mouse = True, ev_display = True\<rparr>"

definition KEYBOARD_ONLY :: EventTypeFilter where
  "KEYBOARD_ONLY = \<lparr>ev_keyboard = True, ev_mouse = False, ev_display = False\<rparr>"

definition MOUSE_ONLY :: EventTypeFilter where
  "MOUSE_ONLY = \<lparr>ev_keyboard = False, ev_mouse = True, ev_display = False\<rparr>"

definition matches :: "EventTypeFilter \<Rightarrow> InputEvent \<Rightarrow> bool" where
  "matches f e = (case e of KeyPress _ _ \<Rightarrow> ev_keyboard f | KeyRelease _ _ \<Rightarrow> ev_keyboard f
     | MouseMove _ _ \<Rightarrow> ev_mouse f | MousePress _ _ _ \<Rightarrow> ev_mouse f | MouseRelease _ _ _ \<Rightarrow> ev_mouse f)"

definition register_stream :: "ObjectHandle \<Rightarrow> ProcessId \<Rightarrow> EventTypeFilter \<Rightarrow> kernel \<Rightarrow> kernel" where
  "register_stream h p f s = s\<lparr>streams := streams s @ [\<lparr>stream_handle = h, reg_process = p, event_types = f\<rparr>]\<rparr>"

definition unregister_stream :: "ObjectHandle \<Rightarrow> ProcessId \<Rightarrow> kernel \<Rightarrow> kernel" where
  "unregister_stream h p s = s\<lparr>streams := filter (\<lambda>r. stream_handle r \<noteq> h \<or> reg_process r \<noteq> p) (streams s)\<rparr>"

text \<open>The event goes to the first stream that the process has registered, if the process may write to it.\<close>

definition deliver_to_process :: "InputEvent \<Rightarrow> ProcessId \<Rightarrow> kernel \<Rightarrow> kernel" where
  "deliver_to_process e p s =
     (case find (\<lambda>r. reg_process r = p) (streams s) of None \<Rightarrow> s | Some r \<Rightarrow>
      case get_object (stream_handle r) p WRITE s of
        Ok h \<Rightarrow> (case objects s h of Some (OStream q) \<Rightarrow> s\<lparr>objects := (objects s)(h \<mapsto> OStream (push_event e q))\<rparr> | _ \<Rightarrow> s)
      | _ \<Rightarrow> s)"

definition deliver_to_processes :: "InputEvent \<Rightarrow> ProcessId list \<Rightarrow> kernel \<Rightarrow> kernel" where
  "deliver_to_processes e ps s = fold (deliver_to_process e) ps s"

definition dispatch_event :: "InputEvent \<Rightarrow> kernel \<Rightarrow> kernel" where
  "dispatch_event e s =
     (let s1 = s\<lparr>event_counter := event_counter s + 1\<rparr>;
          targets = map reg_process (filter (\<lambda>r. matches (event_types r) e) (streams s1))
      in if targets \<noteq> [] then
           deliver_to_processes e targets
             (s1\<lparr>pending_events := pending_events s1 @ [\<lparr>pe_event = e, target_processes = targets, timestamp = tick s1\<rparr>]\<rparr>)
         else s1)"

definition process_pending_events :: "kernel \<Rightarrow> kernel" where
  "process_pending_events s = s\<lparr>pending_events := []\<rparr>"

record EventStats =
  total_events_dispatched :: u64
  registered_streams :: nat
  pending_count :: nat

definition EventDispatcher_get_stats :: "kernel \<Rightarrow> EventStats" where
  "EventDispatcher_get_stats s = \<lparr>total_events_dispatched = event_counter s, registered_streams = length (streams s),
     pending_count = length (pending_events s)\<rparr>"

definition register_keyboard_events :: "ObjectHandle \<Rightarrow> ProcessId \<Rightarrow> kernel \<Rightarrow> kernel" where
  "register_keyboard_events h p = register_stream h p KEYBOARD_ONLY"

definition register_mouse_events :: "ObjectHandle \<Rightarrow> ProcessId \<Rightarrow> kernel \<Rightarrow> kernel" where
  "register_mouse_events h p = register_stream h p MOUSE_ONLY"

definition register_all_input_events :: "ObjectHandle \<Rightarrow> ProcessId \<Rightarrow> kernel \<Rightarrow> kernel" where
  "register_all_input_events h p = register_stream h p FILTER_ALL"

definition dispatch_key_press :: "u32 \<Rightarrow> u32 \<Rightarrow> kernel \<Rightarrow> kernel" where
  "dispatch_key_press key modifiers = dispatch_event (KeyPress key modifiers)"

definition dispatch_key_release :: "u32 \<Rightarrow> u32 \<Rightarrow> kernel \<Rightarrow> kernel" where
  "dispatch_key_release key modifiers = dispatch_event (KeyRelease key modifiers)"

definition dispatch_mouse_move :: "i32 \<Rightarrow> i32 \<Rightarrow> kernel \<Rightarrow> kernel" where
  "dispatch_mouse_move x y = dispatch_event (MouseMove x y)"

definition dispatch_mouse_press :: "u32 \<Rightarrow> i32 \<Rightarrow> i32 \<Rightarrow> kernel \<Rightarrow> kernel" where
  "dispatch_mouse_press button x y = dispatch_event (MousePress button x y)"

definition dispatch_mouse_release :: "u32 \<Rightarrow> i32 \<Rightarrow> i32 \<Rightarrow> kernel \<Rightarrow> kernel" where
  "dispatch_mouse_release button x y = dispatch_event (MouseRelease button x y)"


section \<open>DMA buffers\<close>

datatype DmaError = InvalidSize | OutOfMemory | MappingFailed | BufferNotFound | AccessDenied

text \<open>\<open>PA\<close> is \<^verbatim>\<open>PhysAddr::new\<close> of the \<^verbatim>\<open>x86_64\<close> crate.\<close>

primrec dma_pages :: "(u64 \<Rightarrow> (DmaError, u64) res) \<Rightarrow> nat list \<Rightarrow> (DmaError, u64 list) res" where
  "dma_pages PA [] = Ok []"
| "dma_pages PA (i # is) = bind_res (PA (0x100000 + of_nat (i * 0x1000))) (\<lambda>p. bind_res (dma_pages PA is) (\<lambda>ps. Ok (p # ps)))"

definition DmaBuffer_new :: "(u64 \<Rightarrow> (DmaError, u64) res) \<Rightarrow> u64 \<Rightarrow> (kernel, DmaError, u64) prog" where
  "DmaBuffer_new PA sz =
     (if sz = 0 then fail InvalidSize
      else bnd (lift_res (add_ck sz 0xFFF)) (\<lambda>n.
        let page_count = unat n div 0x1000 in
        bnd (lift_res (dma_pages PA [0..<page_count])) (\<lambda>pages s.
          (Ok (NEXT_BUFFER s), s\<lparr>NEXT_BUFFER := NEXT_BUFFER s + 1,
             dma_heap := (dma_heap s)(NEXT_BUFFER s \<mapsto> \<lparr>physical_pages = pages, dma_size = page_count * 0x1000, pinned = True, ref_count = 1\<rparr>)\<rparr>))))"

primrec fill_slot :: "'a \<Rightarrow> 'a option list \<Rightarrow> 'a option list" where
  "fill_slot x [] = [Some x]"
| "fill_slot x (y # ys) = (if y = None then Some x # ys else y # fill_slot x ys)"

definition register_buffer :: "u64 \<Rightarrow> kernel \<Rightarrow> kernel" where
  "register_buffer i s = s\<lparr>dma_slots := fill_slot i (dma_slots s)\<rparr>"

definition add_ref :: "u64 \<Rightarrow> kernel \<Rightarrow> kernel" where
  "add_ref i s = s\<lparr>dma_heap := (dma_heap s)(i := map_option (\<lambda>b. b\<lparr>ref_count := ref_count b + 1\<rparr>) (dma_heap s i))\<rparr>"

definition dma_release :: "u64 \<Rightarrow> kernel \<Rightarrow> bool \<times> kernel" where
  "dma_release i s = (case dma_heap s i of
       None \<Rightarrow> (False, s)
     | Some b \<Rightarrow> (ref_count b = 1, s\<lparr>dma_heap := (dma_heap s)(i \<mapsto> b\<lparr>ref_count := ref_count b - 1\<rparr>)\<rparr>))"

definition get_buffer :: "u64 \<Rightarrow> kernel \<Rightarrow> u64 option \<times> kernel" where
  "get_buffer i s = (if Some i \<in> set (dma_slots s) then (Some i, add_ref i s) else (None, s))"

primrec clear_slot :: "'a \<Rightarrow> 'a option list \<Rightarrow> 'a option list" where
  "clear_slot x [] = []"
| "clear_slot x (y # ys) = (if y = Some x then None # ys else y # clear_slot x ys)"

definition unregister_buffer :: "u64 \<Rightarrow> kernel \<Rightarrow> kernel" where
  "unregister_buffer i s = s\<lparr>dma_slots := clear_slot i (dma_slots s)\<rparr>"

definition create_dma_buffer :: "(u64 \<Rightarrow> (DmaError, u64) res) \<Rightarrow> u64 \<Rightarrow> (kernel, DmaError, u64) prog" where
  "create_dma_buffer PA sz = bnd (DmaBuffer_new PA sz) (\<lambda>i s. (Ok i, register_buffer i s))"

definition map_buffer_to_userspace :: "u64 \<Rightarrow> (kernel, DmaError, unit) prog" where
  "map_buffer_to_userspace i = (\<lambda>s. case get_buffer i s of (None, s1) \<Rightarrow> (Err BufferNotFound, s1) | (Some _, s1) \<Rightarrow> (Ok (), s1))"

definition share_buffer_with_process :: "u64 \<Rightarrow> ProcessId \<Rightarrow> Rights \<Rightarrow> (kernel, DmaError, ObjectHandle) prog" where
  "share_buffer_with_process i target rights = (\<lambda>s. case get_buffer i s of
       (None, s1) \<Rightarrow> (Err BufferNotFound, s1)
     | (Some _, s1) \<Rightarrow>
         let dsize = (case dma_heap s1 i of Some b \<Rightarrow> dma_size b | None \<Rightarrow> 0);
             (h, s2) = register_object (OBuffer (from_dma_buffer i dsize)) target rights s1
         in (Ok h, s2))"

record DmaStats =
  total_buffers :: nat
  total_memory_bytes :: nat
  pinned_buffers :: nat
  registry_slots :: nat

text \<open>The only sum that can overflow is that of the sizes.\<close>

definition DmaRegistry_get_stats :: "kernel \<Rightarrow> (unit, DmaStats) res" where
  "DmaRegistry_get_stats s =
     (let bs = List.map_filter (\<lambda>slot. Option.bind slot (dma_heap s)) (dma_slots s);
          total = sum_list (map dma_size bs)
      in if total \<ge> 2 ^ 64 then Panic
         else Ok \<lparr>total_buffers = length bs, total_memory_bytes = total, pinned_buffers = length (filter pinned bs), registry_slots = length (dma_slots s)\<rparr>)"


section \<open>System calls\<close>

record SyscallFrame =
  rax :: u64
  rbx :: u64
  rcx :: u64
  rdx :: u64
  rsi :: u64
  rdi :: u64
  r8 :: u64
  r9 :: u64
  r10 :: u64
  r11 :: u64
  rsp :: u64
  rbp :: u64

datatype SyscallNumber = CreateObject | GetObject | CallObject | TransferCapability | RevokeCapability | CreateProcess | LoadElf | StartProcess | Exit

definition syscall_number :: "u64 \<Rightarrow> SyscallNumber option" where
  "syscall_number v = (if v = 0 then Some CreateObject else if v = 1 then Some GetObject else if v = 2 then Some CallObject
     else if v = 3 then Some TransferCapability else if v = 4 then Some RevokeCapability else if v = 5 then Some CreateProcess
     else if v = 6 then Some LoadElf else if v = 7 then Some StartProcess else if v = 99 then Some Exit else None)"

text \<open>A call that does not return: \<^verbatim>\<open>sys_exit\<close> halts the machine.\<close>

datatype stop = Halted

type_synonym 'a call = "(kernel, stop, 'a) prog"

definition U64_MAX :: u64 where "U64_MAX = 0xFFFFFFFFFFFFFFFF"

definition pixel_format :: "u64 \<Rightarrow> PixelFormat option" where
  "pixel_format a = (if a = 0 then Some Rgba8888 else if a = 1 then Some Rgb888 else if a = 2 then Some Bgra8888
     else if a = 3 then Some Bgr888 else None)"

definition sys_create_object :: "SyscallFrame \<Rightarrow> u64 call" where
  "sys_create_object frame = (\<lambda>s.
     let (pid, s1) = ProcessId_new s in
     if rbx frame = 0 then
       (case pixel_format (rsi frame) of None \<Rightarrow> (Ok U64_MAX, s1) | Some f \<Rightarrow>
          let (h, s2) = register_object (OSurface (Surface_new (ucast (rcx frame)) (ucast (rdx frame)) f)) pid ALL_RIGHTS s1 in (Ok h, s2))
     else if rbx frame = 1 then
       (case pixel_format (rsi frame) of None \<Rightarrow> (Ok U64_MAX, s1) | Some f \<Rightarrow>
          bnd (lift_res (Buffer_new (ucast (rcx frame)) (ucast (rdx frame)) f)) (\<lambda>b s1.
            let (h, s2) = register_object (OBuffer b) pid ALL_RIGHTS s1 in (Ok h, s2)) s1)
     else if rbx frame = 2 then
       (let (h, s2) = register_object (OStream []) pid ALL_RIGHTS s1 in (Ok h, s2))
     else (Ok U64_MAX, s1))"

definition sys_get_object :: "SyscallFrame \<Rightarrow> u64 call" where
  "sys_get_object frame = (\<lambda>s. let (pid, s1) = ProcessId_new s in
     (Ok (case get_object (rbx frame) pid (rcx frame) s1 of Ok _ \<Rightarrow> 0 | _ \<Rightarrow> 1), s1))"

definition sys_call_object :: "SyscallFrame \<Rightarrow> u64 call" where
  "sys_call_object frame = (\<lambda>s. let (pid, s1) = ProcessId_new s in
     case get_object (rbx frame) pid WRITE s1 of
       Ok h \<Rightarrow> (case objects s1 h of
           Some (OSurface sf) \<Rightarrow>
             if rcx frame = 0 then (Ok 0, s1\<lparr>objects := (objects s1)(h \<mapsto> OSurface (attach_buffer (rdx frame) sf))\<rparr>)
             else if rcx frame = 1 then (Ok 0, s1\<lparr>objects := (objects s1)(h \<mapsto> OSurface (commit sf))\<rparr>)
             else (Ok U64_MAX, s1)
         | Some (OStream q) \<Rightarrow> if rcx frame = 0 then (Ok (if has_events q then 0 else 1), s1) else (Ok U64_MAX, s1)
         | _ \<Rightarrow> (Ok U64_MAX, s1))
     | _ \<Rightarrow> (Ok U64_MAX, s1))"

definition sys_transfer_capability :: "SyscallFrame \<Rightarrow> u64 call" where
  "sys_transfer_capability frame = (\<lambda>s. case transfer_capability (rbx frame) (rcx frame) (rdx frame) (rsi frame) s of
     (r, s1) \<Rightarrow> (Ok (case r of Ok _ \<Rightarrow> 0 | _ \<Rightarrow> 1), s1))"

definition sys_revoke_capability :: "SyscallFrame \<Rightarrow> u64 call" where
  "sys_revoke_capability frame = (\<lambda>s. case revoke_capability (rbx frame) (rcx frame) s of
     (r, s1) \<Rightarrow> (Ok (case r of Ok _ \<Rightarrow> 0 | _ \<Rightarrow> 1), s1))"

definition sys_exit :: "SyscallFrame \<Rightarrow> u64 call" where
  "sys_exit frame = fail Halted"

definition sys_create_process :: "SyscallFrame \<Rightarrow> u64 call" where
  "sys_create_process frame = (\<lambda>s. let (pid, s1) = ProcessId_new s in (Ok pid, s1))"

text \<open>\<^verbatim>\<open>ElfLoader::new\<close> on the bytes of a file, as far as this call uses it: the checks of the header and the entry point.\<close>

datatype ElfError = InvalidMagic | UnsupportedClass | UnsupportedArch | InvalidHeader | LoadError

record ElfLoader =
  elf_data :: bytes
  e_ident :: bytes
  e_machine :: u16
  e_entry :: u64

definition ElfLoader_new :: "bytes \<Rightarrow> (ElfError, ElfLoader) res" where
  "ElfLoader_new data =
     (if length data < 64 then Err InvalidHeader
      else let ident = take 16 data; machine = get_le 18 data; entry = get_le 24 data in
        if take 4 ident \<noteq> [0x7F, 0x45, 0x4C, 0x46] then Err InvalidMagic
        else if ident ! 4 \<noteq> 2 then Err UnsupportedClass
        else if machine \<noteq> 62 then Err UnsupportedArch
        else Ok \<lparr>elf_data = data, e_ident = ident, e_machine = machine, e_entry = entry\<rparr>)"

text \<open>\<open>VA\<close> is \<^verbatim>\<open>VirtAddr::new\<close> of the \<^verbatim>\<open>x86_64\<close> crate, \<open>umem\<close> the memory of the calling process.\<close>

type_synonym virt_new = "u64 \<Rightarrow> (stop, u64) res"

definition sys_load_elf :: "virt_new \<Rightarrow> (u64 \<Rightarrow> nat \<Rightarrow> bytes) \<Rightarrow> SyscallFrame \<Rightarrow> u64 call" where
  "sys_load_elf VA umem frame =
     (if rcx frame = 0 \<or> rdx frame = 0 then ret U64_MAX
      else case ElfLoader_new (umem (rcx frame) (unat (rdx frame))) of Ok l \<Rightarrow> lift_res (VA (e_entry l)) | _ \<Rightarrow> ret U64_MAX)"

definition sys_start_process :: "virt_new \<Rightarrow> SyscallFrame \<Rightarrow> u64 call" where
  "sys_start_process VA frame = bnd (lift_res (VA (rcx frame))) (\<lambda>_. ret 0)"

definition handle_syscall :: "virt_new \<Rightarrow> (u64 \<Rightarrow> nat \<Rightarrow> bytes) \<Rightarrow> SyscallFrame \<Rightarrow> SyscallFrame call" where
  "handle_syscall VA umem frame =
     (case syscall_number (rax frame) of
        None \<Rightarrow> ret (frame\<lparr>rax := U64_MAX\<rparr>)
      | Some n \<Rightarrow> bnd (case n of
            CreateObject \<Rightarrow> sys_create_object frame
          | GetObject \<Rightarrow> sys_get_object frame
          | CallObject \<Rightarrow> sys_call_object frame
          | TransferCapability \<Rightarrow> sys_transfer_capability frame
          | RevokeCapability \<Rightarrow> sys_revoke_capability frame
          | CreateProcess \<Rightarrow> sys_create_process frame
          | LoadElf \<Rightarrow> sys_load_elf VA umem frame
          | StartProcess \<Rightarrow> sys_start_process VA frame
          | Exit \<Rightarrow> sys_exit frame) (\<lambda>result. ret (frame\<lparr>rax := result\<rparr>)))"

section \<open>Invariant of the registry\<close>

definition held :: "ObjectHandle \<Rightarrow> kernel \<Rightarrow> (ProcessId \<times> Capability) set" where
  "held h s = {(p, c). \<exists>caps. capabilities s p = Some caps \<and> c \<in> set caps \<and> cap_handle c = h}"

definition unshared :: "ObjectHandle \<Rightarrow> kernel \<Rightarrow> bool" where
  "unshared h s \<longleftrightarrow> (\<forall>(p, c)\<in>held h s. \<not> has (cap_rights c) SHARE)"

definition reg_inv :: "kernel \<Rightarrow> bool" where
  "reg_inv s \<longleftrightarrow> (\<forall>h p c. (p, c) \<in> held h s \<longrightarrow> cap_owner c = p \<and> h \<in> dom (objects s))
     \<and> (\<forall>h\<in>dom (objects s). unat h < unat (NEXT_HANDLE s))"

text \<open>
  What every operation guarantees of the objects that exist: they stay, with their type, and nobody gets a capability for one that
  nobody may share.
\<close>

definition evolves :: "kernel \<Rightarrow> kernel \<Rightarrow> bool" where
  "evolves s s' \<longleftrightarrow> unat (NEXT_HANDLE s) \<le> unat (NEXT_HANDLE s')
     \<and> (\<forall>h x. objects s h = Some x \<longrightarrow> (\<exists>y. objects s' h = Some y \<and> type_name y = type_name x))
     \<and> (\<forall>h. unat h < unat (NEXT_HANDLE s) \<longrightarrow> unshared h s \<longrightarrow> held h s' \<subseteq> held h s)"

lemma evolves_refl [simp]: "evolves s s"
  by (simp add: evolves_def)

lemma evolves_trans:
  assumes "evolves s t" "evolves t u"
  shows "evolves s u"
proof -
  have "held h u \<subseteq> held h s" if h: "unat h < unat (NEXT_HANDLE s)" "unshared h s" for h
  proof -
    have t: "held h t \<subseteq> held h s" using assms(1) h by (simp add: evolves_def)
    then have "unshared h t" using h(2) by (auto simp: unshared_def)
    then have "held h u \<subseteq> held h t" using assms h(1) by (simp add: evolves_def)
    with t show ?thesis by simp
  qed
  moreover have "\<exists>y. objects u h = Some y \<and> type_name y = type_name x" if "objects s h = Some x" for h x
    using assms that unfolding evolves_def by metis
  ultimately show ?thesis using assms by (auto simp: evolves_def)
qed

text \<open>Steps that touch neither objects nor capabilities, and steps that replace an object by one of its type.\<close>

lemma keep_registry:
  assumes "capabilities s' = capabilities s" "objects s' = objects s" "NEXT_HANDLE s' = NEXT_HANDLE s" "reg_inv s"
  shows "reg_inv s' \<and> evolves s s'"
proof -
  have "held h s' = held h s" for h by (simp add: held_def assms(1))
  then show ?thesis using assms by (simp add: reg_inv_def evolves_def)
qed

lemma set_object:
  assumes "reg_inv s" "objects s h = Some x" "type_name y = type_name x"
  shows "reg_inv (s\<lparr>objects := (objects s)(h \<mapsto> y)\<rparr>) \<and> evolves s (s\<lparr>objects := (objects s)(h \<mapsto> y)\<rparr>)"
proof -
  have "held k (s\<lparr>objects := (objects s)(h \<mapsto> y)\<rparr>) = held k s" for k by (simp add: held_def)
  then show ?thesis using assms by (auto simp: reg_inv_def evolves_def)
qed

lemma held_push: "held h (push_capability p c s) = held h s \<union> (if cap_handle c = h then {(p, c)} else {})"
  by (auto simp: held_def push_capability_def split: option.splits if_splits)

lemma push_capability_simps [simp]:
  "objects (push_capability p c s) = objects s" "NEXT_HANDLE (push_capability p c s) = NEXT_HANDLE s"
  by (simp_all add: push_capability_def)

lemma register_object_ok:
  assumes "reg_inv s" "unat (NEXT_HANDLE s) + 1 < 2 ^ 64" "register_object obj p r s = (h, s')"
  shows "reg_inv s' \<and> evolves s s'" "h = NEXT_HANDLE s" "objects s' h = Some obj"
proof -
  let ?c = "\<lparr>cap_handle = NEXT_HANDLE s, cap_rights = r, cap_owner = p\<rparr>"
  let ?s = "s\<lparr>NEXT_HANDLE := NEXT_HANDLE s + 1, objects := (objects s)(NEXT_HANDLE s \<mapsto> obj)\<rparr>"
  have s': "s' = push_capability p ?c ?s" and h: "h = NEXT_HANDLE s"
    using assms(3) by (auto simp: register_object_def ObjectHandle_new_def)
  show "h = NEXT_HANDLE s" "objects s' h = Some obj" by (simp_all add: s' h)
  have n: "unat (NEXT_HANDLE s + 1) = unat (NEXT_HANDLE s) + 1" using assms(2) by (simp add: unat_word_ariths)
  have "held k ?s = held k s" for k by (simp add: held_def)
  then have hk: "held k s' = held k s \<union> (if NEXT_HANDLE s = k then {(p, ?c)} else {})" for k by (simp add: s' held_push)
  have fresh: "NEXT_HANDLE s \<notin> dom (objects s)" using assms(1) by (auto simp: reg_inv_def)
  have o: "objects s' = (objects s)(NEXT_HANDLE s \<mapsto> obj)" "NEXT_HANDLE s' = NEXT_HANDLE s + 1" by (simp_all add: s')
  have "cap_owner c = q \<and> k \<in> dom (objects s')" if "(q, c) \<in> held k s'" for q c k
    using that assms(1) unfolding hk reg_inv_def o(1) by (cases "NEXT_HANDLE s = k") auto
  moreover have "unat k < unat (NEXT_HANDLE s')" if "k \<in> dom (objects s')" for k
  proof (cases "k = NEXT_HANDLE s")
    case False
    then have "unat k < unat (NEXT_HANDLE s)" using that assms(1) by (simp add: reg_inv_def o(1))
    then show ?thesis unfolding o(2) n by simp
  qed (simp add: o(2) n)
  ultimately have "reg_inv s'" unfolding reg_inv_def by blast
  moreover have "held k s' \<subseteq> held k s" if "unat k < unat (NEXT_HANDLE s)" for k using that unfolding hk by auto
  then have "evolves s s'"
    using fresh unfolding evolves_def o n by (auto simp: dom_def)
  ultimately show "reg_inv s' \<and> evolves s s'" ..
qed

lemma transfer_ok:
  assumes "reg_inv s" "transfer_capability h p q r s = (x, s')"
  shows "reg_inv s' \<and> evolves s s'"
proof (cases "s' = s")
  case False
  then obtain caps c where c: "capabilities s p = Some caps" "find (\<lambda>c. cap_handle c = h) caps = Some c" "has (cap_rights c) SHARE"
    and s': "s' = push_capability q \<lparr>cap_handle = h, cap_rights = r, cap_owner = q\<rparr> s"
    using assms(2) by (auto simp: transfer_capability_def split: option.splits if_splits)
  have "(p, c) \<in> held h s" using c(1,2) by (auto simp: held_def find_Some_iff)
  then have d: "h \<in> dom (objects s)" "\<not> unshared h s" using assms(1) c(3) by (auto simp: reg_inv_def unshared_def)
  have "cap_owner c = u \<and> k \<in> dom (objects s')" if "(u, c) \<in> held k s'" for u c k
    using that assms(1) d(1) unfolding s' held_push reg_inv_def by (cases "h = k") auto
  then have "reg_inv s'" using assms(1) unfolding reg_inv_def by (simp add: s')
  moreover have "evolves s s'" using d(2) by (auto simp: evolves_def s' held_push)
  ultimately show ?thesis ..
qed (use assms(1) in simp)

lemma remove_first_subset: "remove_first P xs = Some ys \<Longrightarrow> set ys \<subseteq> set xs"
  by (induction xs arbitrary: ys) (auto split: if_splits)

lemma revoke_ok:
  assumes "reg_inv s" "revoke_capability h p s = (x, s')"
  shows "reg_inv s' \<and> evolves s s'"
proof (cases "s' = s")
  case False
  then obtain caps caps' where c: "capabilities s p = Some caps" "remove_first (\<lambda>c. cap_handle c = h) caps = Some caps'"
      "s' = s\<lparr>capabilities := (capabilities s)(p \<mapsto> caps')\<rparr>"
    using assms(2) by (auto simp: revoke_capability_def split: option.splits if_splits)
  have sub: "held k s' \<subseteq> held k s" for k using c(1,3) remove_first_subset [OF c(2)] by (auto simp: held_def split: if_splits)
  have o: "objects s' = objects s" "NEXT_HANDLE s' = NEXT_HANDLE s" by (simp_all add: c(3))
  have "cap_owner c = q \<and> k \<in> dom (objects s')" if "(q, c) \<in> held k s'" for q c k
    using subsetD [OF sub that] assms(1) unfolding reg_inv_def o by metis
  then have "reg_inv s'" using assms(1) unfolding reg_inv_def o by simp
  moreover have "evolves s s'" unfolding evolves_def o using sub by simp
  ultimately show ?thesis ..
qed (use assms(1) in simp)

lemma deliver_ok:
  assumes "reg_inv s"
  shows "reg_inv (deliver_to_process e p s) \<and> evolves s (deliver_to_process e p s)"
  using assms set_object [OF assms] by (auto simp: deliver_to_process_def split: option.splits res.splits KernelObject.splits)

lemma deliver_all_ok:
  assumes "reg_inv s"
  shows "reg_inv (deliver_to_processes e ps s) \<and> evolves s (deliver_to_processes e ps s)"
  using assms
proof (induction ps arbitrary: s)
  case (Cons p ps)
  then show ?case
    using deliver_ok [OF Cons.prems, of e p] Cons.IH [of "deliver_to_process e p s"] evolves_trans by (fastforce simp: deliver_to_processes_def)
qed (simp add: deliver_to_processes_def)

lemma dispatch_ok:
  assumes "reg_inv s"
  shows "reg_inv (dispatch_event e s) \<and> evolves s (dispatch_event e s)"
proof -
  define s1 where "s1 = s\<lparr>event_counter := event_counter s + 1\<rparr>"
  define ts where "ts = map reg_process (filter (\<lambda>r. matches (event_types r) e) (streams s1))"
  define s2 where "s2 = s1\<lparr>pending_events := pending_events s1 @ [\<lparr>pe_event = e, target_processes = ts, timestamp = tick s1\<rparr>]\<rparr>"
  have s1: "reg_inv s1 \<and> evolves s s1" by (rule keep_registry [OF _ _ _ assms]) (simp_all add: s1_def)
  have s2: "reg_inv s2 \<and> evolves s s2" by (rule keep_registry [OF _ _ _ assms]) (simp_all add: s1_def s2_def)
  have d: "dispatch_event e s = (if ts \<noteq> [] then deliver_to_processes e ts s2 else s1)"
    by (simp add: dispatch_event_def Let_def s1_def s2_def ts_def)
  show ?thesis
    using s1 deliver_all_ok [OF conjunct1 [OF s2], of e ts] evolves_trans [OF conjunct2 [OF s2]] unfolding d by simp
qed

lemma pid_ok: "reg_inv s \<Longrightarrow> reg_inv (s\<lparr>NEXT_PID := n\<rparr>) \<and> evolves s (s\<lparr>NEXT_PID := n\<rparr>)"
  by (rule keep_registry) simp_all

lemma create_object_ok:
  assumes "reg_inv s" "unat (NEXT_HANDLE s) + 1 < 2 ^ 64" "sys_create_object frame s = (r, s')"
  shows "reg_inv s' \<and> evolves s s'"
proof -
  let ?s1 = "s\<lparr>NEXT_PID := NEXT_PID s + 1\<rparr>"
  note s1 = pid_ok [OF assms(1), of "NEXT_PID s + 1"]
  have n: "unat (NEXT_HANDLE ?s1) + 1 < 2 ^ 64" using assms(2) by simp
  have "s' = ?s1 \<or> (\<exists>obj p h. register_object obj p ALL_RIGHTS ?s1 = (h, s'))"
    using assms(3) by (auto simp: sys_create_object_def ProcessId_new_def Let_def bnd_def split: if_splits option.splits prod.splits res.splits)
  then show ?thesis
    using s1 register_object_ok(1) [OF conjunct1 [OF s1] n] evolves_trans [OF conjunct2 [OF s1]] by blast
qed

lemma call_object_ok:
  assumes "reg_inv s" "sys_call_object frame s = (r, s')"
  shows "reg_inv s' \<and> evolves s s'"
proof -
  let ?s1 = "s\<lparr>NEXT_PID := NEXT_PID s + 1\<rparr>"
  note s1 = pid_ok [OF assms(1), of "NEXT_PID s + 1"]
  show ?thesis
  proof (cases "s' = ?s1")
    case False
    then obtain h x y where "objects ?s1 h = Some (OSurface x)" "s' = ?s1\<lparr>objects := (objects ?s1)(h \<mapsto> OSurface y)\<rparr>"
      using assms(2) by (auto simp: sys_call_object_def ProcessId_new_def Let_def split: if_splits option.splits res.splits KernelObject.splits)
    then show ?thesis
      using set_object [OF conjunct1 [OF s1], of h "OSurface x" "OSurface y"] evolves_trans [OF conjunct2 [OF s1]] by simp
  qed (use s1 in simp)
qed

lemma handle_syscall_ok:
  assumes "reg_inv s" "unat (NEXT_HANDLE s) + 1 < 2 ^ 64" "handle_syscall VA umem frame s = (r, s')"
  shows "reg_inv s' \<and> evolves s s'"
proof (cases "syscall_number (rax frame)")
  case None
  then show ?thesis using assms by (simp add: handle_syscall_def)
next
  case (Some n)
  define call where "call = (case n of CreateObject \<Rightarrow> sys_create_object frame | GetObject \<Rightarrow> sys_get_object frame | CallObject \<Rightarrow> sys_call_object frame
     | TransferCapability \<Rightarrow> sys_transfer_capability frame | RevokeCapability \<Rightarrow> sys_revoke_capability frame | CreateProcess \<Rightarrow> sys_create_process frame
     | LoadElf \<Rightarrow> sys_load_elf VA umem frame | StartProcess \<Rightarrow> sys_start_process VA frame | Exit \<Rightarrow> sys_exit frame)"
  obtain x where x: "call s = (x, s')"
  proof -
    have "bnd call (\<lambda>result. ret (frame\<lparr>rax := result\<rparr>)) s = (r, s')" using assms(3) by (simp add: handle_syscall_def Some call_def)
    then show ?thesis using that unfolding bnd_def by (cases "call s"; cases "fst (call s)") auto
  qed
  show ?thesis
  proof (cases n)
    case CreateObject
    then show ?thesis using x create_object_ok [OF assms(1,2)] by (simp add: call_def)
  next
    case GetObject
    then show ?thesis using x pid_ok [OF assms(1)] by (auto simp: call_def sys_get_object_def ProcessId_new_def)
  next
    case CallObject
    then show ?thesis using x call_object_ok [OF assms(1)] by (simp add: call_def)
  next
    case TransferCapability
    then show ?thesis using x transfer_ok [OF assms(1)] by (auto simp: call_def sys_transfer_capability_def split: prod.splits)
  next
    case RevokeCapability
    then show ?thesis using x revoke_ok [OF assms(1)] by (auto simp: call_def sys_revoke_capability_def split: prod.splits)
  next
    case CreateProcess
    then show ?thesis using x pid_ok [OF assms(1)] by (auto simp: call_def sys_create_process_def ProcessId_new_def)
  next
    case LoadElf
    then have "s' = s" using x by (auto simp: call_def sys_load_elf_def split: if_splits res.splits)
    then show ?thesis using assms(1) by simp
  next
    case StartProcess
    then have "s' = s" using x by (cases "VA (rcx frame)") (auto simp: call_def sys_start_process_def bnd_def)
    then show ?thesis using assms(1) by simp
  next
    case Exit
    then show ?thesis using x assms(1) by (simp add: call_def sys_exit_def)
  qed
qed

lemma share_ok:
  assumes "reg_inv s" "unat (NEXT_HANDLE s) + 1 < 2 ^ 64" "share_buffer_with_process i p q s = (r, s')"
  shows "reg_inv s' \<and> evolves s s'"
proof -
  have g: "reg_inv (add_ref i s) \<and> evolves s (add_ref i s)" by (rule keep_registry [OF _ _ _ assms(1)]) (simp_all add: add_ref_def)
  have n: "unat (NEXT_HANDLE (add_ref i s)) + 1 < 2 ^ 64" using assms(2) by (simp add: add_ref_def)
  have "s' = s \<or> (\<exists>obj h. register_object obj p q (add_ref i s) = (h, s'))"
    using assms(3) by (auto simp: share_buffer_with_process_def get_buffer_def Let_def split: if_splits prod.splits)
  then show ?thesis
    using assms(1) register_object_ok(1) [OF conjunct1 [OF g] n] evolves_trans [OF conjunct2 [OF g]] by auto
qed


section \<open>Runs of the kernel\<close>

text \<open>
  The operations in any order, a system call with any outcome included. The counter of handles does not overflow in a run.
\<close>

inductive kstep :: "virt_new \<Rightarrow> (u64 \<Rightarrow> nat \<Rightarrow> bytes) \<Rightarrow> kernel \<Rightarrow> kernel \<Rightarrow> bool" for VA umem where
  syscall: "handle_syscall VA umem frame s = (r, s') \<Longrightarrow> unat (NEXT_HANDLE s) + 1 < 2 ^ 64 \<Longrightarrow> kstep VA umem s s'"
| share: "share_buffer_with_process i p q s = (x, s') \<Longrightarrow> unat (NEXT_HANDLE s) + 1 < 2 ^ 64 \<Longrightarrow> kstep VA umem s s'"
| create_dma: "create_dma_buffer PA sz s = (y, s') \<Longrightarrow> kstep VA umem s s'"
| map_dma: "map_buffer_to_userspace i s = (z, s') \<Longrightarrow> kstep VA umem s s'"
| free_dma: "kstep VA umem s (unregister_buffer i s)"
| dispatch: "kstep VA umem s (dispatch_event e s)"
| register: "kstep VA umem s (register_stream h p f s)"
| unregister: "kstep VA umem s (unregister_stream h p s)"
| pending: "kstep VA umem s (process_pending_events s)"
| clock: "kstep VA umem s (s\<lparr>tick := t\<rparr>)"

lemma kstep_ok:
  assumes "kstep VA umem s s'" "reg_inv s"
  shows "reg_inv s' \<and> evolves s s'"
  using assms
proof cases
  case (syscall frame r)
  then show ?thesis using handle_syscall_ok [OF assms(2)] by blast
next
  case (share i p q x)
  then show ?thesis using share_ok [OF assms(2)] by blast
next
  case (create_dma PA sz y)
  then show ?thesis
    by (intro keep_registry [OF _ _ _ assms(2)])
      (auto simp: create_dma_buffer_def DmaBuffer_new_def register_buffer_def bnd_def Let_def split: if_splits prod.splits res.splits)
next
  case (map_dma i z)
  then show ?thesis
    by (intro keep_registry [OF _ _ _ assms(2)]) (auto simp: map_buffer_to_userspace_def get_buffer_def add_ref_def split: if_splits)
next
  case (dispatch e)
  then show ?thesis using dispatch_ok [OF assms(2)] by simp
next
  case (free_dma i)
  then show ?thesis by (intro keep_registry [OF _ _ _ assms(2)]) (simp_all add: unregister_buffer_def)
next
  case (register h p f)
  then show ?thesis by (intro keep_registry [OF _ _ _ assms(2)]) (simp_all add: register_stream_def)
next
  case (unregister h p)
  then show ?thesis by (intro keep_registry [OF _ _ _ assms(2)]) (simp_all add: unregister_stream_def)
next
  case pending
  then show ?thesis by (intro keep_registry [OF _ _ _ assms(2)]) (simp_all add: process_pending_events_def)
next
  case (clock t)
  then show ?thesis by (intro keep_registry [OF _ _ _ assms(2)]) simp_all
qed

lemma ksteps_ok:
  assumes "(kstep VA umem)\<^sup>*\<^sup>* s s'" "reg_inv s"
  shows "reg_inv s' \<and> evolves s s'"
  using assms
proof (induction rule: rtranclp_induct)
  case (step y z)
  then show ?case using kstep_ok [OF step.hyps(2)] evolves_trans by blast
qed simp

lemma reg_inv_start: "reg_inv kernel_start"
  by (simp add: reg_inv_def kernel_start_def held_def)

section \<open>Delivery of an event\<close>

text \<open>
  The reference: process \<open>p\<close> gets its events in stream \<open>h\<close> if that is the first stream it registered and it may write to it; it
  gets one copy for every registration of its own, in whatever stream, that matches.
\<close>

definition receives :: "ProcessId \<Rightarrow> ObjectHandle \<Rightarrow> kernel \<Rightarrow> bool" where
  "receives p h s \<longleftrightarrow> (case find (\<lambda>r. reg_process r = p) (streams s) of None \<Rightarrow> False
     | Some r \<Rightarrow> stream_handle r = h \<and> get_object h p WRITE s = Ok h)"

definition copies :: "InputEvent \<Rightarrow> ObjectHandle \<Rightarrow> kernel \<Rightarrow> nat" where
  "copies e h s = length (filter (\<lambda>r. matches (event_types r) e \<and> receives (reg_process r) h s) (streams s))"

definition append_events :: "nat \<Rightarrow> InputEvent \<Rightarrow> KernelObject option \<Rightarrow> KernelObject option" where
  "append_events n e x = (case x of Some (OStream q) \<Rightarrow> Some (OStream (q @ replicate n e)) | _ \<Rightarrow> x)"

lemma append_events_simps [simp]:
  "append_events 0 e x = x" "append_events n e (append_events m e x) = append_events (m + n) e x"
  "append_events n e x = None \<longleftrightarrow> x = None"
  by (auto simp: append_events_def replicate_add split: option.splits KernelObject.splits)

lemma get_object_result: "get_object h p r s = Ok k \<Longrightarrow> k = h \<and> objects s h \<noteq> None"
  by (auto simp: get_object_def split: option.splits if_splits)

lemma get_object_same:
  assumes "capabilities t = capabilities s" "\<And>j. objects t j = None \<longleftrightarrow> objects s j = None"
  shows "get_object h p r t = Ok k \<longleftrightarrow> get_object h p r s = Ok k"
  using assms(2) [of h] by (auto simp: get_object_def assms(1) split: option.splits)

lemma deliver_effect:
  "objects (deliver_to_process e p s) h = append_events (if receives p h s then 1 else 0) e (objects s h)"
  "receives q k (deliver_to_process e p s) = receives q k s"
proof -
  let ?s = "deliver_to_process e p s"
  have same: "capabilities ?s = capabilities s" "streams ?s = streams s" "objects ?s j = None \<longleftrightarrow> objects s j = None" for j
    by (auto simp: deliver_to_process_def split: option.splits res.splits KernelObject.splits)
  show "receives q k ?s = receives q k s"
    by (simp add: receives_def get_object_same [of ?s s, OF same(1,3)] same(2) split: option.split)
  show "objects ?s h = append_events (if receives p h s then 1 else 0) e (objects s h)"
    by (auto simp: deliver_to_process_def receives_def append_events_def push_event_def
        dest: get_object_result split: option.splits res.splits KernelObject.splits)
qed

lemma deliver_all_effect:
  "objects (deliver_to_processes e ps s) h = append_events (length (filter (\<lambda>p. receives p h s) ps)) e (objects s h)"
proof (induction ps arbitrary: s)
  case (Cons p ps)
  have "objects (deliver_to_processes e (p # ps) s) h = objects (deliver_to_processes e ps (deliver_to_process e p s)) h"
    by (simp add: deliver_to_processes_def)
  also have "\<dots> = append_events (length (filter (\<lambda>p. receives p h s) ps)) e (append_events (if receives p h s then 1 else 0) e (objects s h))"
    using Cons.IH [of "deliver_to_process e p s"] by (simp add: deliver_effect)
  finally show ?case by simp
qed (simp add: deliver_to_processes_def)


section \<open>Properties\<close>

definition regs_of :: "u64 \<Rightarrow> u64 \<Rightarrow> u64 \<Rightarrow> u64 \<Rightarrow> u64 \<Rightarrow> SyscallFrame" where
  "regs_of a b c d e = \<lparr>rax = a, rbx = b, rcx = c, rdx = d, rsi = e, rdi = 0, r8 = 0, r9 = 0, r10 = 0, r11 = 0, rsp = 0, rbp = 0\<rparr>"

definition syscall_on :: "SyscallFrame \<Rightarrow> kernel \<Rightarrow> kernel" where
  "syscall_on frame s = snd (handle_syscall Ok (\<lambda>_ _. []) frame s)"

lemma syscall_on_step: "unat (NEXT_HANDLE s) + 1 < 2 ^ 64 \<Longrightarrow> kstep Ok (\<lambda>_ _. []) s (syscall_on frame s)"
  unfolding syscall_on_def by (cases "handle_syscall Ok (\<lambda>_ _. []) frame s") (auto intro: kstep.syscall)

lemmas syscall_simps = syscall_on_def regs_of_def handle_syscall_def syscall_number_def sys_create_object_def sys_transfer_capability_def
  sys_revoke_capability_def transfer_capability_def revoke_capability_def register_object_def push_capability_def ProcessId_new_def
  ObjectHandle_new_def kernel_start_def bnd_def has_def ALL_RIGHTS_def SHARE_def U64_MAX_def

text \<open>
  C8: Handles are typed references. In every run of the kernel from its start, whatever system calls, events and DMA operations occur, an
  object that exists stays, with the type it was created with; every capability is filed under its owner and names an
  existing object, so that a lookup never ends with \<^verbatim>\<open>ObjectNotFound\<close>.
\<close>

theorem object_types_stable:
  assumes "(kstep VA umem)\<^sup>*\<^sup>* kernel_start s" "(kstep VA umem)\<^sup>*\<^sup>* s s'"
  shows "reg_inv s' \<and> get_object h p r s' \<noteq> Err ObjectNotFound
     \<and> (\<forall>x. objects s h = Some x \<longrightarrow> (\<exists>y. objects s' h = Some y \<and> type_name y = type_name x))"
proof -
  have s: "reg_inv s" using ksteps_ok [OF assms(1) reg_inv_start] by simp
  have s': "reg_inv s'" "evolves s s'" using ksteps_ok [OF assms(2) s] by simp_all
  have "get_object h p r s' \<noteq> Err ObjectNotFound"
  proof
    assume "get_object h p r s' = Err ObjectNotFound"
    then obtain caps c where "capabilities s' p = Some caps" "find (\<lambda>c. cap_handle c = h) caps = Some c" "objects s' h = None"
      by (auto simp: get_object_def split: option.splits if_splits)
    then have "(p, c) \<in> held h s'" "h \<notin> dom (objects s')" by (auto simp: held_def find_Some_iff)
    then show False using s'(1) by (auto simp: reg_inv_def)
  qed
  then show ?thesis using s' by (auto simp: evolves_def)
qed

theorem object_types_stable_witness:
  "\<exists>y. objects (syscall_on (regs_of 0 0 64 64 0) (syscall_on (regs_of 0 2 0 0 0) kernel_start)) 1 = Some y \<and> type_name y = ''EventStream''"
proof -
  let ?s = "syscall_on (regs_of 0 2 0 0 0) kernel_start"
  have 1: "kstep Ok (\<lambda>_ _. []) kernel_start ?s" by (rule syscall_on_step) (simp add: kernel_start_def)
  have 2: "kstep Ok (\<lambda>_ _. []) ?s (syscall_on (regs_of 0 0 64 64 0) ?s)" by (rule syscall_on_step) (simp add: syscall_simps)
  have "objects ?s 1 = Some (OStream [])" by (simp add: syscall_simps)
  with object_types_stable [of Ok "\<lambda>_ _. []" ?s "syscall_on (regs_of 0 0 64 64 0) ?s" 1]
  show ?thesis using r_into_rtranclp [where r = "kstep Ok (\<lambda>_ _. [])", OF 1] r_into_rtranclp [where r = "kstep Ok (\<lambda>_ _. [])", OF 2] by simp
qed

text \<open>
  C9: Confinement. If no capability for an object carries the right to share, then in every later run of the kernel the holders of
  capabilities for it can only become fewer: no sequence of system calls creates a capability for it, changes one, or
  hands one on.
\<close>

theorem unshared_objects_confined:
  assumes "(kstep VA umem)\<^sup>*\<^sup>* kernel_start s" "(kstep VA umem)\<^sup>*\<^sup>* s s'" "h \<in> dom (objects s)" "unshared h s"
  shows "held h s' \<subseteq> held h s"
proof -
  have s: "reg_inv s" using ksteps_ok [OF assms(1) reg_inv_start] by simp
  then have "unat h < unat (NEXT_HANDLE s)" using assms(3) by (auto simp: reg_inv_def)
  then show ?thesis using ksteps_ok [OF assms(2) s] assms(4) by (simp add: evolves_def)
qed

theorem unshared_objects_confined_witness:
  "held 1 (syscall_on (regs_of 3 1 7 8 READ) (syscall_on (regs_of 4 1 1 0 0) (syscall_on (regs_of 3 1 1 7 READ) (syscall_on (regs_of 0 2 0 0 0) kernel_start))))
     \<subseteq> {(7, \<lparr>cap_handle = 1, cap_rights = READ, cap_owner = 7\<rparr>)}"
proof -
  let ?a = "syscall_on (regs_of 0 2 0 0 0) kernel_start"
  let ?b = "syscall_on (regs_of 3 1 1 7 READ) ?a"
  let ?c = "syscall_on (regs_of 4 1 1 0 0) ?b"
  have n: "NEXT_HANDLE kernel_start = 1" "NEXT_HANDLE ?a = 2" "NEXT_HANDLE ?b = 2" "NEXT_HANDLE ?c = 2" by (simp_all add: syscall_simps)
  have "(kstep Ok (\<lambda>_ _. []))\<^sup>*\<^sup>* kernel_start ?c"
    using syscall_on_step [of kernel_start "regs_of 0 2 0 0 0"] syscall_on_step [of ?a "regs_of 3 1 1 7 READ"] syscall_on_step [of ?b "regs_of 4 1 1 0 0"]
    by (simp add: n)
  moreover have "(kstep Ok (\<lambda>_ _. []))\<^sup>*\<^sup>* ?c (syscall_on (regs_of 3 1 7 8 READ) ?c)"
    using syscall_on_step [of ?c] by (simp add: n r_into_rtranclp)
  moreover have h: "held 1 ?c = {(7, \<lparr>cap_handle = 1, cap_rights = READ, cap_owner = 7\<rparr>)}" "1 \<in> dom (objects ?c)"
    by (auto simp: held_def syscall_simps split: if_splits)
  moreover have "unshared 1 ?c" unfolding unshared_def h by (simp add: has_def READ_def SHARE_def)
  ultimately show ?thesis using unshared_objects_confined [of Ok "\<lambda>_ _. []" ?c] by metis
qed

text \<open>
  C11: Every system call acts under a fresh process identifier. Unless a capability has been planted for an identifier that is not yet in use,
  \<^verbatim>\<open>sys_get_object\<close> always fails, \<^verbatim>\<open>sys_call_object\<close> always fails and changes no object; an object that \<^verbatim>\<open>sys_create_object\<close> has just made is
  out of reach for its creator.
\<close>

theorem syscalls_use_fresh_identity:
  assumes "\<And>p. unat (NEXT_PID s) \<le> unat p \<Longrightarrow> capabilities s p = None" "unat (NEXT_PID s) + 1 < 2 ^ 64"
  shows "fst (sys_get_object frame s) = Ok 1 \<and> fst (sys_call_object frame s) = Ok U64_MAX \<and> objects (snd (sys_call_object frame s)) = objects s
     \<and> fst (sys_get_object frame (snd (sys_create_object frame' s))) = Ok 1
     \<and> fst (sys_call_object frame (snd (sys_create_object frame' s))) = Ok U64_MAX"
proof -
  have get: "get_object h (NEXT_PID t) r (t\<lparr>NEXT_PID := NEXT_PID t + 1\<rparr>) = Err ProcessNotFound" if "capabilities t (NEXT_PID t) = None" for h r t
    using that by (simp add: get_object_def)
  have call: "fst (sys_get_object frame t) = Ok 1 \<and> fst (sys_call_object frame t) = Ok U64_MAX \<and> objects (snd (sys_call_object frame t)) = objects t"
    if "capabilities t (NEXT_PID t) = None" for t
    using get [OF that] by (simp add: sys_get_object_def sys_call_object_def ProcessId_new_def)
  let ?t = "snd (sys_create_object frame' s)"
  have "unat (NEXT_PID s + 1) = unat (NEXT_PID s) + 1" using assms(2) by (simp add: unat_word_ariths)
  then have "capabilities s (NEXT_PID s + 1) = None" "NEXT_PID s + 1 \<noteq> NEXT_PID s" using assms(1) by auto
  then have "capabilities ?t (NEXT_PID ?t) = None"
    by (auto simp: sys_create_object_def ProcessId_new_def register_object_def ObjectHandle_new_def push_capability_def Let_def bnd_def
        split: option.splits res.splits)
  with call [of s] call [of ?t] assms(1) show ?thesis by simp
qed

theorem syscalls_use_fresh_identity_witness:
  "fst (sys_create_object (regs_of 0 2 0 0 0) kernel_start) = Ok 1
     \<and> fst (sys_call_object (regs_of 2 1 0 0 0) (snd (sys_create_object (regs_of 0 2 0 0 0) kernel_start))) = Ok U64_MAX"
proof -
  have "fst (sys_create_object (regs_of 0 2 0 0 0) kernel_start) = Ok 1" by (simp add: syscall_simps)
  moreover have "capabilities kernel_start p = None" "unat (NEXT_PID kernel_start) + 1 < 2 ^ 64" for p by (simp_all add: kernel_start_def)
  ultimately show ?thesis using syscalls_use_fresh_identity [of kernel_start] by simp
qed

text \<open>
  C10: The nested loops of \<^verbatim>\<open>dispatch_event\<close> and \<^verbatim>\<open>deliver_to_processes\<close> are equivalent to a direct description: all copies that a process gets of
  an event go to the first stream it ever registered, one for every registration of the process that matches. A second
  stream of a process stays empty, and the first receives events its filter excludes.
\<close>

theorem dispatch_event_effect:
  "objects (dispatch_event e s) h = append_events (copies e h s) e (objects s h)"
proof -
  have r: "receives p h (s\<lparr>event_counter := c, pending_events := x\<rparr>) = receives p h s" for p c x
    by (simp add: receives_def get_object_def split: option.split)
  let ?rs = "filter (\<lambda>r. matches (event_types r) e) (streams s)"
  have c: "copies e h s = length (filter (\<lambda>p. receives p h s) (map reg_process ?rs))"
    by (simp add: copies_def filter_map comp_def conj_commute)
  show ?thesis
  proof (cases "?rs = []")
    case True
    then show ?thesis using c by (simp add: dispatch_event_def)
  next
    case False
    then show ?thesis unfolding c by (simp add: dispatch_event_def Let_def deliver_all_effect r)
  qed
qed

end
