(* ===== verification/Process_Scheduler.thy ===== *)
theory Process_Scheduler
  imports Kernel_Objects "HOL-Library.Multiset"
begin

text \<open>
  The process scheduler, \<^verbatim>\<open>crates/lib_kernel/src/scheduler\<close>: processes (\<^verbatim>\<open>process.rs\<close>), the run queue of a processor with its
  policies (\<^verbatim>\<open>cpu.rs\<close>), and the scheduler over all processors (\<^verbatim>\<open>mod.rs\<close>). A process is referred to by its identifier. The
  mutexes of a run queue are part of the state, because the code takes some of them twice: the mutex of the \<^verbatim>\<open>spin\<close> crate is a
  parameter, and a call of \<^verbatim>\<open>lock\<close> that never returns is the outcome \<open>Err Deadlock\<close>.
\<close>

section \<open>Processes\<close>

datatype SchedulingPolicy = RoundRobin | PriorityBased | RealTime
datatype ProcessState = Ready | Running | Blocked | Zombie
datatype SchedulerError = SOutOfMemory | InvalidCpuId | SProcessNotFound | InvalidState
datatype BlockReason = IoWait | MutexWait | SemaphoreWait | Sleep | PageFault | IpcWait
datatype FileResource = Console | Framebuffer | Socket | SharedMemory

text \<open>How a call can end without a value: it never returns, or it reports an error of the scheduler.\<close>

datatype sched_stop = Deadlock | Failed SchedulerError

record ProcessContext =
  c_rax :: u64
  c_rbx :: u64
  c_rcx :: u64
  c_rdx :: u64
  c_rsi :: u64
  c_rdi :: u64
  c_rbp :: u64
  c_rsp :: u64
  c_r8 :: u64
  c_r9 :: u64
  c_r10 :: u64
  c_r11 :: u64
  c_r12 :: u64
  c_r13 :: u64
  c_r14 :: u64
  c_r15 :: u64
  c_rip :: u64
  c_rflags :: u64
  c_cr3 :: u64

definition ProcessContext_new :: "u64 \<Rightarrow> u64 \<Rightarrow> u64 \<Rightarrow> ProcessContext" where
  "ProcessContext_new entry_point stack_pointer page_table =
     \<lparr>c_rax = 0, c_rbx = 0, c_rcx = 0, c_rdx = 0, c_rsi = 0, c_rdi = 0, c_rbp = stack_pointer, c_rsp = stack_pointer,
      c_r8 = 0, c_r9 = 0, c_r10 = 0, c_r11 = 0, c_r12 = 0, c_r13 = 0, c_r14 = 0, c_r15 = 0,
      c_rip = entry_point, c_rflags = 0x200, c_cr3 = page_table\<rparr>"

record FileDescriptor =
  fd_number :: u32
  fd_flags :: u32
  fd_offset :: u64
  fd_resource :: FileResource

record Process =
  p_id :: ProcessId
  p_context :: ProcessContext
  p_state :: ProcessState
  p_priority :: u8
  assigned_cpu :: nat
  creation_time :: u64
  total_runtime :: u64
  last_scheduled :: u64
  p_page_table :: u64
  stack_base :: u64
  heap_base :: u64
  p_name :: bytes
  parent_pid :: "ProcessId option"
  exit_code :: "i32 option"
  block_reason :: "BlockReason option"
  capability_table :: "Capability list"
  file_descriptors :: "FileDescriptor option list"
  p_context_switches :: u64
  page_faults :: u64
  syscalls :: u64

text \<open>Decimal digits, as \<^verbatim>\<open>format!\<close> prints them.\<close>

fun decimal :: "nat \<Rightarrow> bytes" where
  "decimal n = (if n < 10 then [48 + of_nat n] else decimal (n div 10) @ [48 + of_nat (n mod 10)])"

declare decimal.simps [simp del]

definition process_name :: "ProcessId \<Rightarrow> bytes" where
  "process_name i =
     (let name_bytes = [112, 114, 111, 99, 101, 115, 115, 95] @ decimal (unat i); n = min (length name_bytes) 31
      in take n name_bytes @ replicate (32 - n) 0)"

text \<open>
  \<open>VA\<close> and \<open>PA\<close> are \<^verbatim>\<open>VirtAddr::new\<close> and \<^verbatim>\<open>PhysAddr::new\<close> of the \<^verbatim>\<open>x86_64\<close> crate, which panic on an address that is not
  canonical. The clock and the counter of process identifiers belong to the kernel state.
\<close>

type_synonym addr_new = "u64 \<Rightarrow> (sched_stop, u64) res"

definition allocate_page_table :: "addr_new \<Rightarrow> (sched_stop, u64) res" where
  "allocate_page_table PA = PA 0x1000"

definition Process_new :: "addr_new \<Rightarrow> addr_new \<Rightarrow> u64 \<Rightarrow> u8 \<Rightarrow> (kernel, sched_stop, Process) prog" where
  "Process_new VA PA entry_point priority = (\<lambda>k. let (i, k1) = ProcessId_new k in
     (bind_res (allocate_page_table PA) (\<lambda>pt. bind_res (VA 0x7FFFFF000000) (\<lambda>stack. bind_res (VA 0x10000000) (\<lambda>heap.
        Ok \<lparr>p_id = i, p_context = ProcessContext_new entry_point stack pt, p_state = Ready, p_priority = priority, assigned_cpu = 0,
            creation_time = tick k1, total_runtime = 0, last_scheduled = 0, p_page_table = pt, stack_base = stack, heap_base = heap,
            p_name = process_name i, parent_pid = None, exit_code = None, block_reason = None, capability_table = [],
            file_descriptors = [], p_context_switches = 0, page_faults = 0, syscalls = 0\<rparr>))), k1))"

definition set_state :: "ProcessState \<Rightarrow> Process \<Rightarrow> Process" where
  "set_state st p = p\<lparr>p_state := st\<rparr>"

definition set_assigned_cpu :: "nat \<Rightarrow> Process \<Rightarrow> Process" where
  "set_assigned_cpu c p = p\<lparr>assigned_cpu := c\<rparr>"

definition set_priority :: "u8 \<Rightarrow> Process \<Rightarrow> Process" where
  "set_priority pr p = p\<lparr>p_priority := pr\<rparr>"

definition set_block_reason :: "BlockReason option \<Rightarrow> Process \<Rightarrow> Process" where
  "set_block_reason r p = p\<lparr>block_reason := r\<rparr>"

definition set_exit_code :: "i32 option \<Rightarrow> Process \<Rightarrow> Process" where
  "set_exit_code c p = p\<lparr>exit_code := c\<rparr>"

definition increment_context_switches :: "Process \<Rightarrow> Process" where
  "increment_context_switches p = p\<lparr>p_context_switches := p_context_switches p + 1\<rparr>"

definition increment_page_faults :: "Process \<Rightarrow> Process" where
  "increment_page_faults p = p\<lparr>page_faults := page_faults p + 1\<rparr>"

definition increment_syscalls :: "Process \<Rightarrow> Process" where
  "increment_syscalls p = p\<lparr>syscalls := syscalls p + 1\<rparr>"

definition update_runtime :: "u64 \<Rightarrow> Process \<Rightarrow> Process" where
  "update_runtime ticks p = p\<lparr>total_runtime := total_runtime p + ticks, last_scheduled := ticks\<rparr>"

definition add_capability :: "Capability \<Rightarrow> Process \<Rightarrow> Process" where
  "add_capability c p = p\<lparr>capability_table := capability_table p @ [c]\<rparr>"

definition has_capability :: "ObjectHandle \<Rightarrow> Rights \<Rightarrow> Process \<Rightarrow> bool" where
  "has_capability h r p \<longleftrightarrow> list_ex (\<lambda>c. cap_handle c = h \<and> has (cap_rights c) r) (capability_table p)"

definition allocate_fd :: "FileResource \<Rightarrow> Process \<Rightarrow> u32 \<times> Process" where
  "allocate_fd resource p =
     (let fd_num = of_nat (length (file_descriptors p))
      in (fd_num, p\<lparr>file_descriptors := file_descriptors p @ [Some \<lparr>fd_number = fd_num, fd_flags = 0, fd_offset = 0, fd_resource = resource\<rparr>]\<rparr>))"

definition get_fd :: "u32 \<Rightarrow> Process \<Rightarrow> FileDescriptor option" where
  "get_fd fd p = (if unat fd < length (file_descriptors p) then file_descriptors p ! unat fd else None)"

definition close_fd :: "u32 \<Rightarrow> Process \<Rightarrow> Process" where
  "close_fd fd p = p\<lparr>file_descriptors := (file_descriptors p)[unat fd := None]\<rparr>"


section \<open>Run queues\<close>

text \<open>
  The \<^verbatim>\<open>spin\<close> crate: a mutex has a state, \<open>lock\<close> gives the state in which it is held, or nothing if it does not return as long as no other
  processor releases it, and \<open>unlock\<close> is what dropping the guard does.
\<close>

record 'm spin =
  fresh :: 'm
  lock :: "'m \<Rightarrow> 'm option"
  unlock :: "'m \<Rightarrow> 'm"

text \<open>The four queues \<^verbatim>\<open>ready_queue\<close>, \<^verbatim>\<open>high_priority_queue\<close>, \<^verbatim>\<open>normal_priority_queue\<close> and \<^verbatim>\<open>low_priority_queue\<close>, and the mutexes around them and around \<^verbatim>\<open>current_process\<close>.\<close>

datatype level = ReadyLevel | High | Normal | Low
datatype mutex = Queue level | Current

record 'm CpuRunQueue =
  cpu_id :: nat
  queues :: "level \<Rightarrow> ProcessId list"
  current_process :: "ProcessId option"
  mutexes :: "mutex \<Rightarrow> 'm"
  load_average :: u32
  context_switches :: u64
  idle_ticks :: u64
  active_ticks :: u64
  last_tick :: u64

definition CpuRunQueue_new :: "'m spin \<Rightarrow> nat \<Rightarrow> 'm CpuRunQueue" where
  "CpuRunQueue_new S c = \<lparr>cpu_id = c, queues = (\<lambda>_. []), current_process = None, mutexes = (\<lambda>_. fresh S), load_average = 0,
     context_switches = 0, idle_ticks = 0, active_ticks = 0, last_tick = 0\<rparr>"

text \<open>An operation on a run queue works on the queue and on the processes the references lead to.\<close>

type_synonym process_store = "ProcessId \<Rightarrow> Process"
type_synonym ('m, 'a) rq = "('m CpuRunQueue \<times> process_store, sched_stop, 'a) prog"

definition rq_get :: "('m CpuRunQueue \<Rightarrow> 'a) \<Rightarrow> ('m, 'a) rq" where
  "rq_get f = (\<lambda>(q, st). (Ok (f q), (q, st)))"

definition rq_mod :: "('m CpuRunQueue \<Rightarrow> 'm CpuRunQueue) \<Rightarrow> ('m, unit) rq" where
  "rq_mod f = (\<lambda>(q, st). (Ok (), (f q, st)))"

definition of_process :: "ProcessId \<Rightarrow> (Process \<Rightarrow> 'a) \<Rightarrow> ('m, 'a) rq" where
  "of_process p f = (\<lambda>(q, st). (Ok (f (st p)), (q, st)))"

definition on_process :: "ProcessId \<Rightarrow> (Process \<Rightarrow> Process) \<Rightarrow> ('m, unit) rq" where
  "on_process p f = (\<lambda>(q, st). (Ok (), (q, st(p := f (st p)))))"

definition acquire :: "'m spin \<Rightarrow> mutex \<Rightarrow> ('m, unit) rq" where
  "acquire S m = (\<lambda>(q, st). case lock S (mutexes q m) of
       None \<Rightarrow> (Err Deadlock, (q, st))
     | Some g \<Rightarrow> (Ok (), (q\<lparr>mutexes := (mutexes q)(m := g)\<rparr>, st)))"

definition release :: "'m spin \<Rightarrow> mutex \<Rightarrow> ('m, unit) rq" where
  "release S m = rq_mod (\<lambda>q. q\<lparr>mutexes := (mutexes q)(m := unlock S (mutexes q m))\<rparr>)"

text \<open>The scope of a guard.\<close>

definition locked :: "'m spin \<Rightarrow> mutex \<Rightarrow> ('m, 'a) rq \<Rightarrow> ('m, 'a) rq" where
  "locked S m body = bnd (acquire S m) (\<lambda>_. bnd body (\<lambda>x. bnd (release S m) (\<lambda>_. ret x)))"

definition push_back :: "level \<Rightarrow> ProcessId \<Rightarrow> ('m, unit) rq" where
  "push_back l p = rq_mod (\<lambda>q. q\<lparr>queues := (queues q)(l := queues q l @ [p])\<rparr>)"

definition pop_front :: "level \<Rightarrow> ('m, ProcessId option) rq" where
  "pop_front l = (\<lambda>(q, st). case queues q l of
       [] \<Rightarrow> (Ok None, (q, st))
     | p # ps \<Rightarrow> (Ok (Some p), (q\<lparr>queues := (queues q)(l := ps)\<rparr>, st)))"

definition len_of :: "'m spin \<Rightarrow> level \<Rightarrow> ('m, nat) rq" where
  "len_of S l = locked S (Queue l) (rq_get (\<lambda>q. length (queues q l)))"

definition is_busy :: "'m CpuRunQueue \<Rightarrow> bool" where
  "is_busy q \<longleftrightarrow> current_process q \<noteq> None"

definition update_load :: "'m spin \<Rightarrow> ('m, unit) rq" where
  "update_load S =
     bnd (len_of S High) (\<lambda>high_count.
     bnd (len_of S Normal) (\<lambda>normal_count.
     bnd (len_of S Low) (\<lambda>low_count.
     bnd (len_of S ReadyLevel) (\<lambda>ready_count.
     bnd (locked S Current (rq_get is_busy)) (\<lambda>busy.
       rq_mod (\<lambda>q. q\<lparr>load_average := of_nat (high_count + normal_count + low_count + ready_count + (if busy then 1 else 0))\<rparr>))))))"

definition level_of :: "u8 \<Rightarrow> level" where
  "level_of pr = (if pr \<le> 63 then Low else if pr \<le> 127 then Normal else High)"

definition add_process :: "'m spin \<Rightarrow> ProcessId \<Rightarrow> ('m, unit) rq" where
  "add_process S p =
     bnd (rq_get cpu_id) (\<lambda>c.
     bnd (on_process p (set_assigned_cpu c)) (\<lambda>_.
     bnd (of_process p p_priority) (\<lambda>pr.
     bnd (locked S (Queue (level_of pr)) (push_back (level_of pr) p)) (\<lambda>_.
       update_load S))))"

definition remove_from :: "'m spin \<Rightarrow> level \<Rightarrow> ProcessId \<Rightarrow> ('m, bool) rq" where
  "remove_from S l pid = locked S (Queue l) (\<lambda>(q, st).
     if pid \<in> set (queues q l) then (Ok True, (q\<lparr>queues := (queues q)(l := remove1 pid (queues q l))\<rparr>, st))
     else (Ok False, (q, st)))"

text \<open>The guard of \<^verbatim>\<open>current_process\<close> lives until the end of the function.\<close>

definition remove_process :: "'m spin \<Rightarrow> ProcessId \<Rightarrow> ('m, bool) rq" where
  "remove_process S pid =
     bnd (remove_from S ReadyLevel pid) (\<lambda>a.
     bnd (remove_from S High pid) (\<lambda>b.
     bnd (remove_from S Normal pid) (\<lambda>c.
     bnd (remove_from S Low pid) (\<lambda>d.
     locked S Current (
       bnd (\<lambda>(q, st). if current_process q = Some pid then (Ok True, (q\<lparr>current_process := None\<rparr>, st)) else (Ok False, (q, st))) (\<lambda>e.
       let removed = (a \<or> b \<or> c \<or> d \<or> e) in
       if removed then bnd (update_load S) (\<lambda>_. ret removed) else ret removed))))))"

definition take_current :: "('m, ProcessId option) rq" where
  "take_current = (\<lambda>(q, st). (Ok (current_process q), (q\<lparr>current_process := None\<rparr>, st)))"

definition preempt_current :: "'m spin \<Rightarrow> ('m, unit) rq" where
  "preempt_current S = locked S Current (
     bnd take_current (\<lambda>c. case c of None \<Rightarrow> ret () | Some p \<Rightarrow>
     bnd (of_process p p_state) (\<lambda>st.
       if st = Running then bnd (on_process p (set_state Ready)) (\<lambda>_. add_process S p) else ret ())))"

definition age_processes :: "'m spin \<Rightarrow> ('m, unit) rq" where
  "age_processes S = locked S (Queue Low) (locked S (Queue Normal) (
     bnd (rq_get last_tick) (\<lambda>t.
       if t mod 100 = 0 then bnd (pop_front Low) (\<lambda>x. case x of None \<Rightarrow> ret () | Some p \<Rightarrow> push_back Normal p)
       else ret ())))"

definition CpuRunQueue_timer_tick :: "'m spin \<Rightarrow> u64 \<Rightarrow> ('m, unit) rq" where
  "CpuRunQueue_timer_tick S t =
     bnd (rq_mod (\<lambda>q. q\<lparr>last_tick := t\<rparr>)) (\<lambda>_.
     bnd (locked S Current (rq_get is_busy)) (\<lambda>busy.
     bnd (rq_mod (\<lambda>q. if busy then q\<lparr>active_ticks := active_ticks q + 1\<rparr> else q\<lparr>idle_ticks := idle_ticks q + 1\<rparr>)) (\<lambda>_.
       age_processes S)))"

text \<open>
  In \<^verbatim>\<open>if let Some(process) = self.low_priority_queue.lock().pop_front() { .. }\<close> the guard lives until the end of the statement, the block
  included.
\<close>

definition steal_from :: "'m spin \<Rightarrow> level \<Rightarrow> ('m, ProcessId option) rq \<Rightarrow> ('m, ProcessId option) rq" where
  "steal_from S l next =
     bnd (locked S (Queue l) (bnd (pop_front l) (\<lambda>x. case x of
       None \<Rightarrow> ret None
     | Some p \<Rightarrow> bnd (update_load S) (\<lambda>_. ret (Some p))))) (\<lambda>x. case x of None \<Rightarrow> next | Some p \<Rightarrow> ret (Some p))"

definition steal_process :: "'m spin \<Rightarrow> ('m, ProcessId option) rq" where
  "steal_process S = steal_from S Low (steal_from S Normal (steal_from S High (ret None)))"

definition get_load :: "'m CpuRunQueue \<Rightarrow> u32" where
  "get_load q = load_average q"

definition get_context_switches :: "'m CpuRunQueue \<Rightarrow> u64" where
  "get_context_switches q = context_switches q"


section \<open>Policies\<close>

definition pop_locked :: "'m spin \<Rightarrow> level \<Rightarrow> ('m, ProcessId option) rq" where
  "pop_locked S l = locked S (Queue l) (pop_front l)"

definition or_else :: "('m, ProcessId option) rq \<Rightarrow> ('m, ProcessId option) rq \<Rightarrow> ('m, ProcessId option) rq" where
  "or_else m next = bnd m (\<lambda>x. case x of None \<Rightarrow> next | Some p \<Rightarrow> ret (Some p))"

definition get_next_ready_process :: "'m spin \<Rightarrow> ('m, ProcessId option) rq" where
  "get_next_ready_process S =
     or_else (pop_locked S High) (or_else (pop_locked S Normal) (or_else (pop_locked S Low) (pop_locked S ReadyLevel)))"

definition is_running :: "ProcessId option \<Rightarrow> ('m, bool) rq" where
  "is_running c = (case c of None \<Rightarrow> ret False | Some p \<Rightarrow> of_process p (\<lambda>x. p_state x = Running))"

definition start_running :: "ProcessId \<Rightarrow> ('m, unit) rq" where
  "start_running p = bnd (on_process p (set_state Running)) (\<lambda>_. on_process p increment_context_switches)"

definition set_current :: "ProcessId \<Rightarrow> ('m, unit) rq" where
  "set_current p = rq_mod (\<lambda>q. q\<lparr>current_process := Some p\<rparr>)"

definition count_switch :: "('m, unit) rq" where
  "count_switch = rq_mod (\<lambda>q. q\<lparr>context_switches := context_switches q + 1\<rparr>)"

definition round_robin_schedule :: "'m spin \<Rightarrow> ('m, ProcessId option) rq" where
  "round_robin_schedule S = locked S Current (
     bnd (rq_get current_process) (\<lambda>c.
     bnd (is_running c) (\<lambda>b. if b then ret c else
     bnd (get_next_ready_process S) (\<lambda>next. case next of None \<Rightarrow> ret None | Some p \<Rightarrow>
     bnd (start_running p) (\<lambda>_.
     bnd (set_current p) (\<lambda>_.
     bnd count_switch (\<lambda>_.
       ret next)))))))"

definition run_first :: "'m spin \<Rightarrow> level \<Rightarrow> ('m, ProcessId option) rq" where
  "run_first S l = locked S (Queue l) (bnd (pop_front l) (\<lambda>x. case x of None \<Rightarrow> ret None | Some p \<Rightarrow>
     bnd (start_running p) (\<lambda>_.
     bnd (locked S Current (set_current p)) (\<lambda>_.
     bnd count_switch (\<lambda>_.
       ret (Some p))))))"

definition priority_schedule :: "'m spin \<Rightarrow> ('m, ProcessId option) rq" where
  "priority_schedule S = or_else (run_first S High) (or_else (run_first S Normal) (run_first S Low))"

definition realtime_schedule :: "'m spin \<Rightarrow> ('m, ProcessId option) rq" where
  "realtime_schedule S = locked S Current (
     bnd (rq_get current_process) (\<lambda>c.
     bnd (case c of None \<Rightarrow> ret False | Some p \<Rightarrow> of_process p (\<lambda>x. p_priority x \<ge> 128 \<and> p_state x = Running)) (\<lambda>b.
     if b then ret c else
     or_else (locked S (Queue High) (bnd (pop_front High) (\<lambda>x. case x of None \<Rightarrow> ret None | Some p \<Rightarrow>
       bnd (start_running p) (\<lambda>_.
       bnd (set_current p) (\<lambda>_.
       bnd count_switch (\<lambda>_.
         ret (Some p))))))) (
     bnd (rq_get current_process) (\<lambda>c.
     bnd (is_running c) (\<lambda>b. if b then ret c else get_next_ready_process S))))))"

definition get_next_process :: "'m spin \<Rightarrow> SchedulingPolicy \<Rightarrow> ('m, ProcessId option) rq" where
  "get_next_process S policy = (case policy of
       RoundRobin \<Rightarrow> round_robin_schedule S
     | PriorityBased \<Rightarrow> priority_schedule S
     | RealTime \<Rightarrow> realtime_schedule S)"

section \<open>The scheduler\<close>

text \<open>\<open>procs\<close> are the processes the references lead to, \<open>kern\<close> holds the counter of identifiers and the clock.\<close>

record 'm Scheduler =
  per_cpu_queues :: "'m CpuRunQueue list"
  processes :: "ProcessId option list"
  procs :: process_store
  tick_counter :: u64
  cpu_count :: nat
  policy :: SchedulingPolicy
  time_slice_ticks :: u32
  load_balance_enabled :: bool
  last_balance_tick :: u64
  kern :: kernel

type_synonym ('m, 'a) sched = "('m Scheduler, sched_stop, 'a) prog"

definition Scheduler_new :: "kernel \<Rightarrow> process_store \<Rightarrow> 'm Scheduler" where
  "Scheduler_new k st = \<lparr>per_cpu_queues = [], processes = [], procs = st, tick_counter = 0, cpu_count = 1, policy = RoundRobin,
     time_slice_ticks = 10, load_balance_enabled = True, last_balance_tick = 0, kern = k\<rparr>"

definition Scheduler_init :: "'m spin \<Rightarrow> nat \<Rightarrow> ('m, unit) sched" where
  "Scheduler_init S n = (\<lambda>s. (Ok (), s\<lparr>cpu_count := n, per_cpu_queues := map (CpuRunQueue_new S) [0..<n]\<rparr>))"

text \<open>\<^verbatim>\<open>queues[i]\<close> with a method call on it.\<close>

definition on_cpu :: "nat \<Rightarrow> ('m, 'a) rq \<Rightarrow> ('m, 'a) sched" where
  "on_cpu i m = (\<lambda>s. if i < length (per_cpu_queues s) then
       (case m (per_cpu_queues s ! i, procs s) of
          (r, (q, st)) \<Rightarrow> (r, s\<lparr>per_cpu_queues := (per_cpu_queues s)[i := q], procs := st\<rparr>))
     else (Panic, s))"

definition on_proc :: "ProcessId \<Rightarrow> (Process \<Rightarrow> Process) \<Rightarrow> ('m, unit) sched" where
  "on_proc p f = (\<lambda>s. (Ok (), s\<lparr>procs := (procs s)(p := f (procs s p))\<rparr>))"

definition ask :: "('m Scheduler \<Rightarrow> 'a) \<Rightarrow> ('m, 'a) sched" where
  "ask f = (\<lambda>s. (Ok (f s), s))"

definition change :: "('m Scheduler \<Rightarrow> 'm Scheduler) \<Rightarrow> ('m, unit) sched" where
  "change f = (\<lambda>s. (Ok (), f s))"

text \<open>The first CPU with the lowest load.\<close>

primrec lowest_load :: "(nat \<times> u32) list \<Rightarrow> nat \<Rightarrow> u32 \<Rightarrow> nat" where
  "lowest_load [] best_cpu min_load = best_cpu"
| "lowest_load (x # xs) best_cpu min_load =
     (if snd x < min_load then lowest_load xs (fst x) (snd x) else lowest_load xs best_cpu min_load)"

definition select_cpu_for_new_process :: "'m Scheduler \<Rightarrow> nat" where
  "select_cpu_for_new_process s = (if \<not> load_balance_enabled s then 0
     else lowest_load (List.enumerate 0 (map get_load (per_cpu_queues s))) 0 0xFFFFFFFF)"

definition select_cpu_for_process :: "ProcessId \<Rightarrow> 'm Scheduler \<Rightarrow> (sched_stop, nat) res" where
  "select_cpu_for_process pid s = (if cpu_count s = 0 then Panic else Ok (unat pid mod cpu_count s))"

definition create_process :: "addr_new \<Rightarrow> addr_new \<Rightarrow> 'm spin \<Rightarrow> u64 \<Rightarrow> u8 \<Rightarrow> ('m, ProcessId) sched" where
  "create_process VA PA S entry_point priority =
     bnd (\<lambda>s. case Process_new VA PA entry_point priority (kern s) of (r, k) \<Rightarrow> (r, s\<lparr>kern := k\<rparr>)) (\<lambda>process.
     let pid = p_id process in
     bnd (change (\<lambda>s. s\<lparr>procs := (procs s)(pid := process), processes := fill_slot pid (processes s)\<rparr>)) (\<lambda>_.
     bnd (ask select_cpu_for_new_process) (\<lambda>target_cpu.
     bnd (on_cpu target_cpu (add_process S pid)) (\<lambda>_.
       ret pid))))"

definition get_process :: "ProcessId \<Rightarrow> 'm Scheduler \<Rightarrow> ProcessId option" where
  "get_process pid s = (if Some pid \<in> set (processes s) then Some pid else None)"

definition current_cpu_id :: nat where "current_cpu_id = 0"

definition should_balance_load :: "u64 \<Rightarrow> 'm Scheduler \<Rightarrow> bool" where
  "should_balance_load current_tick s \<longleftrightarrow> load_balance_enabled s \<and> saturating_sub current_tick (last_balance_tick s) \<ge> 1000"

definition balance_load :: "'m spin \<Rightarrow> nat \<Rightarrow> u64 \<Rightarrow> ('m, unit) sched" where
  "balance_load S current_cpu current_tick =
     bnd (change (\<lambda>s. s\<lparr>last_balance_tick := current_tick\<rparr>)) (\<lambda>_.
     bnd (ask per_cpu_queues) (\<lambda>qs.
     if current_cpu \<ge> length qs then ret ()
     else let loads = sort_key snd (List.enumerate 0 (map get_load qs)) in
       if length loads \<ge> 2 then
         let (least_loaded_cpu, min_load) = hd loads; (most_loaded_cpu, max_load) = last loads in
         bnd (lift_res (add_ck min_load 2)) (\<lambda>limit.
         if max_load > limit then
           bnd (on_cpu most_loaded_cpu (steal_process S)) (\<lambda>x. case x of None \<Rightarrow> ret () | Some p \<Rightarrow>
           bnd (on_proc p (set_assigned_cpu least_loaded_cpu)) (\<lambda>_.
             on_cpu least_loaded_cpu (add_process S p)))
         else ret ())
       else ret ()))"

definition schedule :: "'m spin \<Rightarrow> ('m, ProcessId option) sched" where
  "schedule S =
     bnd (ask tick_counter) (\<lambda>t.
     bnd (change (\<lambda>s. s\<lparr>tick_counter := tick_counter s + 1\<rparr>)) (\<lambda>_.
     bnd (ask (should_balance_load t)) (\<lambda>b.
     bnd (if b then balance_load S current_cpu_id t else ret ()) (\<lambda>_.
     bnd (ask (\<lambda>s. (length (per_cpu_queues s), policy s))) (\<lambda>(n, pol).
       if current_cpu_id < n then on_cpu current_cpu_id (get_next_process S pol) else ret None)))))"

definition block_process :: "'m spin \<Rightarrow> ProcessId \<Rightarrow> BlockReason \<Rightarrow> ('m, unit) sched" where
  "block_process S pid reason =
     bnd (ask (get_process pid)) (\<lambda>x. case x of None \<Rightarrow> ret () | Some p \<Rightarrow>
     bnd (on_proc p (set_state Blocked)) (\<lambda>_.
     bnd (on_proc p (set_block_reason (Some reason))) (\<lambda>_.
     bnd (ask (\<lambda>s. (assigned_cpu (procs s p), length (per_cpu_queues s)))) (\<lambda>(c, n).
       if c < n then bnd (on_cpu c (remove_process S pid)) (\<lambda>_. ret ()) else ret ()))))"

definition unblock_process :: "'m spin \<Rightarrow> ProcessId \<Rightarrow> ('m, unit) sched" where
  "unblock_process S pid =
     bnd (ask (get_process pid)) (\<lambda>x. case x of None \<Rightarrow> ret () | Some p \<Rightarrow>
     bnd (ask (\<lambda>s. p_state (procs s p))) (\<lambda>st. if st = Blocked then
       bnd (on_proc p (set_state Ready)) (\<lambda>_.
       bnd (on_proc p (set_block_reason None)) (\<lambda>_.
       bnd (\<lambda>s. (select_cpu_for_process pid s, s)) (\<lambda>target_cpu.
       bnd (on_proc p (set_assigned_cpu target_cpu)) (\<lambda>_.
       bnd (ask (\<lambda>s. length (per_cpu_queues s))) (\<lambda>n.
         if target_cpu < n then on_cpu target_cpu (add_process S p) else ret ())))))
     else ret ()))"

primrec remove_everywhere :: "'m spin \<Rightarrow> ProcessId \<Rightarrow> nat list \<Rightarrow> ('m, unit) sched" where
  "remove_everywhere S pid [] = ret ()"
| "remove_everywhere S pid (c # cs) = bnd (on_cpu c (remove_process S pid)) (\<lambda>_. remove_everywhere S pid cs)"

definition terminate_process :: "'m spin \<Rightarrow> ProcessId \<Rightarrow> i32 \<Rightarrow> ('m, unit) sched" where
  "terminate_process S pid code =
     bnd (ask (get_process pid)) (\<lambda>x. case x of None \<Rightarrow> ret () | Some p \<Rightarrow>
     bnd (on_proc p (set_state Zombie)) (\<lambda>_.
     bnd (on_proc p (set_exit_code (Some code))) (\<lambda>_.
     bnd (ask (\<lambda>s. length (per_cpu_queues s))) (\<lambda>n.
       remove_everywhere S pid [0..<n]))))"

definition preempt_current_process :: "'m spin \<Rightarrow> nat \<Rightarrow> ('m, unit) sched" where
  "preempt_current_process S c =
     bnd (ask (\<lambda>s. length (per_cpu_queues s))) (\<lambda>n. if c < n then on_cpu c (preempt_current S) else ret ())"

definition timer_tick :: "'m spin \<Rightarrow> nat \<Rightarrow> ('m, unit) sched" where
  "timer_tick S c =
     bnd (ask tick_counter) (\<lambda>t.
     bnd (change (\<lambda>s. s\<lparr>tick_counter := tick_counter s + 1\<rparr>)) (\<lambda>_.
     bnd (ask (\<lambda>s. (length (per_cpu_queues s), time_slice_ticks s))) (\<lambda>(n, ts).
     bnd (if c < n then on_cpu c (CpuRunQueue_timer_tick S t) else ret ()) (\<lambda>_.
       if ts = 0 then lift_res Panic
       else if t mod ucast ts = 0 then preempt_current_process S c else ret ()))))"

definition configure :: "SchedulingPolicy \<Rightarrow> u32 \<Rightarrow> ('m, unit) sched" where
  "configure pol ts = change (\<lambda>s. s\<lparr>policy := pol, time_slice_ticks := ts\<rparr>)"

record SchedulerStats =
  total_processes :: nat
  ready_processes :: nat
  running_processes :: nat
  blocked_processes :: nat
  zombie_processes :: nat
  cpu_loads :: "u32 list"
  total_ticks :: u64
  stat_context_switches :: u64

primrec sum_ck :: "u64 list \<Rightarrow> u64 \<Rightarrow> (sched_stop, u64) res" where
  "sum_ck [] acc = Ok acc"
| "sum_ck (x # xs) acc = bind_res (add_ck acc x) (sum_ck xs)"

definition get_total_context_switches :: "'m Scheduler \<Rightarrow> (sched_stop, u64) res" where
  "get_total_context_switches s = sum_ck (map get_context_switches (per_cpu_queues s)) 0"

definition count_state :: "ProcessState \<Rightarrow> 'm Scheduler \<Rightarrow> nat" where
  "count_state st s = length (filter (\<lambda>x. case x of None \<Rightarrow> False | Some p \<Rightarrow> p_state (procs s p) = st) (processes s))"

definition Scheduler_get_stats :: "'m Scheduler \<Rightarrow> (sched_stop, SchedulerStats) res" where
  "Scheduler_get_stats s = bind_res (get_total_context_switches s) (\<lambda>cs.
     Ok \<lparr>total_processes = length (processes s), ready_processes = count_state Ready s, running_processes = count_state Running s,
         blocked_processes = count_state Blocked s, zombie_processes = count_state Zombie s,
         cpu_loads = map get_load (per_cpu_queues s), total_ticks = tick_counter s, stat_context_switches = cs\<rparr>)"

definition get_current_process_id :: "('m, ProcessId option) sched" where
  "get_current_process_id = (\<lambda>s. case ProcessId_new (kern s) of (i, k) \<Rightarrow> (Ok (Some i), s\<lparr>kern := k\<rparr>))"

section \<open>What the mutexes do\<close>

text \<open>
  The documented behaviour of \<^verbatim>\<open>spin::Mutex\<close>: a new mutex can be locked, a locked one cannot be locked again before its guard is dropped, and
  dropping the guard gives the mutex back.
\<close>

definition spin_ok :: "'m spin \<Rightarrow> bool" where
  "spin_ok S \<longleftrightarrow> (case lock S (fresh S) of None \<Rightarrow> False | Some g \<Rightarrow> lock S g = None \<and> unlock S g = fresh S)"

definition taken :: "'m spin \<Rightarrow> 'm" where
  "taken S = the (lock S (fresh S))"

definition unlocked :: "'m spin \<Rightarrow> 'm CpuRunQueue \<Rightarrow> bool" where
  "unlocked S q \<longleftrightarrow> (\<forall>m. mutexes q m = fresh S)"

lemma spin_okD:
  assumes "spin_ok S"
  shows "lock S (fresh S) = Some (taken S)" "lock S (taken S) = None" "unlock S (taken S) = fresh S" "taken S \<noteq> fresh S"
  using assms by (auto simp: spin_ok_def taken_def split: option.splits)

lemma unlocked_eq: "unlocked S q \<longleftrightarrow> mutexes q = (\<lambda>_. fresh S)"
  by (auto simp: unlocked_def)

lemma restore [simp]: "mutexes q m = g \<Longrightarrow> q\<lparr>mutexes := (mutexes q)(m := g)\<rparr> = q"
  by (simp add: fun_upd_idem)

lemma locked_taken:
  assumes "spin_ok S" "mutexes q m = taken S"
  shows "locked S m body (q, st) = (Err Deadlock, (q, st))"
  using spin_okD [OF assms(1)] by (simp add: locked_def acquire_def bnd_def assms(2))

lemma locked_fresh:
  assumes "spin_ok S" "mutexes q m = fresh S"
  shows "locked S m body (q, st) = (case body (q\<lparr>mutexes := (mutexes q)(m := taken S)\<rparr>, st) of
      (Ok x, (q', st')) \<Rightarrow> (Ok x, (q'\<lparr>mutexes := (mutexes q')(m := unlock S (mutexes q' m))\<rparr>, st'))
    | (Err e, w) \<Rightarrow> (Err e, w) | (Panic, w) \<Rightarrow> (Panic, w))"
  using spin_okD [OF assms(1)]
  by (simp add: locked_def acquire_def release_def rq_mod_def ret_def bnd_def assms(2) split: prod.splits res.splits)

text \<open>A body that leaves the mutexes as it found them runs in the scope of a guard as it runs without.\<close>

lemma locked_body:
  assumes "spin_ok S" "mutexes q m = fresh S"
    "body (q\<lparr>mutexes := (mutexes q)(m := taken S)\<rparr>, st) = (Ok x, (q', st'))" "mutexes q' = (mutexes q)(m := taken S)"
  shows "locked S m body (q, st) = (Ok x, (q'\<lparr>mutexes := mutexes q\<rparr>, st'))"
  using assms spin_okD [OF assms(1)] by (simp add: locked_fresh fun_upd_idem)

lemma locked_stuck:
  assumes "spin_ok S" "mutexes q m = fresh S" "fst (body (q\<lparr>mutexes := (mutexes q)(m := taken S)\<rparr>, st)) = Err Deadlock"
  shows "fst (locked S m body (q, st)) = Err Deadlock"
  using assms by (auto simp: locked_fresh split: prod.splits res.splits)

lemma rq_simps [simp]:
  "rq_get f (q, st) = (Ok (f q), (q, st))" "rq_mod g (q, st) = (Ok (), (g q, st))"
  "of_process p h (q, st) = (Ok (h (st p)), (q, st))" "on_process p u (q, st) = (Ok (), (q, st(p := u (st p))))"
  by (simp_all add: rq_get_def rq_mod_def of_process_def on_process_def)

lemma bnd_stuck: "fst (m w) = Err e \<Longrightarrow> fst (bnd m f w) = Err e"
  by (auto simp: bnd_def split: prod.splits res.splits)


section \<open>The load\<close>

definition load_now :: "'m CpuRunQueue \<Rightarrow> u32" where
  "load_now q = of_nat (length (queues q High) + length (queues q Normal) + length (queues q Low) + length (queues q ReadyLevel)
     + (if is_busy q then 1 else 0))"

lemma len_of_fresh: "spin_ok S \<Longrightarrow> mutexes q (Queue l) = fresh S \<Longrightarrow> len_of S l (q, st) = (Ok (length (queues q l)), (q, st))"
  by (simp add: len_of_def locked_fresh spin_okD fun_upd_idem)

lemma busy_fresh: "spin_ok S \<Longrightarrow> mutexes q Current = fresh S \<Longrightarrow>
    locked S Current (rq_get is_busy) (q, st) = (Ok (is_busy q), (q, st))"
  by (simp add: is_busy_def locked_fresh spin_okD fun_upd_idem)

lemma update_load_free:
  assumes "spin_ok S" "unlocked S q"
  shows "update_load S (q, st) = (Ok (), (q\<lparr>load_average := load_now q\<rparr>, st))"
  using assms by (simp add: update_load_def len_of_fresh busy_fresh unlocked_def load_now_def)

text \<open>The load cannot be computed while the caller holds one of the mutexes.\<close>

lemma update_load_stuck:
  assumes "spin_ok S" "\<And>m. mutexes q m = fresh S \<or> mutexes q m = taken S" "mutexes q m = taken S"
  shows "fst (update_load S (q, st)) = Err Deadlock"
proof -
  have l: "len_of S l (q, st) = (Ok (length (queues q l)), (q, st)) \<and> mutexes q (Queue l) = fresh S
      \<or> len_of S l (q, st) = (Err Deadlock, (q, st))" for l
    using assms(2) [of "Queue l"] len_of_fresh [OF assms(1), of q l st] locked_taken [OF assms(1), of q "Queue l"]
    by (auto simp: len_of_def)
  have c: "locked S Current (rq_get is_busy) (q, st) = (Err Deadlock, (q, st))" if "\<And>l. mutexes q (Queue l) = fresh S"
  proof (rule locked_taken [OF assms(1)])
    show "mutexes q Current = taken S"
      using assms(3) that spin_okD(4) [OF assms(1)] by (cases m) auto
  qed
  have "\<And>l. mutexes q (Queue l) = fresh S" if "mutexes q (Queue High) = fresh S" "mutexes q (Queue Normal) = fresh S"
    "mutexes q (Queue Low) = fresh S" "mutexes q (Queue ReadyLevel) = fresh S"
    using that by (metis level.exhaust)
  then show ?thesis using l [of High] l [of Normal] l [of Low] l [of ReadyLevel] c
    by (auto simp: update_load_def bnd_def)
qed

corollary update_load_guarded:
  assumes "spin_ok S" "unlocked S q" "mutexes q' = (mutexes q)(m := taken S)"
  shows "fst (update_load S (q', st)) = Err Deadlock"
  using assms by (intro update_load_stuck [where m = m]) (auto simp: unlocked_def)


section \<open>Operations on a run queue\<close>

definition members :: "'m CpuRunQueue \<Rightarrow> ProcessId set" where
  "members q = (\<Union>l. set (queues q l)) \<union> set_option (current_process q)"

lemma add_process_free:
  assumes "spin_ok S" "unlocked S q"
  shows "\<exists>n. add_process S p (q, st) =
    (Ok (), (q\<lparr>queues := (queues q)(level_of (p_priority (st p)) := queues q (level_of (p_priority (st p))) @ [p]), load_average := n\<rparr>,
       st(p := set_assigned_cpu (cpu_id q) (st p))))"
proof -
  let ?l = "level_of (p_priority (st p))"
  let ?q = "q\<lparr>queues := (queues q)(?l := queues q ?l @ [p])\<rparr>"
  have "locked S (Queue ?l) (push_back ?l p) (q, st') = (Ok (), (?q, st'))" for st'
    using assms spin_okD [OF assms(1)] by (simp add: locked_fresh push_back_def unlocked_def fun_upd_idem)
  moreover have "unlocked S ?q" using assms(2) by (simp add: unlocked_def)
  ultimately show ?thesis using assms(1)
    by (intro exI [of _ "load_now ?q"]) (simp add: add_process_def set_assigned_cpu_def update_load_free)
qed

lemma add_process_guarded:
  assumes "spin_ok S" "unlocked S q"
  shows "fst (add_process S p (q\<lparr>mutexes := (mutexes q)(Current := taken S), current_process := c\<rparr>, st)) = Err Deadlock"
proof -
  let ?q = "q\<lparr>mutexes := (mutexes q)(Current := taken S), current_process := c\<rparr>"
  let ?l = "level_of (p_priority (st p))"
  have "locked S (Queue ?l) (push_back ?l p) (?q, st') = (Ok (), (?q\<lparr>queues := (queues q)(?l := queues q ?l @ [p])\<rparr>, st'))" for st'
    using assms spin_okD [OF assms(1)] by (simp add: locked_fresh push_back_def unlocked_def fun_upd_idem)
  moreover have "fst (update_load S (?q\<lparr>queues := a\<rparr>, st')) = Err Deadlock" for a st'
    using assms by (intro update_load_stuck [where m = Current]) (auto simp: unlocked_def)
  ultimately show ?thesis by (simp add: add_process_def set_assigned_cpu_def)
qed

lemma remove_from_free:
  assumes "spin_ok S" "mutexes q (Queue l) = fresh S"
  shows "remove_from S l p (q, st) = (Ok (p \<in> set (queues q l)), (q\<lparr>queues := (queues q)(l := remove1 p (queues q l))\<rparr>, st))"
  using assms spin_okD [OF assms(1)] by (simp add: remove_from_def locked_fresh fun_upd_idem remove1_idem)

text \<open>Removing a process returns only if there is nothing to remove.\<close>

lemma remove_process_free:
  assumes "spin_ok S" "unlocked S q"
  shows "p \<notin> members q \<Longrightarrow> remove_process S p (q, st) = (Ok False, (q, st))"
    "p \<in> members q \<Longrightarrow> fst (remove_process S p (q, st)) = Err Deadlock"
proof -
  have r: "remove_from S l p (q\<lparr>queues := a\<rparr>, st) = (Ok (p \<in> set (a l)), (q\<lparr>queues := a(l := remove1 p (a l))\<rparr>, st))" for l a
    using assms by (subst remove_from_free) (simp_all add: unlocked_def)
  have r0: "remove_from S l p (q, st) = (Ok (p \<in> set (queues q l)), (q\<lparr>queues := (queues q)(l := remove1 p (queues q l))\<rparr>, st))" for l
    using r [of l "queues q"] by simp
  define a where "a = (queues q)(ReadyLevel := remove1 p (queues q ReadyLevel), High := remove1 p (queues q High),
    Normal := remove1 p (queues q Normal), Low := remove1 p (queues q Low))"
  define rest where "rest found = (bnd (\<lambda>(q, st). if current_process q = Some p then (Ok True, (q\<lparr>current_process := None\<rparr>, st)) else (Ok False, (q, st))) (\<lambda>e.
       let removed = (found \<or> e) in if removed then bnd (update_load S) (\<lambda>_. ret removed) else ret removed)
     :: ('a, bool) rq)" for found
  have run: "remove_process S p (q, st) = locked S Current (rest (\<exists>l. p \<in> set (queues q l))) (q\<lparr>queues := a\<rparr>, st)"
  proof -
    have "(\<exists>l. p \<in> set (queues q l)) \<longleftrightarrow> p \<in> set (queues q ReadyLevel) \<or> p \<in> set (queues q High) \<or> p \<in> set (queues q Normal) \<or> p \<in> set (queues q Low)"
      by (metis level.exhaust)
    then show ?thesis by (simp add: remove_process_def r r0 rest_def a_def disj_assoc)
  qed
  have u: "unlocked S (q\<lparr>queues := a\<rparr>)" using assms(2) by (simp add: unlocked_def)
  show "remove_process S p (q, st) = (Ok False, (q, st))" if "p \<notin> members q"
  proof -
    have "queues q = a" using that by (auto simp: a_def members_def remove1_idem fun_eq_iff)
    then have "q\<lparr>queues := a\<rparr> = q" by simp
    moreover have "\<not> (\<exists>l. p \<in> set (queues q l))" "current_process q \<noteq> Some p" using that by (auto simp: members_def)
    ultimately show ?thesis using assms spin_okD [OF assms(1)]
      by (simp add: run rest_def locked_fresh unlocked_def ret_def fun_upd_idem bnd_def)
  qed
  show "fst (remove_process S p (q, st)) = Err Deadlock" if "p \<in> members q"
  proof -
    have "fst (rest (\<exists>l. p \<in> set (queues q l)) ((q\<lparr>queues := a\<rparr>)\<lparr>mutexes := (mutexes q)(Current := taken S)\<rparr>, st)) = Err Deadlock"
    proof (cases "current_process q = Some p")
      case True
      then show ?thesis by (simp add: rest_def bnd_stuck update_load_guarded [OF assms, where m = Current])
    next
      case False
      then have "\<exists>l. p \<in> set (queues q l)" using that by (auto simp: members_def)
      then show ?thesis using False by (simp add: rest_def bnd_stuck update_load_guarded [OF assms, where m = Current])
    qed
    then show ?thesis unfolding run using u assms(1) by (intro locked_stuck) (simp_all add: unlocked_def)
  qed
qed

lemma preempt_current_free:
  assumes "spin_ok S" "unlocked S q"
  shows "current_process q = None \<Longrightarrow> preempt_current S (q, st) = (Ok (), (q, st))"
    "current_process q = Some p \<Longrightarrow> p_state (st p) = Running \<Longrightarrow> fst (preempt_current S (q, st)) = Err Deadlock"
proof -
  have f: "mutexes q Current = fresh S" using assms(2) by (simp add: unlocked_def)
  show "preempt_current S (q, st) = (Ok (), (q, st))" if "current_process q = None"
  proof -
    have "q\<lparr>mutexes := (mutexes q)(Current := taken S), current_process := None\<rparr> = q\<lparr>mutexes := (mutexes q)(Current := taken S)\<rparr>"
      using that by (cases q) simp
    then show ?thesis using that spin_okD [OF assms(1)] f
      by (simp add: preempt_current_def locked_fresh [OF assms(1)] take_current_def bnd_def ret_def fun_upd_idem)
  qed
  show "fst (preempt_current S (q, st)) = Err Deadlock" if "current_process q = Some p" "p_state (st p) = Running"
    unfolding preempt_current_def
    by (rule locked_stuck [OF assms(1) f]) (use that add_process_guarded [OF assms] in \<open>simp add: take_current_def bnd_def\<close>)
qed

lemma steal_from_free:
  assumes "spin_ok S" "unlocked S q"
  shows "queues q l = [] \<Longrightarrow> steal_from S l next (q, st) = next (q, st)"
    "queues q l \<noteq> [] \<Longrightarrow> fst (steal_from S l next (q, st)) = Err Deadlock"
proof -
  have f: "mutexes q (Queue l) = fresh S" using assms(2) by (simp add: unlocked_def)
  show "steal_from S l next (q, st) = next (q, st)" if "queues q l = []"
    using that spin_okD [OF assms(1)] f
    by (simp add: steal_from_def locked_fresh [OF assms(1)] pop_front_def bnd_def ret_def fun_upd_idem)
  show "fst (steal_from S l next (q, st)) = Err Deadlock" if "queues q l \<noteq> []"
    unfolding steal_from_def
  proof (rule bnd_stuck, rule locked_stuck [OF assms(1) f])
    obtain p ps where "queues q l = p # ps" using \<open>queues q l \<noteq> []\<close> by (auto simp: neq_Nil_conv)
    then show "fst (bnd (pop_front l) (\<lambda>x. case x of None \<Rightarrow> ret None | Some p \<Rightarrow> bnd (update_load S) (\<lambda>_. ret (Some p)))
        (q\<lparr>mutexes := (mutexes q)(Queue l := taken S)\<rparr>, st)) = Err Deadlock"
      by (simp add: pop_front_def bnd_stuck update_load_guarded [OF assms, where m = "Queue l"])
  qed
qed

lemma steal_process_free:
  assumes "spin_ok S" "unlocked S q"
  shows "steal_process S (q, st) = (Ok None, (q, st)) \<or> fst (steal_process S (q, st)) = Err Deadlock"
  using steal_from_free [OF assms] unfolding steal_process_def by (metis ret_def)


section \<open>Taking the next process\<close>

text \<open>\<open>popped q x q'\<close>: \<open>x\<close> is the head of one of the queues and \<open>q'\<close> is \<open>q\<close> without it, or all queues are empty.\<close>

definition popped :: "'m CpuRunQueue \<Rightarrow> ProcessId option \<Rightarrow> 'm CpuRunQueue \<Rightarrow> bool" where
  "popped q x q' \<longleftrightarrow> (case x of
       None \<Rightarrow> q' = q \<and> (\<forall>l. queues q l = [])
     | Some p \<Rightarrow> \<exists>l ps. queues q l = p # ps \<and> q' = q\<lparr>queues := (queues q)(l := ps)\<rparr>)"

lemma pop_locked_free:
  assumes "spin_ok S" "mutexes q (Queue l) = fresh S"
  shows "pop_locked S l (q, st) = (case queues q l of [] \<Rightarrow> (Ok None, (q, st))
     | p # ps \<Rightarrow> (Ok (Some p), (q\<lparr>queues := (queues q)(l := ps)\<rparr>, st)))"
  using assms spin_okD [OF assms(1)]
  by (simp add: pop_locked_def locked_fresh pop_front_def fun_upd_idem split: list.splits)

lemma or_else_simps:
  "m w = (Ok None, w') \<Longrightarrow> or_else m n w = n w'" "m w = (Ok (Some p), w') \<Longrightarrow> or_else m n w = (Ok (Some p), w')"
  by (simp_all add: or_else_def ret_def)

lemma pop_or_else:
  assumes "spin_ok S" "mutexes q (Queue l) = fresh S"
  shows "or_else (pop_locked S l) n (q, st) = (case queues q l of [] \<Rightarrow> n (q, st)
     | p # ps \<Rightarrow> (Ok (Some p), (q\<lparr>queues := (queues q)(l := ps)\<rparr>, st)))"
  using pop_locked_free [OF assms, of st] by (auto simp: or_else_simps split: list.splits)

lemma next_ready:
  assumes "spin_ok S" "\<And>l. mutexes q (Queue l) = fresh S"
  shows "\<exists>x q'. get_next_ready_process S (q, st) = (Ok x, (q', st)) \<and> popped q x q'"
proof -
  have all: "(\<forall>l. queues q l = []) \<longleftrightarrow> queues q High = [] \<and> queues q Normal = [] \<and> queues q Low = [] \<and> queues q ReadyLevel = []"
    by (metis level.exhaust)
  show ?thesis unfolding get_next_ready_process_def pop_or_else [OF assms] pop_locked_free [OF assms]
    by (simp add: popped_def all split: list.split option.split) blast
qed

definition running :: "process_store \<Rightarrow> ProcessId \<Rightarrow> bool" where
  "running st p \<longleftrightarrow> p_state (st p) = Running"

text \<open>
  \<open>chosen q st x q' st'\<close>: the outcomes of a scheduling decision. The current process goes on, or there is nothing to do, or
  a process is taken from a queue and made current, or it is only taken from the queue.
\<close>

inductive chosen :: "'m CpuRunQueue \<Rightarrow> process_store \<Rightarrow> ProcessId option \<Rightarrow> 'm CpuRunQueue \<Rightarrow> process_store \<Rightarrow> bool" where
  continue: "current_process q = Some p \<Longrightarrow> running st p \<Longrightarrow> chosen q st (Some p) q st"
| idle: "chosen q st None q st"
| start: "popped q (Some p) q1 \<Longrightarrow>
    chosen q st (Some p) (q1\<lparr>current_process := Some p, context_switches := n\<rparr>) (st(p := increment_context_switches (set_state Running (st p))))"
| drop: "popped q (Some p) q1 \<Longrightarrow> chosen q st (Some p) q1 st"

lemma running_simp: "is_running c (q, st) = (Ok (case c of None \<Rightarrow> False | Some p \<Rightarrow> running st p), (q, st))"
  by (simp add: is_running_def running_def ret_def split: option.split)

lemma start_running_simp:
  "start_running p (q, st) = (Ok (), (q, st(p := increment_context_switches (set_state Running (st p)))))"
  by (simp add: start_running_def)

lemmas step_simps = start_running_simp set_current_def count_switch_def

lemma round_robin_continues:
  assumes "spin_ok S" "unlocked S q" "current_process q = Some p" "running st p"
  shows "round_robin_schedule S (q, st) = (Ok (Some p), (q, st))"
  using assms spin_okD [OF assms(1)] by (simp add: round_robin_schedule_def locked_fresh unlocked_def running_simp ret_def fun_upd_idem)

lemma popped_mutexes: "popped q x q' \<Longrightarrow> mutexes q' = mutexes q"
  by (auto simp: popped_def split: option.splits)

lemma popped_relock: "popped (q\<lparr>mutexes := a\<rparr>) x q' \<Longrightarrow> popped q x (q'\<lparr>mutexes := mutexes q\<rparr>)"
proof (cases x)
  case (Some p)
  assume "popped (q\<lparr>mutexes := a\<rparr>) x q'"
  then obtain l ps where "queues q l = p # ps" "q' = q\<lparr>mutexes := a, queues := (queues q)(l := ps)\<rparr>" by (auto simp: popped_def Some)
  then show ?thesis unfolding popped_def Some by (simp, intro exI [of _ l] exI [of _ ps]) simp
qed (simp add: popped_def)

lemma relock_swap:
  "q\<lparr>current_process := a, context_switches := b, mutexes := c\<rparr> = q\<lparr>mutexes := c, current_process := a, context_switches := b\<rparr>"
  by (cases q) simp

lemma round_robin_free:
  assumes "spin_ok S" "unlocked S q"
  shows "\<exists>x q' st'. round_robin_schedule S (q, st) = (Ok x, (q', st')) \<and> unlocked S q' \<and> chosen q st x q' st'"
proof (cases "case current_process q of None \<Rightarrow> False | Some p \<Rightarrow> running st p")
  case True
  then obtain p where "current_process q = Some p" "running st p" by (auto split: option.splits)
  with round_robin_continues [OF assms this] assms(2) show ?thesis by (auto intro: chosen.continue)
next
  case False
  let ?q = "q\<lparr>mutexes := (mutexes q)(Current := taken S)\<rparr>"
  have f: "mutexes q Current = fresh S" using assms(2) by (simp add: unlocked_def)
  obtain x q1 where n: "get_next_ready_process S (?q, st) = (Ok x, (q1, st))" "popped ?q x q1"
    using next_ready [OF assms(1), of ?q st] assms(2) by (auto simp: unlocked_def)
  have m: "mutexes q1 = (mutexes q)(Current := taken S)" using popped_mutexes [OF n(2)] by simp
  note popped = popped_relock [OF n(2)]
  show ?thesis
  proof (cases x)
    case None
    then have "round_robin_schedule S (q, st) = (Ok None, (q1\<lparr>mutexes := mutexes q\<rparr>, st))" unfolding round_robin_schedule_def
      using False n m by (intro locked_body [OF assms(1) f]) (simp_all add: running_simp ret_def)
    moreover have "q1\<lparr>mutexes := mutexes q\<rparr> = q" using popped None by (simp add: popped_def)
    ultimately show ?thesis using assms(2) by (auto intro: chosen.idle)
  next
    case (Some p)
    let ?st = "st(p := increment_context_switches (set_state Running (st p)))"
    have "round_robin_schedule S (q, st) = (Ok (Some p), (q1\<lparr>current_process := Some p, context_switches := context_switches q1 + 1, mutexes := mutexes q\<rparr>, ?st))"
      unfolding round_robin_schedule_def
      using False n m Some by (subst locked_body [OF assms(1) f]) (simp_all add: running_simp step_simps ret_def)
    moreover have "chosen q st (Some p) ((q1\<lparr>mutexes := mutexes q\<rparr>)\<lparr>current_process := Some p, context_switches := context_switches q1 + 1\<rparr>) ?st"
      using popped Some by (intro chosen.start) simp
    moreover have "unlocked S (q1\<lparr>current_process := Some p, context_switches := context_switches q1 + 1, mutexes := mutexes q\<rparr>)"
      using assms(2) by (simp add: unlocked_def)
    ultimately show ?thesis unfolding relock_swap by blast
  qed
qed

lemma run_first_free:
  assumes "spin_ok S" "unlocked S q"
  shows "queues q l = [] \<Longrightarrow> run_first S l (q, st) = (Ok None, (q, st))"
    "queues q l = p # ps \<Longrightarrow> run_first S l (q, st) =
      (Ok (Some p), (q\<lparr>queues := (queues q)(l := ps), current_process := Some p, context_switches := context_switches q + 1\<rparr>,
        st(p := increment_context_switches (set_state Running (st p)))))"
proof -
  have f: "mutexes q m = fresh S" for m using assms(2) by (simp add: unlocked_def)
  note o = spin_okD [OF assms(1)]
  show "run_first S l (q, st) = (Ok None, (q, st))" if "queues q l = []"
    using that o f by (simp add: run_first_def locked_fresh [OF assms(1)] pop_front_def ret_def fun_upd_idem)
  show "run_first S l (q, st) =
      (Ok (Some p), (q\<lparr>queues := (queues q)(l := ps), current_process := Some p, context_switches := context_switches q + 1\<rparr>,
        st(p := increment_context_switches (set_state Running (st p)))))" if "queues q l = p # ps"
  proof -
    have "locked S Current (set_current p) (r, st') = (Ok (), (r\<lparr>current_process := Some p\<rparr>, st'))" if "mutexes r Current = fresh S" for r st'
      using that o by (simp add: locked_fresh [OF assms(1)] set_current_def fun_upd_idem)
    then show ?thesis using that o f
      by (simp add: run_first_def locked_fresh [OF assms(1)] pop_front_def step_simps ret_def fun_upd_idem)
  qed
qed

lemma popped_some: "queues q l = p # ps \<Longrightarrow> popped q (Some p) (q\<lparr>queues := (queues q)(l := ps)\<rparr>)"
  unfolding popped_def by auto

lemma run_first_chosen:
  assumes "spin_ok S" "unlocked S q"
  shows "run_first S l (q, st) = (Ok None, (q, st)) \<or>
    (\<exists>p q' st'. run_first S l (q, st) = (Ok (Some p), (q', st')) \<and> unlocked S q' \<and> chosen q st (Some p) q' st')"
proof (cases "queues q l")
  case Nil
  then show ?thesis using run_first_free(1) [OF assms] by blast
next
  case (Cons p ps)
  then show ?thesis using run_first_free(2) [OF assms Cons] chosen.start [OF popped_some [OF Cons], of st] assms(2)
    by (simp add: unlocked_def)
qed

lemma priority_free:
  assumes "spin_ok S" "unlocked S q"
  shows "\<exists>x q' st'. priority_schedule S (q, st) = (Ok x, (q', st')) \<and> unlocked S q' \<and> chosen q st x q' st'"
proof -
  have step: "\<exists>x q' st'. or_else (run_first S l) n (q, st) = (Ok x, (q', st')) \<and> unlocked S q' \<and> chosen q st x q' st'"
    if "\<exists>x q' st'. n (q, st) = (Ok x, (q', st')) \<and> unlocked S q' \<and> chosen q st x q' st'" for l and n
    using run_first_chosen [OF assms, of l st] that by (auto simp: or_else_simps)
  have "\<exists>x q' st'. run_first S Low (q, st) = (Ok x, (q', st')) \<and> unlocked S q' \<and> chosen q st x q' st'"
    using run_first_chosen [OF assms, of Low st] assms(2) chosen.idle by blast
  then show ?thesis unfolding priority_schedule_def by (intro step)
qed


lemma realtime_free:
  assumes "spin_ok S" "unlocked S q"
  shows "\<exists>x q' st'. realtime_schedule S (q, st) = (Ok x, (q', st')) \<and> unlocked S q' \<and> chosen q st x q' st'"
proof -
  let ?q = "q\<lparr>mutexes := (mutexes q)(Current := taken S)\<rparr>"
  have f: "mutexes q m = fresh S" for m using assms(2) by (simp add: unlocked_def)
  note o = spin_okD [OF assms(1)]
  define b where "b = (case current_process q of None \<Rightarrow> False | Some p \<Rightarrow> p_priority (st p) \<ge> 128 \<and> p_state (st p) = Running)"
  have first: "(case current_process q of None \<Rightarrow> ret False | Some p \<Rightarrow> of_process p (\<lambda>x. p_priority x \<ge> 128 \<and> p_state x = Running)) (?q, st) = (Ok b, (?q, st))"
    by (simp add: b_def ret_def split: option.split)
  have fin: ?thesis if "realtime_schedule S (q, st) = (Ok x, (r\<lparr>mutexes := mutexes q\<rparr>, st'))" "chosen q st x (r\<lparr>mutexes := mutexes q\<rparr>) st'" for x r st'
    using that f by (auto simp: unlocked_def)
  have same_q: "?q\<lparr>mutexes := mutexes q\<rparr> = q" by simp
  consider (continue) p where "b" "current_process q = Some p" "running st p" | (high) p ps where "\<not> b" "queues q High = p # ps"
    | (same) p where "\<not> b" "queues q High = []" "current_process q = Some p" "running st p"
    | (other) "\<not> b" "queues q High = []" "case current_process q of None \<Rightarrow> True | Some p \<Rightarrow> \<not> running st p"
    by (cases b; cases "queues q High"; cases "current_process q"; cases "running st (the (current_process q))")
      (simp_all add: b_def running_def, blast+)
  then show ?thesis
  proof cases
    case continue
    then have "realtime_schedule S (q, st) = (Ok (Some p), (?q\<lparr>mutexes := mutexes q\<rparr>, st))"
      unfolding realtime_schedule_def using first by (intro locked_body [OF assms(1) f]) (simp_all add: ret_def)
    then show ?thesis by (rule fin) (use continue in \<open>simp only: same_q chosen.continue\<close>)
  next
    case high
    let ?st = "st(p := increment_context_switches (set_state Running (st p)))"
    let ?r = "?q\<lparr>queues := (queues q)(High := ps), current_process := Some p, context_switches := context_switches q + 1\<rparr>"
    have "realtime_schedule S (q, st) = (Ok (Some p), (?r\<lparr>mutexes := mutexes q\<rparr>, ?st))"
      unfolding realtime_schedule_def using first high f o
      by (intro locked_body [OF assms(1) f])
        (simp_all add: or_else_def locked_fresh [OF assms(1)] pop_front_def step_simps ret_def fun_upd_idem)
    moreover have "?r\<lparr>mutexes := mutexes q\<rparr> = (q\<lparr>queues := (queues q)(High := ps)\<rparr>)\<lparr>current_process := Some p, context_switches := context_switches q + 1\<rparr>"
      by (cases q) simp
    ultimately show ?thesis using chosen.start [OF popped_some [OF high(2)], of st] by (metis fin)
  next
    case same
    then have "realtime_schedule S (q, st) = (Ok (Some p), (?q\<lparr>mutexes := mutexes q\<rparr>, st))"
      unfolding realtime_schedule_def using first f o
      by (intro locked_body [OF assms(1) f])
        (simp_all add: or_else_def locked_fresh [OF assms(1)] pop_front_def running_simp ret_def fun_upd_idem)
    then show ?thesis by (rule fin) (use same in \<open>simp only: same_q chosen.continue\<close>)
  next
    case other
    obtain x q1 where n: "get_next_ready_process S (?q, st) = (Ok x, (q1, st))" "popped ?q x q1"
      using next_ready [OF assms(1), of ?q st] f by auto
    have "realtime_schedule S (q, st) = (Ok x, (q1\<lparr>mutexes := mutexes q\<rparr>, st))"
      unfolding realtime_schedule_def using first f o other n popped_mutexes [OF n(2)]
      by (intro locked_body [OF assms(1) f])
        (auto simp add: or_else_def locked_fresh [OF assms(1)] pop_front_def running_simp ret_def fun_upd_idem split: option.splits)
    moreover have "chosen q st x (q1\<lparr>mutexes := mutexes q\<rparr>) st"
    proof (cases x)
      case None
      then show ?thesis using popped_relock [OF n(2)] by (simp add: popped_def chosen.idle)
    next
      case (Some p)
      then show ?thesis using popped_relock [OF n(2)] by (simp add: chosen.drop)
    qed
    ultimately show ?thesis by (rule fin)
  qed
qed

lemma get_next_process_free:
  assumes "spin_ok S" "unlocked S q"
  shows "\<exists>x q' st'. get_next_process S pol (q, st) = (Ok x, (q', st')) \<and> unlocked S q' \<and> chosen q st x q' st'"
  using round_robin_free [OF assms] priority_free [OF assms] realtime_free [OF assms]
  by (cases pol) (simp_all add: get_next_process_def)

text \<open>A timer tick counts and may promote the first process of low priority.\<close>

lemma timer_tick_free:
  assumes "spin_ok S" "unlocked S q"
  shows "\<exists>q'. CpuRunQueue_timer_tick S t (q, st) = (Ok (), (q', st)) \<and> unlocked S q' \<and> cpu_id q' = cpu_id q \<and> current_process q' = current_process q
     \<and> (queues q' = queues q \<or> (\<exists>p ps. queues q Low = p # ps \<and> queues q' = (queues q)(Low := ps, Normal := queues q Normal @ [p])))"
proof -
  have f: "mutexes r m = fresh S" if "unlocked S r" for r m using that by (simp add: unlocked_def)
  note o = spin_okD [OF assms(1)]
  let ?r = "\<lambda>b. if b then q\<lparr>last_tick := t, active_ticks := active_ticks q + 1\<rparr> else q\<lparr>last_tick := t, idle_ticks := idle_ticks q + 1\<rparr>"
  have u: "unlocked S (q\<lparr>last_tick := t\<rparr>)" "unlocked S (?r b)" for b using assms(2) by (auto simp: unlocked_def)
  have run: "CpuRunQueue_timer_tick S t (q, st) = age_processes S (?r (is_busy (q\<lparr>last_tick := t\<rparr>)), st)"
    using busy_fresh [OF assms(1) f [OF u(1)]] by (simp add: CpuRunQueue_timer_tick_def)
  have age: "age_processes S (r, st) = (Ok (), (if last_tick r mod 100 = 0 then (case queues r Low of [] \<Rightarrow> r
      | p # ps \<Rightarrow> r\<lparr>queues := (queues r)(Low := ps, Normal := queues r Normal @ [p])\<rparr>) else r, st))" if "unlocked S r" for r
    using f [OF that] o
    by (simp add: age_processes_def locked_fresh [OF assms(1)] pop_front_def push_back_def ret_def fun_upd_idem fun_upd_twist split: list.split)
  show ?thesis unfolding run age [OF u(2)]
    using assms(2) by (auto simp: unlocked_def split: list.split)
qed

section \<open>Where the processes are\<close>

definition queued :: "'m CpuRunQueue \<Rightarrow> ProcessId list" where
  "queued q = queues q ReadyLevel @ queues q High @ queues q Normal @ queues q Low"

definition rq_ok :: "'m spin \<Rightarrow> process_store \<Rightarrow> nat \<Rightarrow> 'm CpuRunQueue \<Rightarrow> bool" where
  "rq_ok S st i q \<longleftrightarrow> unlocked S q \<and> cpu_id q = i \<and> distinct (queued q)
     \<and> (\<forall>p \<in> set (queued q). p_state (st p) = Ready \<and> assigned_cpu (st p) = i)
     \<and> (\<forall>p. current_process q = Some p \<longrightarrow> p_state (st p) = Running \<and> assigned_cpu (st p) = i)"

lemma set_queued: "set (queued q) = (\<Union>l. set (queues q l))"
proof -
  have "x \<in> set (queues q l) \<Longrightarrow> x \<in> set (queued q)" for x l by (cases l) (auto simp: queued_def)
  then show ?thesis by (auto simp: queued_def)
qed

lemma members_queued: "members q = set (queued q) \<union> set_option (current_process q)"
  by (simp add: members_def set_queued)

lemma rq_ok_frame:
  assumes "rq_ok S st i q" "\<And>p. p \<in> members q \<Longrightarrow> st' p = st p"
  shows "rq_ok S st' i q"
  using assms by (simp add: rq_ok_def members_queued)

lemma rq_ok_members:
  assumes "rq_ok S st i q" "p \<in> members q"
  shows "assigned_cpu (st p) = i" "p_state (st p) = Ready \<or> p_state (st p) = Running"
  using assms by (auto simp: rq_ok_def members_queued)

lemma mset_queued: "mset (queued q) = mset (queues q ReadyLevel) + mset (queues q High) + mset (queues q Normal) + mset (queues q Low)"
  by (simp add: queued_def)

lemma popped_queued:
  assumes "popped q (Some p) q'"
  shows "mset (queued q) = add_mset p (mset (queued q'))" "current_process q' = current_process q" "cpu_id q' = cpu_id q"
proof -
  obtain l ps where q: "queues q l = p # ps" "q' = q\<lparr>queues := (queues q)(l := ps)\<rparr>" using assms by (auto simp: popped_def)
  show "mset (queued q) = add_mset p (mset (queued q'))" using q(1) unfolding q(2) by (cases l) (simp_all add: mset_queued)
  show "current_process q' = current_process q" "cpu_id q' = cpu_id q" by (simp_all add: q(2))
qed

lemma distinct_popped:
  assumes "popped q (Some p) q'" "distinct (queued q)"
  shows "distinct (queued q')" "set (queued q) = insert p (set (queued q'))" "p \<notin> set (queued q')"
proof -
  have "mset (queued q) = mset (p # queued q')" using popped_queued(1) [OF assms(1)] by simp
  then have "distinct (p # queued q')" "set (queued q) = set (p # queued q')"
    using assms(2) by (metis mset_eq_imp_distinct_iff, metis mset_eq_setD)
  then show "distinct (queued q')" "set (queued q) = insert p (set (queued q'))" "p \<notin> set (queued q')" by auto
qed

lemma chosen_ok:
  assumes "chosen q st x q' st'" "rq_ok S st i q" "unlocked S q'"
  shows "rq_ok S st' i q' \<and> members q' \<subseteq> members q \<and> (\<forall>p. p \<notin> members q \<longrightarrow> st' p = st p)"
  using assms
proof cases
  case (start p q1 n)
  have q: "current_process q1 = current_process q" "cpu_id q1 = cpu_id q" using popped_queued [OF start(4)] by simp_all
  note d = distinct_popped [OF start(4)]
  have e: "queued q' = queued q1" by (simp add: start queued_def)
  have "distinct (queued q)" using assms(2) by (simp add: rq_ok_def)
  note d = d [OF this]
  show ?thesis using assms(2,3) d q
    unfolding rq_ok_def members_queued e
    by (auto simp: start increment_context_switches_def set_state_def)
next
  case (drop p)
  have q: "current_process q' = current_process q" "cpu_id q' = cpu_id q" using popped_queued [OF drop(3)] by simp_all
  have "distinct (queued q)" using assms(2) by (simp add: rq_ok_def)
  note d = distinct_popped [OF drop(3) this]
  show ?thesis using assms(2,3) d q unfolding rq_ok_def members_queued drop(2) by auto
qed auto

lemma add_ok:
  assumes "spin_ok S" "rq_ok S st i q" "p \<notin> members q" "p_state (st p) = Ready"
  shows "\<exists>q' st'. add_process S p (q, st) = (Ok (), (q', st')) \<and> rq_ok S st' i q' \<and> members q' = insert p (members q)
     \<and> current_process q' = current_process q \<and> (\<forall>r. r \<noteq> p \<longrightarrow> st' r = st r)"
proof -
  let ?l = "level_of (p_priority (st p))"
  have u: "unlocked S q" "cpu_id q = i" using assms(2) by (simp_all add: rq_ok_def)
  obtain n where run: "add_process S p (q, st) = (Ok (), (q\<lparr>queues := (queues q)(?l := queues q ?l @ [p]), load_average := n\<rparr>, st(p := set_assigned_cpu (cpu_id q) (st p))))"
    using add_process_free [OF assms(1) u(1)] by blast
  let ?q = "q\<lparr>queues := (queues q)(?l := queues q ?l @ [p]), load_average := n\<rparr>"
  have m: "mset (queued ?q) = mset (p # queued q)" by (cases ?l) (simp_all add: mset_queued)
  have d: "distinct (queued ?q)" "set (queued ?q) = insert p (set (queued q))"
  proof -
    have "distinct (p # queued q)" using assms(2,3) by (simp add: rq_ok_def members_queued)
    then show "distinct (queued ?q)" using m by (metis mset_eq_imp_distinct_iff)
    show "set (queued ?q) = insert p (set (queued q))" using mset_eq_setD [OF m] by simp
  qed
  have "rq_ok S (st(p := set_assigned_cpu (cpu_id q) (st p))) i ?q"
    unfolding rq_ok_def using assms u d by (auto simp: rq_ok_def unlocked_def members_queued set_assigned_cpu_def)
  moreover have "members ?q = insert p (members q)" using d(2) by (simp add: members_queued)
  ultimately show ?thesis using run by simp
qed

lemma tick_ok:
  assumes "spin_ok S" "rq_ok S st i q"
  shows "\<exists>q'. CpuRunQueue_timer_tick S t (q, st) = (Ok (), (q', st)) \<and> rq_ok S st i q' \<and> members q' = members q \<and> current_process q' = current_process q"
proof -
  have "unlocked S q" using assms(2) by (simp add: rq_ok_def)
  from timer_tick_free [OF assms(1) this, of t st] obtain q' where q: "CpuRunQueue_timer_tick S t (q, st) = (Ok (), (q', st))" "unlocked S q'"
    "cpu_id q' = cpu_id q" "current_process q' = current_process q"
    "queues q' = queues q \<or> (\<exists>p ps. queues q Low = p # ps \<and> queues q' = (queues q)(Low := ps, Normal := queues q Normal @ [p]))" by blast
  have "mset (queued q') = mset (queued q)" using q(5) by (auto simp: mset_queued)
  then have "distinct (queued q') \<longleftrightarrow> distinct (queued q)" "set (queued q') = set (queued q)"
    by (metis mset_eq_imp_distinct_iff, metis mset_eq_setD)
  then show ?thesis using q(1-4) assms(2) by (auto simp: rq_ok_def members_queued)
qed


section \<open>The invariant of the scheduler\<close>

definition known :: "'m Scheduler \<Rightarrow> ProcessId set" where
  "known s = {p. Some p \<in> set (processes s)}"

definition sched_ok :: "'m spin \<Rightarrow> 'm Scheduler \<Rightarrow> bool" where
  "sched_ok S s \<longleftrightarrow> (\<forall>i < length (per_cpu_queues s). rq_ok S (procs s) i (per_cpu_queues s ! i) \<and> members (per_cpu_queues s ! i) \<subseteq> known s)
     \<and> (\<forall>p \<in> known s. unat p < unat (NEXT_PID (kern s)))"

definition placed :: "'m Scheduler \<Rightarrow> ProcessId set" where
  "placed s = (\<Union>i < length (per_cpu_queues s). members (per_cpu_queues s ! i))"

lemma sched_ok_queue:
  assumes "sched_ok S s" "i < length (per_cpu_queues s)"
  shows "rq_ok S (procs s) i (per_cpu_queues s ! i)" "members (per_cpu_queues s ! i) \<subseteq> known s"
  using assms by (simp_all add: sched_ok_def)

lemma sched_ok_cong:
  assumes "sched_ok S s" "per_cpu_queues s' = per_cpu_queues s" "known s \<subseteq> known s'" "\<And>p. p \<in> placed s \<Longrightarrow> procs s' p = procs s p"
    "\<And>p. p \<in> known s' \<Longrightarrow> unat p < unat (NEXT_PID (kern s'))"
  shows "sched_ok S s'"
proof -
  have "rq_ok S (procs s') i (per_cpu_queues s ! i)" if "i < length (per_cpu_queues s)" for i
    by (rule rq_ok_frame [OF sched_ok_queue(1) [OF assms(1) that]]) (use that assms(4) in \<open>auto simp: placed_def\<close>)
  moreover have "members (per_cpu_queues s ! i) \<subseteq> known s'" if "i < length (per_cpu_queues s)" for i
    using sched_ok_queue(2) [OF assms(1) that] assms(3) by simp
  ultimately show ?thesis using assms(2,5) by (simp add: sched_ok_def)
qed

text \<open>An operation on one run queue keeps the invariant if it keeps that queue well and touches no process of another queue.\<close>

lemma on_cpu_ok:
  assumes "sched_ok S s" "i < length (per_cpu_queues s)"
    "m (per_cpu_queues s ! i, procs s) = (r, (q', st'))" "rq_ok S st' i q'" "members q' \<subseteq> members (per_cpu_queues s ! i) \<union> A"
    "\<And>p. p \<notin> members (per_cpu_queues s ! i) \<union> A \<Longrightarrow> st' p = procs s p" "A \<subseteq> known s" "A \<inter> placed s = {}"
  shows "\<exists>s'. on_cpu i m s = (r, s') \<and> sched_ok S s' \<and> s' = s\<lparr>per_cpu_queues := (per_cpu_queues s)[i := q'], procs := st'\<rparr>"
proof -
  let ?s = "s\<lparr>per_cpu_queues := (per_cpu_queues s)[i := q'], procs := st'\<rparr>"
  have k: "known ?s = known s" by (simp add: known_def)
  have other: "rq_ok S st' j (per_cpu_queues s ! j)" if j: "j < length (per_cpu_queues s)" "j \<noteq> i" for j
  proof (rule rq_ok_frame [OF sched_ok_queue(1) [OF assms(1) j(1)]])
    fix p assume p: "p \<in> members (per_cpu_queues s ! j)"
    have "p \<notin> members (per_cpu_queues s ! i)"
      using rq_ok_members(1) [OF sched_ok_queue(1) [OF assms(1) j(1)] p] rq_ok_members(1) [OF sched_ok_queue(1) [OF assms(1,2)], of p] j(2) by auto
    moreover have "p \<notin> A" using p j(1) assms(8) by (auto simp: placed_def)
    ultimately show "st' p = procs s p" using assms(6) by blast
  qed
  have "sched_ok S ?s"
    unfolding sched_ok_def k
  proof (intro conjI allI impI)
    fix j assume j: "j < length (per_cpu_queues ?s)"
    show "rq_ok S (procs ?s) j (per_cpu_queues ?s ! j)" using j other assms(2,4) by (cases "j = i") simp_all
    show "members (per_cpu_queues ?s ! j) \<subseteq> known s"
      using j sched_ok_queue(2) [OF assms(1)] assms(2,5,7) by (cases "j = i") (simp_all, blast)
  next
    show "\<forall>p \<in> known s. unat p < unat (NEXT_PID (kern ?s))" using assms(1) by (simp add: sched_ok_def)
  qed
  then show ?thesis using assms(2,3) by (simp add: on_cpu_def)
qed

lemma on_cpu_stuck:
  assumes "i < length (per_cpu_queues s)" "fst (m (per_cpu_queues s ! i, procs s)) = Err e"
  shows "fst (on_cpu i m s) = Err e"
  using assms by (auto simp: on_cpu_def split: prod.splits)

lemma on_cpu_same:
  assumes "i < length (per_cpu_queues s)" "m (per_cpu_queues s ! i, procs s) = (r, (per_cpu_queues s ! i, procs s))"
  shows "on_cpu i m s = (r, s)"
  using assms by (simp add: on_cpu_def)

section \<open>Operations of the scheduler\<close>

text \<open>What every operation keeps if it returns; only a scheduling decision changes the current process of a processor.\<close>

definition keeps_current :: "'m Scheduler \<Rightarrow> 'm Scheduler \<Rightarrow> bool" where
  "keeps_current s s' \<longleftrightarrow> map current_process (per_cpu_queues s') = map current_process (per_cpu_queues s) \<and> policy s' = policy s"

definition next_pid_ok :: "'m Scheduler \<Rightarrow> 'm Scheduler \<Rightarrow> bool" where
  "next_pid_ok s s' \<longleftrightarrow> unat (NEXT_PID (kern s')) \<le> unat (NEXT_PID (kern s)) + 1"

lemma sched_simps [simp]:
  "on_proc p f s = (Ok (), s\<lparr>procs := (procs s)(p := f (procs s p))\<rparr>)" "ask g s = (Ok (g s), s)" "change h s = (Ok (), h s)"
  by (simp_all add: on_proc_def ask_def change_def)

lemma known_simps [simp]:
  "known (s\<lparr>procs := a\<rparr>) = known s" "known (s\<lparr>per_cpu_queues := b\<rparr>) = known s" "known (s\<lparr>tick_counter := c\<rparr>) = known s"
  "known (s\<lparr>last_balance_tick := d\<rparr>) = known s" "known (s\<lparr>kern := k\<rparr>) = known s" "known (s\<lparr>policy := pol\<rparr>) = known s"
  by (simp_all add: known_def)

lemma sched_ok_simps:
  "sched_ok S s \<Longrightarrow> sched_ok S (s\<lparr>tick_counter := c\<rparr>)" "sched_ok S s \<Longrightarrow> sched_ok S (s\<lparr>last_balance_tick := d\<rparr>)"
  by (simp_all add: sched_ok_def known_def)

lemma sched_ok_outside:
  assumes "sched_ok S s" "p \<notin> placed s"
  shows "sched_ok S (s\<lparr>procs := (procs s)(p := x)\<rparr>)"
  using assms by (intro sched_ok_cong [OF assms(1)]) (auto simp: sched_ok_def)

lemma placed_elsewhere:
  assumes "sched_ok S s" "p \<in> placed s"
  shows "assigned_cpu (procs s p) < length (per_cpu_queues s)" "p \<in> members (per_cpu_queues s ! assigned_cpu (procs s p))"
    "p_state (procs s p) = Ready \<or> p_state (procs s p) = Running" "p \<in> known s"
proof -
  obtain i where i: "i < length (per_cpu_queues s)" "p \<in> members (per_cpu_queues s ! i)" using assms(2) by (auto simp: placed_def)
  note m = rq_ok_members [OF sched_ok_queue(1) [OF assms(1) i(1)] i(2)]
  show "assigned_cpu (procs s p) < length (per_cpu_queues s)" "p \<in> members (per_cpu_queues s ! assigned_cpu (procs s p))"
    "p_state (procs s p) = Ready \<or> p_state (procs s p) = Running" using i m by simp_all
  show "p \<in> known s" using sched_ok_queue(2) [OF assms(1) i(1)] i(2) by blast
qed

lemma remove_on_cpu:
  assumes "spin_ok S" "i < length (per_cpu_queues s)" "unlocked S (per_cpu_queues s ! i)"
  shows "p \<notin> members (per_cpu_queues s ! i) \<Longrightarrow> on_cpu i (remove_process S p) s = (Ok False, s)"
    "p \<in> members (per_cpu_queues s ! i) \<Longrightarrow> fst (on_cpu i (remove_process S p) s) = Err Deadlock"
proof -
  note r = remove_process_free [OF assms(1,3), of p "procs s"]
  show "on_cpu i (remove_process S p) s = (Ok False, s)" if "p \<notin> members (per_cpu_queues s ! i)"
    using on_cpu_same [where m = "remove_process S p", OF assms(2)] r(1) [OF that] by simp
  show "fst (on_cpu i (remove_process S p) s) = Err Deadlock" if "p \<in> members (per_cpu_queues s ! i)"
    using on_cpu_stuck [where m = "remove_process S p", OF assms(2)] r(2) [OF that] by simp
qed

lemma sched_unlocked: "sched_ok S s \<Longrightarrow> i < length (per_cpu_queues s) \<Longrightarrow> unlocked S (per_cpu_queues s ! i)"
  by (simp add: sched_ok_def rq_ok_def)

text \<open>Blocking and terminating return only for a process that is in no run queue.\<close>

lemma block_placed:
  assumes "spin_ok S" "sched_ok S s" "p \<in> placed s"
  shows "fst (block_process S p reason s) = Err Deadlock"
proof -
  note p = placed_elsewhere [OF assms(2,3)]
  let ?s = "s\<lparr>procs := (procs s)(p := set_block_reason (Some reason) (set_state Blocked (procs s p)))\<rparr>"
  have "fst (on_cpu (assigned_cpu (procs s p)) (remove_process S p) ?s) = Err Deadlock"
    using p sched_unlocked [OF assms(2) p(1)] by (intro remove_on_cpu(2) [OF assms(1)]) simp_all
  then show ?thesis using p by (simp add: block_process_def get_process_def known_def set_state_def set_block_reason_def bnd_stuck)
qed

lemma block_ok:
  assumes "spin_ok S" "sched_ok S s" "block_process S p reason s = (Ok (), s')"
  shows "sched_ok S s' \<and> kern s' = kern s \<and> keeps_current s s'"
proof -
  have out: "p \<notin> placed s" using block_placed [OF assms(1,2), of p reason] assms(3) by auto
  let ?s = "s\<lparr>procs := (procs s)(p := set_block_reason (Some reason) (set_state Blocked (procs s p)))\<rparr>"
  have ok: "sched_ok S ?s" using sched_ok_outside [OF assms(2) out] by simp
  have "s' = ?s \<or> s' = s"
  proof (cases "Some p \<in> set (processes s)")
    case True
    let ?c = "assigned_cpu (procs s p)"
    have "on_cpu ?c (remove_process S p) ?s = (Ok False, ?s)" if "?c < length (per_cpu_queues s)"
      using that out sched_unlocked [OF ok] by (intro remove_on_cpu(1) [OF assms(1)]) (auto simp: placed_def)
    then show ?thesis using assms(3) True
      by (auto simp: block_process_def get_process_def set_state_def set_block_reason_def ret_def split: if_splits)
  qed (use assms(3) in \<open>simp add: block_process_def get_process_def ret_def\<close>)
  then show ?thesis using ok assms(2) by (auto simp: keeps_current_def)
qed

lemma remove_everywhere_result:
  assumes "spin_ok S" "\<And>i. i < length (per_cpu_queues s) \<Longrightarrow> unlocked S (per_cpu_queues s ! i)" "set cs \<subseteq> {..<length (per_cpu_queues s)}"
  shows "if \<exists>i \<in> set cs. p \<in> members (per_cpu_queues s ! i) then fst (remove_everywhere S p cs s) = Err Deadlock
     else remove_everywhere S p cs s = (Ok (), s)"
  using assms(3)
proof (induction cs)
  case (Cons c cs)
  have c: "c < length (per_cpu_queues s)" using Cons.prems by simp
  note r = remove_on_cpu [OF assms(1) c assms(2) [OF c], of p]
  show ?case
  proof (cases "p \<in> members (per_cpu_queues s ! c)")
    case True
    then show ?thesis using r(2) by (simp add: bnd_stuck)
  next
    case False
    have "remove_everywhere S p (c # cs) s = remove_everywhere S p cs s" using r(1) [OF False] by (simp add: bnd_def)
    then show ?thesis using Cons False by simp
  qed
qed (simp add: ret_def)

lemma terminate_result:
  fixes p :: ProcessId and code :: i32
  assumes "spin_ok S" "sched_ok S s"
  defines "s1 \<equiv> s\<lparr>procs := (procs s)(p := set_exit_code (Some code) (set_state Zombie (procs s p)))\<rparr>"
  shows "p \<in> placed s \<Longrightarrow> fst (terminate_process S p code s) = Err Deadlock"
    "p \<notin> placed s \<Longrightarrow> terminate_process S p code s = (Ok (), if p \<in> known s then s1 else s)"
proof -
  have u: "unlocked S (per_cpu_queues s1 ! i)" if "i < length (per_cpu_queues s1)" for i using that sched_unlocked [OF assms(2)] by (simp add: s1_def)
  have "set [0..<length (per_cpu_queues s)] \<subseteq> {..<length (per_cpu_queues s1)}" by (auto simp: s1_def)
  note r = remove_everywhere_result [where s = s1 and p = p, OF assms(1) u this]
  have run: "terminate_process S p code s = (if p \<in> known s then remove_everywhere S p [0..<length (per_cpu_queues s)] s1 else (Ok (), s))"
    by (simp add: terminate_process_def get_process_def known_def s1_def ret_def)
  show "fst (terminate_process S p code s) = Err Deadlock" if "p \<in> placed s"
    using that r placed_elsewhere(4) [OF assms(2) that] by (auto simp: run placed_def s1_def split: if_splits)
  show "terminate_process S p code s = (Ok (), if p \<in> known s then s1 else s)" if "p \<notin> placed s"
    using that r by (auto simp: run placed_def s1_def split: if_splits)
qed

lemma terminate_ok:
  assumes "spin_ok S" "sched_ok S s" "terminate_process S p code s = (Ok (), s')"
  shows "sched_ok S s' \<and> kern s' = kern s \<and> keeps_current s s'"
proof -
  have out: "p \<notin> placed s" using terminate_result(1) [OF assms(1,2), of p code] assms(3) by auto
  from terminate_result(2) [OF assms(1,2) this, of code] assms(3) show ?thesis
    using sched_ok_outside [OF assms(2) out] assms(2) by (auto simp: keeps_current_def split: if_splits)
qed

lemma add_on_cpu:
  assumes "spin_ok S" "sched_ok S s" "p \<notin> placed s" "p \<in> known s" "p_state (procs s p) = Ready" "i < length (per_cpu_queues s)"
  shows "\<exists>s'. on_cpu i (add_process S p) s = (Ok (), s') \<and> sched_ok S s' \<and> kern s' = kern s \<and> keeps_current s s'"
proof -
  let ?q = "per_cpu_queues s ! i"
  have "p \<notin> members ?q" using assms(3,6) by (auto simp: placed_def)
  from add_ok [OF assms(1) sched_ok_queue(1) [OF assms(2,6)] this assms(5)] obtain q' st' where
    q: "add_process S p (?q, procs s) = (Ok (), (q', st'))" "rq_ok S st' i q'" "members q' = insert p (members ?q)"
      "current_process q' = current_process ?q" "\<And>r. r \<noteq> p \<Longrightarrow> st' r = procs s r" by blast
  have m: "members q' \<subseteq> members ?q \<union> {p}" using q(3) by auto
  have o: "\<And>r. r \<notin> members ?q \<union> {p} \<Longrightarrow> st' r = procs s r" using q(5) by auto
  have "map current_process ((per_cpu_queues s)[i := q']) = map current_process (per_cpu_queues s)"
    using q(4) assms(6) by (simp add: map_update list_update_same_conv)
  then show ?thesis using on_cpu_ok [where A = "{p}" and m = "add_process S p", OF assms(2,6) q(1,2) m o] assms(3,4) by (auto simp: keeps_current_def)
qed

lemma keeps_current_trans: "keeps_current s s' \<Longrightarrow> keeps_current s' s'' \<Longrightarrow> keeps_current s s''"
  by (simp add: keeps_current_def)

lemma unblock_ok:
  assumes "spin_ok S" "sched_ok S s" "unblock_process S p s = (Ok (), s')"
  shows "sched_ok S s' \<and> kern s' = kern s \<and> keeps_current s s'"
proof (cases "p \<in> known s \<and> p_state (procs s p) = Blocked \<and> cpu_count s \<noteq> 0")
  case True
  let ?c = "unat p mod cpu_count s"
  let ?s = "s\<lparr>procs := (procs s)(p := set_assigned_cpu ?c (set_block_reason None (set_state Ready (procs s p))))\<rparr>"
  have out: "p \<notin> placed s" using placed_elsewhere(3) [OF assms(2)] True by force
  have ok: "sched_ok S ?s" using sched_ok_outside [OF assms(2) out] by simp
  have run: "unblock_process S p s = (if ?c < length (per_cpu_queues s) then on_cpu ?c (add_process S p) ?s else (Ok (), ?s))"
    using True by (simp add: unblock_process_def get_process_def known_def select_cpu_for_process_def ret_def)
  show ?thesis
  proof (cases "?c < length (per_cpu_queues s)")
    case c: True
    have "p \<notin> placed ?s" "p \<in> known ?s" "p_state (procs ?s p) = Ready"
      using out True by (simp_all add: placed_def set_state_def set_block_reason_def set_assigned_cpu_def)
    from add_on_cpu [OF assms(1) ok this, of ?c] c run assms(3) show ?thesis by (auto simp: keeps_current_def)
  next
    case False
    then show ?thesis using run assms(3) ok by (simp add: keeps_current_def)
  qed
next
  case False
  then have "s' = s" using assms(3)
    by (auto simp: unblock_process_def get_process_def known_def select_cpu_for_process_def ret_def bnd_def split: if_splits)
  then show ?thesis using assms(2) by (simp add: keeps_current_def)
qed

lemma fill_slot_set: "Some y \<in> set (fill_slot x xs) \<longleftrightarrow> y = x \<or> Some y \<in> set xs"
  by (induction xs) auto

lemma Process_new_result:
  assumes "Process_new VA PA e pr k = (r, k')"
  shows "k' = snd (ProcessId_new k)" "r = Ok x \<Longrightarrow> p_id x = NEXT_PID k \<and> p_state x = Ready"
  using assms by (auto simp: Process_new_def ProcessId_new_def bind_res_Ok_iff)

lemma create_ok:
  assumes "spin_ok S" "sched_ok S s" "unat (NEXT_PID (kern s)) + 1 < 2 ^ 64" "create_process VA PA S e pr s = (Ok pid, s')"
  shows "sched_ok S s' \<and> next_pid_ok s s' \<and> keeps_current s s'"
proof -
  let ?k = "snd (ProcessId_new (kern s))"
  obtain r k where rk: "Process_new VA PA e pr (kern s) = (r, k)" by fastforce
  have "\<exists>x. r = Ok x" using assms(4) rk by (cases r) (auto simp: create_process_def bnd_def)
  then obtain x where x: "Process_new VA PA e pr (kern s) = (Ok x, ?k)" "p_id x = NEXT_PID (kern s)" "p_state x = Ready"
    using rk Process_new_result [OF rk] by auto
  let ?p = "NEXT_PID (kern s)"
  let ?s = "s\<lparr>kern := ?k, procs := (procs s)(?p := x), processes := fill_slot ?p (processes s)\<rparr>"
  have np: "unat (NEXT_PID ?k) = unat ?p + 1" using assms(3) by (simp add: ProcessId_new_def unat_word_ariths)
  have new: "?p \<notin> known s" using assms(2) by (auto simp: sched_ok_def)
  then have out: "?p \<notin> placed s" using placed_elsewhere(4) [OF assms(2)] by blast
  have known: "known ?s = insert ?p (known s)" by (auto simp: known_def fill_slot_set)
  have ok: "sched_ok S ?s"
  proof (rule sched_ok_cong [OF assms(2)])
    show "known s \<subseteq> known ?s" unfolding known by blast
    show "procs ?s p = procs s p" if "p \<in> placed s" for p using that out by auto
    show "unat p < unat (NEXT_PID (kern ?s))" if "p \<in> known ?s" for p
      using that assms(2) np unfolding known by (auto simp: sched_ok_def)
  qed simp
  let ?c = "select_cpu_for_new_process ?s"
  have run: "create_process VA PA S e pr s = bnd (on_cpu ?c (add_process S ?p)) (\<lambda>_. ret ?p) ?s"
    using x by (simp add: create_process_def Let_def bnd_def [of "\<lambda>s. case Process_new VA PA e pr (kern s) of (r, k) \<Rightarrow> (r, s\<lparr>kern := k\<rparr>)"])
  have c: "?c < length (per_cpu_queues ?s)" using assms(4) unfolding run by (auto simp: bnd_def on_cpu_def split: if_splits)
  have "?p \<notin> placed ?s" "?p \<in> known ?s" "p_state (procs ?s ?p) = Ready" using out known x(3) by (simp_all add: placed_def)
  from add_on_cpu [OF assms(1) ok this c] obtain s2 where
    s2: "on_cpu ?c (add_process S ?p) ?s = (Ok (), s2)" "sched_ok S s2" "kern s2 = ?k" "keeps_current ?s s2" by auto
  then have "s' = s2" using assms(4) unfolding run by (simp add: ret_def)
  then show ?thesis using s2 np by (simp add: next_pid_ok_def keeps_current_def)
qed

text \<open>Load balancing returns only if it moves nothing.\<close>

lemma balance_ok:
  assumes "spin_ok S" "sched_ok S s" "balance_load S c t s = (Ok (), s')"
  shows "s' = s\<lparr>last_balance_tick := t\<rparr>"
proof -
  let ?s = "s\<lparr>last_balance_tick := t\<rparr>"
  have ok: "sched_ok S ?s" by (rule sched_ok_simps(2) [OF assms(2)])
  have steal: "on_cpu i (steal_process S) ?s = (Ok None, ?s) \<or> fst (on_cpu i (steal_process S) ?s) \<in> {Err Deadlock, Panic}" for i
  proof (cases "i < length (per_cpu_queues ?s)")
    case True
    then show ?thesis using steal_process_free [OF assms(1) sched_unlocked [OF ok True], of "procs ?s"]
        on_cpu_same [where m = "steal_process S", OF True] on_cpu_stuck [where m = "steal_process S", OF True] by auto
  qed (simp add: on_cpu_def)
  have none: "x = None \<and> s2 = ?s" if "on_cpu i (steal_process S) ?s = (Ok x, s2)" for i x s2 using steal [of i] that by auto
  show ?thesis using assms(3)
    by (auto simp: balance_load_def Let_def bnd_def ret_def lift_res_def split: if_splits prod.splits res.splits option.splits dest: none)
qed

lemma schedule_cpu:
  assumes "spin_ok S" "sched_ok S s" "i < length (per_cpu_queues s)" "on_cpu i (get_next_process S pol) s = (Ok x, s')"
  shows "sched_ok S s' \<and> kern s' = kern s
     \<and> (\<forall>p. pol = RoundRobin \<longrightarrow> current_process (per_cpu_queues s ! i) = Some p \<longrightarrow> x = Some p \<and> s' = s)"
proof -
  let ?q = "per_cpu_queues s ! i"
  have u: "unlocked S ?q" by (rule sched_unlocked [OF assms(2,3)])
  obtain y q' st' where n: "get_next_process S pol (?q, procs s) = (Ok y, (q', st'))" "unlocked S q'" "chosen ?q (procs s) y q' st'"
    using get_next_process_free [OF assms(1) u] by blast
  have r: "rq_ok S st' i q'" "members q' \<subseteq> members ?q \<union> {}" "\<And>p. p \<notin> members ?q \<union> {} \<Longrightarrow> st' p = procs s p"
    using chosen_ok [OF n(3) sched_ok_queue(1) [OF assms(2,3)] n(2)] by auto
  have ok: "on_cpu i (get_next_process S pol) s = (Ok y, s') \<and> sched_ok S s' \<and> kern s' = kern s"
    using on_cpu_ok [where A = "{}" and m = "get_next_process S pol", OF assms(2,3) n(1) r] assms(4) by auto
  have "x = Some p \<and> s' = s" if "pol = RoundRobin" "current_process ?q = Some p" for p
  proof -
    have "running (procs s) p" using sched_ok_queue(1) [OF assms(2,3)] that(2) by (simp add: rq_ok_def running_def)
    from round_robin_continues [OF assms(1) u that(2) this] show ?thesis
      using on_cpu_same [where m = "round_robin_schedule S", OF assms(3)] assms(4) that(1) by (simp add: get_next_process_def)
  qed
  then show ?thesis using ok by blast
qed

lemma schedule_ok:
  assumes "spin_ok S" "sched_ok S s" "schedule S s = (Ok x, s')"
  shows "sched_ok S s' \<and> kern s' = kern s
     \<and> (policy s = RoundRobin \<longrightarrow> 0 < length (per_cpu_queues s) \<longrightarrow> current_process (per_cpu_queues s ! 0) = Some p \<longrightarrow> x = Some p \<and> keeps_current s s')"
proof -
  let ?t = "tick_counter s"
  let ?s = "s\<lparr>tick_counter := ?t + 1\<rparr>"
  have ok: "sched_ok S ?s" by (rule sched_ok_simps(1) [OF assms(2)])
  have "\<exists>s1. (if should_balance_load ?t ?s then balance_load S current_cpu_id ?t else ret ()) ?s = (Ok (), s1)"
    using assms(3) unfolding schedule_def by (auto simp: bnd_def split: prod.splits res.splits)
  then obtain s1 where b: "(if should_balance_load ?t ?s then balance_load S current_cpu_id ?t else ret ()) ?s = (Ok (), s1)" by blast
  have s1: "s1 = ?s \<or> s1 = ?s\<lparr>last_balance_tick := ?t\<rparr>"
    using b balance_ok [OF assms(1) ok] by (auto simp: ret_def split: if_splits)
  then have ok1: "sched_ok S s1" using ok sched_ok_simps(2) [OF ok] by auto
  have run: "schedule S s = (if 0 < length (per_cpu_queues s) then on_cpu 0 (get_next_process S (policy s)) s1 else (Ok None, s1))"
    using b s1 unfolding schedule_def by (auto simp: bnd_def current_cpu_id_def ret_def)
  have same: "per_cpu_queues s1 = per_cpu_queues s" "kern s1 = kern s" "policy s1 = policy s" using s1 by auto
  show ?thesis
  proof (cases "0 < length (per_cpu_queues s)")
    case True
    then show ?thesis using schedule_cpu [OF assms(1) ok1, of 0 "policy s" x s'] run assms(3) same by (auto simp: keeps_current_def)
  next
    case False
    then show ?thesis using run assms(3) ok1 same by simp
  qed
qed

lemma preempt_result:
  assumes "spin_ok S" "sched_ok S s" "c < length (per_cpu_queues s)"
  shows "current_process (per_cpu_queues s ! c) = None \<Longrightarrow> preempt_current_process S c s = (Ok (), s)"
    "current_process (per_cpu_queues s ! c) = Some p \<Longrightarrow> fst (preempt_current_process S c s) = Err Deadlock"
proof -
  note u = sched_unlocked [OF assms(2,3)]
  show "preempt_current_process S c s = (Ok (), s)" if "current_process (per_cpu_queues s ! c) = None"
    using preempt_current_free(1) [OF assms(1) u that] on_cpu_same [where m = "preempt_current S", OF assms(3)] assms(3)
    by (simp add: preempt_current_process_def)
  show "fst (preempt_current_process S c s) = Err Deadlock" if p: "current_process (per_cpu_queues s ! c) = Some p"
  proof -
    have "p_state (procs s p) = Running" using sched_ok_queue(1) [OF assms(2,3)] p by (simp add: rq_ok_def)
    from preempt_current_free(2) [where st = "procs s", OF assms(1) u p this] show ?thesis
      using on_cpu_stuck [where m = "preempt_current S", OF assms(3)] assms(3) by (simp add: preempt_current_process_def)
  qed
qed

lemma preempt_ok:
  assumes "spin_ok S" "sched_ok S s" "preempt_current_process S c s = (Ok (), s')"
  shows "s' = s"
  using preempt_result [OF assms(1,2), of c] assms(3)
  by (cases "c < length (per_cpu_queues s)"; cases "current_process (per_cpu_queues s ! c)") (simp_all add: preempt_current_process_def ret_def)

text \<open>The part of a timer interrupt before the time slice is looked at.\<close>

lemma tick_cpu:
  assumes "spin_ok S" "sched_ok S s"
  shows "\<exists>s1. (if c < length (per_cpu_queues s) then on_cpu c (CpuRunQueue_timer_tick S t) else ret ()) s = (Ok (), s1)
     \<and> sched_ok S s1 \<and> kern s1 = kern s \<and> keeps_current s s1"
proof (cases "c < length (per_cpu_queues s)")
  case True
  let ?q = "per_cpu_queues s ! c"
  obtain q' where q: "CpuRunQueue_timer_tick S t (?q, procs s) = (Ok (), (q', procs s))" "rq_ok S (procs s) c q'" "members q' = members ?q"
    "current_process q' = current_process ?q" using tick_ok [OF assms(1) sched_ok_queue(1) [OF assms(2) True]] by blast
  have m: "members q' \<subseteq> members ?q \<union> {}" using q(3) by simp
  have "map current_process ((per_cpu_queues s)[c := q']) = map current_process (per_cpu_queues s)"
    using q(4) True by (simp add: map_update list_update_same_conv)
  then show ?thesis using True on_cpu_ok [where A = "{}" and m = "CpuRunQueue_timer_tick S t", OF assms(2) True q(1,2) m] by (auto simp: keeps_current_def)
qed (use assms(2) in \<open>simp add: ret_def keeps_current_def\<close>)

lemma timer_tick_run:
  assumes "spin_ok S" "sched_ok S s"
  shows "\<exists>s1. sched_ok S s1 \<and> kern s1 = kern s \<and> keeps_current s s1 \<and> timer_tick S c s =
     (if time_slice_ticks s = 0 then (Panic, s1)
      else if tick_counter s mod ucast (time_slice_ticks s) = 0 then preempt_current_process S c s1 else (Ok (), s1))"
proof -
  let ?s = "s\<lparr>tick_counter := tick_counter s + 1\<rparr>"
  obtain s1 where s1: "(if c < length (per_cpu_queues ?s) then on_cpu c (CpuRunQueue_timer_tick S (tick_counter s)) else ret ()) ?s = (Ok (), s1)"
    "sched_ok S s1" "kern s1 = kern ?s" "keeps_current ?s s1"
    using tick_cpu [OF assms(1) sched_ok_simps(1) [OF assms(2), of "tick_counter s + 1"], of c "tick_counter s"] by blast
  then show ?thesis by (intro exI [of _ s1]) (simp add: timer_tick_def keeps_current_def lift_res_def ret_def)
qed

lemma timer_tick_ok:
  assumes "spin_ok S" "sched_ok S s" "timer_tick S c s = (Ok (), s')"
  shows "sched_ok S s' \<and> kern s' = kern s \<and> keeps_current s s'"
proof -
  obtain s1 where s1: "sched_ok S s1" "kern s1 = kern s" "keeps_current s s1" "timer_tick S c s =
     (if time_slice_ticks s = 0 then (Panic, s1)
      else if tick_counter s mod ucast (time_slice_ticks s) = 0 then preempt_current_process S c s1 else (Ok (), s1))"
    using timer_tick_run [OF assms(1,2)] by blast
  have "s' = s1" using s1(4) assms(3) preempt_ok [OF assms(1) s1(1), of c s'] by (simp split: if_splits)
  then show ?thesis using s1 by simp
qed

section \<open>Runs of the scheduler\<close>

datatype sched_op = Init nat | Create u64 u8 | Schedule | Block ProcessId BlockReason | Unblock ProcessId | Terminate ProcessId i32
  | Tick nat | Preempt nat | Configure SchedulingPolicy u32 | CurrentId

definition perform :: "addr_new \<Rightarrow> addr_new \<Rightarrow> 'm spin \<Rightarrow> sched_op \<Rightarrow> ('m, unit) sched" where
  "perform VA PA S x = (case x of
       Init n \<Rightarrow> Scheduler_init S n
     | Create e pr \<Rightarrow> bnd (create_process VA PA S e pr) (\<lambda>_. ret ())
     | Schedule \<Rightarrow> bnd (schedule S) (\<lambda>_. ret ())
     | Block p r \<Rightarrow> block_process S p r
     | Unblock p \<Rightarrow> unblock_process S p
     | Terminate p c \<Rightarrow> terminate_process S p c
     | Tick c \<Rightarrow> timer_tick S c
     | Preempt c \<Rightarrow> preempt_current_process S c
     | Configure pol t \<Rightarrow> configure pol t
     | CurrentId \<Rightarrow> bnd get_current_process_id (\<lambda>_. ret ()))"

primrec run_ops :: "addr_new \<Rightarrow> addr_new \<Rightarrow> 'm spin \<Rightarrow> sched_op list \<Rightarrow> ('m, unit) sched" where
  "run_ops VA PA S [] = ret ()"
| "run_ops VA PA S (x # xs) = bnd (perform VA PA S x) (\<lambda>_. run_ops VA PA S xs)"

definition steady :: "sched_op \<Rightarrow> bool" where
  "steady x \<longleftrightarrow> (case x of Init _ \<Rightarrow> False | Configure _ _ \<Rightarrow> False | _ \<Rightarrow> True)"

text \<open>Processor 0 runs \<open>p\<close> under the round-robin policy.\<close>

definition occupied :: "ProcessId \<Rightarrow> 'm Scheduler \<Rightarrow> bool" where
  "occupied p s \<longleftrightarrow> policy s = RoundRobin \<and> per_cpu_queues s \<noteq> [] \<and> current_process (hd (per_cpu_queues s)) = Some p"

lemma occupied_keeps: "occupied p s \<Longrightarrow> keeps_current s s' \<Longrightarrow> occupied p s'"
proof -
  assume "occupied p s" "keeps_current s s'"
  then have "map current_process (per_cpu_queues s') = map current_process (per_cpu_queues s)" "policy s' = policy s" "occupied p s"
    by (simp_all add: keeps_current_def)
  then show "occupied p s'" by (cases "per_cpu_queues s"; cases "per_cpu_queues s'") (auto simp: occupied_def)
qed

lemma bnd_ret_Ok: "bnd m (\<lambda>_. ret ()) s = (Ok (), s') \<longleftrightarrow> (\<exists>x. m s = (Ok x, s'))"
  by (auto simp: bnd_def ret_def split: prod.splits res.splits)

lemma perform_ok:
  assumes "spin_ok S" "sched_ok S s" "unat (NEXT_PID (kern s)) + 1 < 2 ^ 64" "perform VA PA S x s = (Ok (), s')"
  shows "sched_ok S s' \<and> next_pid_ok s s' \<and> (steady x \<longrightarrow> occupied p s \<longrightarrow> occupied p s')"
proof -
  have same: "kern s' = kern s \<Longrightarrow> next_pid_ok s s'" by (simp add: next_pid_ok_def)
  note k = occupied_keeps [of p s s']
  show ?thesis
  proof (cases x)
    case (Init n)
    then have "s' = s\<lparr>cpu_count := n, per_cpu_queues := map (CpuRunQueue_new S) [0..<n]\<rparr>" using assms(4) by (simp add: perform_def Scheduler_init_def)
    then show ?thesis using assms(2) Init
      by (auto simp: sched_ok_def rq_ok_def known_def CpuRunQueue_new_def unlocked_def queued_def members_def next_pid_ok_def steady_def)
  next
    case (Create e pr)
    then show ?thesis using create_ok [OF assms(1-3)] assms(4) k by (auto simp: perform_def bnd_ret_Ok)
  next
    case Schedule
    then obtain y where y: "schedule S s = (Ok y, s')" using assms(4) by (auto simp: perform_def bnd_ret_Ok)
    have "occupied p s \<Longrightarrow> current_process (per_cpu_queues s ! 0) = Some p \<and> 0 < length (per_cpu_queues s) \<and> policy s = RoundRobin"
      by (auto simp: occupied_def hd_conv_nth)
    then show ?thesis using schedule_ok [OF assms(1,2) y, of p] same k by auto
  next
    case (Block q r)
    then show ?thesis using block_ok [OF assms(1,2)] assms(4) same k by (auto simp: perform_def)
  next
    case (Unblock q)
    then show ?thesis using unblock_ok [OF assms(1,2)] assms(4) same k by (auto simp: perform_def)
  next
    case (Terminate q c)
    then show ?thesis using terminate_ok [OF assms(1,2)] assms(4) same k by (auto simp: perform_def)
  next
    case (Tick c)
    then show ?thesis using timer_tick_ok [OF assms(1,2)] assms(4) same k by (auto simp: perform_def)
  next
    case (Preempt c)
    then show ?thesis using preempt_ok [OF assms(1,2)] assms(2,4) same by (auto simp: perform_def)
  next
    case (Configure pol t)
    then have "s' = s\<lparr>policy := pol, time_slice_ticks := t\<rparr>" using assms(4) by (simp add: perform_def configure_def)
    then show ?thesis using assms(2) Configure by (simp add: sched_ok_def known_def next_pid_ok_def steady_def)
  next
    case CurrentId
    then have s': "s' = s\<lparr>kern := snd (ProcessId_new (kern s))\<rparr>"
      using assms(4) by (auto simp: perform_def bnd_ret_Ok get_current_process_id_def split: prod.splits)
    have "unat (NEXT_PID (snd (ProcessId_new (kern s)))) = unat (NEXT_PID (kern s)) + 1"
      using assms(3) by (simp add: ProcessId_new_def unat_word_ariths)
    then show ?thesis using assms(2) by (auto simp: s' sched_ok_def known_def next_pid_ok_def occupied_def)
  qed
qed

lemma run_ops_ok:
  assumes "spin_ok S" "sched_ok S s" "unat (NEXT_PID (kern s)) + length xs < 2 ^ 64" "run_ops VA PA S xs s = (Ok (), s')"
  shows "sched_ok S s' \<and> unat (NEXT_PID (kern s')) \<le> unat (NEXT_PID (kern s)) + length xs \<and> (list_all steady xs \<longrightarrow> occupied p s \<longrightarrow> occupied p s')"
  using assms(2-4)
proof (induction xs arbitrary: s)
  case (Cons x xs)
  then obtain s1 where s1: "perform VA PA S x s = (Ok (), s1)" "run_ops VA PA S xs s1 = (Ok (), s')"
    by (auto simp: bnd_def split: prod.splits res.splits)
  from perform_ok [OF assms(1) Cons.prems(1) _ s1(1), of p] Cons.prems(2)
  have 1: "sched_ok S s1" "next_pid_ok s s1" "steady x \<Longrightarrow> occupied p s \<Longrightarrow> occupied p s1" by auto
  then have "unat (NEXT_PID (kern s1)) + length xs < 2 ^ 64" using Cons.prems(2) by (simp add: next_pid_ok_def)
  from Cons.IH [OF 1(1) this s1(2)] 1 show ?case by (auto simp: next_pid_ok_def)
qed (simp add: ret_def)

lemma sched_ok_start: "sched_ok S (Scheduler_new k st)"
  by (simp add: sched_ok_def Scheduler_new_def known_def)

definition places :: "'m Scheduler \<Rightarrow> ProcessId list" where
  "places s = concat (map (\<lambda>q. queued q @ (case current_process q of None \<Rightarrow> [] | Some p \<Rightarrow> [p])) (per_cpu_queues s))"

lemma distinct_concat_indexed:
  assumes "\<And>i. i < length xss \<Longrightarrow> distinct (xss ! i)" "\<And>i x. i < length xss \<Longrightarrow> x \<in> set (xss ! i) \<Longrightarrow> f x = i"
  shows "distinct (concat xss)"
  using assms
proof (induction xss arbitrary: f rule: rev_induct)
  case (snoc xs xss)
  have "distinct (xss ! i)" "x \<in> set (xss ! i) \<Longrightarrow> f x = i" if "i < length xss" for i x
    using that snoc.prems(1) [of i] snoc.prems(2) [of i x] by (simp_all add: nth_append)
  then have "distinct (concat xss)" by (intro snoc.IH [of f])
  moreover have "x \<notin> set xs" if x: "x \<in> set (concat xss)" for x
  proof -
    obtain ys where "ys \<in> set xss" "x \<in> set ys" using x by auto
    then obtain i where "i < length xss" "x \<in> set (xss ! i)" by (metis in_set_conv_nth)
    then have "f x < length xss" using snoc.prems(2) [of i x] by (simp add: nth_append)
    then show ?thesis using snoc.prems(2) [of "length xss" x] by auto
  qed
  moreover have "distinct xs" using snoc.prems(1) [of "length xss"] by simp
  ultimately show ?case by auto
qed simp

lemma places_distinct:
  assumes "sched_ok S s"
  shows "distinct (places s)"
  unfolding places_def
proof (rule distinct_concat_indexed [where f = "\<lambda>p. assigned_cpu (procs s p)"])
  fix i assume "i < length (map (\<lambda>q. queued q @ (case current_process q of None \<Rightarrow> [] | Some p \<Rightarrow> [p])) (per_cpu_queues s))"
  then have i: "i < length (per_cpu_queues s)" by simp
  from sched_ok_queue(1) [OF assms i] show "distinct (map (\<lambda>q. queued q @ (case current_process q of None \<Rightarrow> [] | Some p \<Rightarrow> [p])) (per_cpu_queues s) ! i)"
    using i by (force simp: rq_ok_def split: option.splits)
  show "assigned_cpu (procs s x) = i" if "x \<in> set (map (\<lambda>q. queued q @ (case current_process q of None \<Rightarrow> [] | Some p \<Rightarrow> [p])) (per_cpu_queues s) ! i)" for x
    using that i sched_ok_queue(1) [OF assms i] by (auto simp: rq_ok_def split: option.splits)
qed

section \<open>Properties\<close>

text \<open>A mutex as a flag, and a machine on which every address is canonical.\<close>

definition bool_mutex :: "bool spin" where
  "bool_mutex = \<lparr>fresh = False, lock = (\<lambda>b. if b then None else Some True), unlock = (\<lambda>_. False)\<rparr>"

definition no_process :: Process where
  "no_process = \<lparr>p_id = 0, p_context = ProcessContext_new 0 0 0, p_state = Zombie, p_priority = 0, assigned_cpu = 0, creation_time = 0,
     total_runtime = 0, last_scheduled = 0, p_page_table = 0, stack_base = 0, heap_base = 0, p_name = [], parent_pid = None, exit_code = None,
     block_reason = None, capability_table = [], file_descriptors = [], p_context_switches = 0, page_faults = 0, syscalls = 0\<rparr>"

abbreviation started :: "bool Scheduler" where
  "started \<equiv> Scheduler_new kernel_start (\<lambda>_. no_process)"

lemma bool_mutex_ok: "spin_ok bool_mutex"
  by (simp add: spin_ok_def bool_mutex_def)

lemmas run_simps = perform_def Scheduler_init_def Scheduler_new_def create_process_def Process_new_def allocate_page_table_def
  ProcessId_new_def kernel_start_def ProcessContext_new_def bnd_def ret_def ask_def change_def on_proc_def on_cpu_def select_cpu_for_new_process_def
  get_load_def CpuRunQueue_new_def add_process_def rq_get_def rq_mod_def on_process_def of_process_def set_assigned_cpu_def level_of_def locked_def
  acquire_def release_def push_back_def update_load_def len_of_def is_busy_def bool_mutex_def schedule_def should_balance_load_def saturating_sub_def
  current_cpu_id_def get_next_process_def round_robin_schedule_def is_running_def get_next_ready_process_def or_else_def pop_locked_def pop_front_def
  start_running_def set_state_def increment_context_switches_def set_current_def count_switch_def
  configure_def

text \<open>Two processors, a time slice of one tick, two processes, one of them scheduled.\<close>

definition session :: "sched_op list" where
  "session = [Init 2, Configure RoundRobin 1, Create 0x400000 100, Create 0x500000 200, Schedule]"

lemma session_runs:
  "\<exists>s. run_ops Ok Ok bool_mutex session started = (Ok (), s) \<and> length (per_cpu_queues s) = 2 \<and> current_process (per_cpu_queues s ! 0) = Some 1
     \<and> places s = [1, 2] \<and> occupied 1 s \<and> time_slice_ticks s = 1"
  "unat (NEXT_PID kernel_start) = 1" "length session = 5"
  by (simp_all add: session_def run_simps queued_def upt_rec places_def occupied_def)

text \<open>
  C12: In every run of the scheduler that returns, whatever the order of its operations, a process is in at most one run queue and at most once, or
  it is the current process of one processor; what is queued is ready and what is current is running, and both know their processor.
\<close>

theorem processes_in_one_place:
  assumes "spin_ok S" "unat (NEXT_PID k) + length xs < 2 ^ 64" "run_ops VA PA S xs (Scheduler_new k st) = (Ok (), s)"
  shows "distinct (places s) \<and> (\<forall>i < length (per_cpu_queues s).
       (\<forall>p \<in> set (queued (per_cpu_queues s ! i)). p_state (procs s p) = Ready \<and> assigned_cpu (procs s p) = i)
     \<and> (\<forall>p. current_process (per_cpu_queues s ! i) = Some p \<longrightarrow> p_state (procs s p) = Running \<and> assigned_cpu (procs s p) = i))"
proof -
  have ok: "sched_ok S s"
    using run_ops_ok [OF assms(1) sched_ok_start _ assms(3)] assms(2) by (simp add: Scheduler_new_def)
  then show ?thesis using places_distinct [OF ok] sched_ok_queue(1) [OF ok] by (simp add: rq_ok_def)
qed

theorem processes_in_one_place_witness:
  "\<exists>s. run_ops Ok Ok bool_mutex session started = (Ok (), s) \<and> distinct (places s) \<and> places s = [1, 2] \<and> p_state (procs s 1) = Running"
proof -
  obtain s where s: "run_ops Ok Ok bool_mutex session started = (Ok (), s)" "length (per_cpu_queues s) = 2"
    "current_process (per_cpu_queues s ! 0) = Some 1" "places s = [1, 2]" using session_runs(1) by blast
  have all: "distinct (places s)" "\<forall>i < length (per_cpu_queues s). \<forall>p. current_process (per_cpu_queues s ! i) = Some p \<longrightarrow> p_state (procs s p) = Running"
    using processes_in_one_place [OF bool_mutex_ok _ s(1)] session_runs(2,3) by auto
  from all(2) have "0 < length (per_cpu_queues s) \<longrightarrow> p_state (procs s 1) = Running" using s(3) by blast
  then show ?thesis using s all(1) by simp
qed

text \<open>
  C13: The scheduler deadlocks on its own mutexes. After every run that returns, blocking or terminating a process that is queued or current
  never returns, and neither does preempting a processor that runs a process; so the first timer interrupt at the end of
  a time slice on a busy processor hangs the machine.
\<close>

theorem removal_and_preemption_hang:
  assumes "spin_ok S" "unat (NEXT_PID k) + length xs < 2 ^ 64" "run_ops VA PA S xs (Scheduler_new k st) = (Ok (), s)"
  shows "(p \<in> set (places s) \<longrightarrow> fst (block_process S p reason s) = Err Deadlock \<and> fst (terminate_process S p code s) = Err Deadlock)
     \<and> (c < length (per_cpu_queues s) \<and> current_process (per_cpu_queues s ! c) \<noteq> None \<longrightarrow>
          fst (preempt_current_process S c s) = Err Deadlock
          \<and> (time_slice_ticks s \<noteq> 0 \<and> tick_counter s mod ucast (time_slice_ticks s) = 0 \<longrightarrow> fst (timer_tick S c s) = Err Deadlock))"
proof -
  have ok: "sched_ok S s"
    using run_ops_ok [OF assms(1) sched_ok_start _ assms(3)] assms(2) by (simp add: Scheduler_new_def)
  have placed: "set (places s) = placed s"
    by (force simp: places_def placed_def members_queued in_set_conv_nth split: option.splits)
  have tick: "fst (timer_tick S c s) = Err Deadlock" if "c < length (per_cpu_queues s)" "current_process (per_cpu_queues s ! c) = Some q"
    "time_slice_ticks s \<noteq> 0" "tick_counter s mod ucast (time_slice_ticks s) = 0" for q
  proof -
    note slice = that(3,4)
    obtain s1 where s1: "sched_ok S s1" "keeps_current s s1" "timer_tick S c s = preempt_current_process S c s1"
      using timer_tick_run [OF assms(1) ok, of c] slice by auto
    have "map current_process (per_cpu_queues s1) = map current_process (per_cpu_queues s)" using s1(2) by (simp add: keeps_current_def)
    then have "c < length (per_cpu_queues s1)" "current_process (per_cpu_queues s1 ! c) = Some q" using that(1,2) by (metis length_map, metis length_map nth_map)
    then show ?thesis using preempt_result(2) [OF assms(1) s1(1)] s1(3) by simp
  qed
  show ?thesis
  proof (intro conjI impI)
    show "fst (block_process S p reason s) = Err Deadlock" "fst (terminate_process S p code s) = Err Deadlock" if "p \<in> set (places s)"
      using that block_placed [OF assms(1) ok] terminate_result(1) [OF assms(1) ok] by (simp_all add: placed)
    assume "c < length (per_cpu_queues s) \<and> current_process (per_cpu_queues s ! c) \<noteq> None"
    then obtain q where c: "c < length (per_cpu_queues s)" "current_process (per_cpu_queues s ! c) = Some q" by auto
    show "fst (preempt_current_process S c s) = Err Deadlock" by (rule preempt_result(2) [OF assms(1) ok c])
    show "fst (timer_tick S c s) = Err Deadlock" if "time_slice_ticks s \<noteq> 0 \<and> tick_counter s mod ucast (time_slice_ticks s) = 0"
      using that by (intro tick [OF c]) simp_all
  qed
qed

theorem removal_and_preemption_hang_witness:
  "\<exists>s. run_ops Ok Ok bool_mutex session started = (Ok (), s) \<and> fst (block_process bool_mutex 2 IoWait s) = Err Deadlock
     \<and> fst (timer_tick bool_mutex 0 s) = Err Deadlock"
proof -
  obtain s where s: "run_ops Ok Ok bool_mutex session started = (Ok (), s)" "length (per_cpu_queues s) = 2"
    "current_process (per_cpu_queues s ! 0) = Some 1" "places s = [1, 2]" "time_slice_ticks s = 1" using session_runs(1) by blast
  have "fst (block_process bool_mutex 2 IoWait s) = Err Deadlock" "fst (timer_tick bool_mutex 0 s) = Err Deadlock"
    using removal_and_preemption_hang [OF bool_mutex_ok _ s(1), of 2 IoWait 0 0] s(2-5) session_runs(2,3) by auto
  then show ?thesis using s(1) by blast
qed

text \<open>
  C14: Under the round-robin policy the first process that processor 0 gets keeps it: whatever happens afterwards, short of another policy or a new
  initialisation, as long as the operations return it stays current, and every scheduling decision returns it.
\<close>

theorem first_process_keeps_cpu:
  assumes "spin_ok S" "unat (NEXT_PID k) + length xs + length ys < 2 ^ 64" "run_ops VA PA S xs (Scheduler_new k st) = (Ok (), s)" "occupied p s"
    "list_all steady ys" "run_ops VA PA S ys s = (Ok (), s')"
  shows "occupied p s' \<and> (\<forall>x s''. schedule S s' = (Ok x, s'') \<longrightarrow> x = Some p)"
proof -
  have s: "sched_ok S s" "unat (NEXT_PID (kern s)) \<le> unat (NEXT_PID k) + length xs"
    using run_ops_ok [OF assms(1) sched_ok_start _ assms(3)] assms(2) by (simp_all add: Scheduler_new_def)
  then have s': "sched_ok S s'" "occupied p s'" using run_ops_ok [OF assms(1) s(1) _ assms(6), of p] assms(2,4,5) by auto
  have "policy s' = RoundRobin" "0 < length (per_cpu_queues s')" "current_process (per_cpu_queues s' ! 0) = Some p"
    using s'(2) by (auto simp: occupied_def hd_conv_nth)
  then show ?thesis using s' schedule_ok [OF assms(1) s'(1), of _ _ p] by blast
qed

theorem first_process_keeps_cpu_witness:
  "\<exists>s s'. run_ops Ok Ok bool_mutex session started = (Ok (), s) \<and> run_ops Ok Ok bool_mutex [CurrentId, CurrentId] s = (Ok (), s') \<and> occupied 1 s'"
proof -
  obtain s where s: "run_ops Ok Ok bool_mutex session started = (Ok (), s)" "occupied 1 s" using session_runs(1) by blast
  obtain s' where s': "run_ops Ok Ok bool_mutex [CurrentId, CurrentId] s = (Ok (), s')"
    by (simp add: perform_def get_current_process_id_def ProcessId_new_def bnd_def ret_def)
  have "list_all steady [CurrentId, CurrentId]" by (simp add: steady_def)
  then have "occupied 1 s'"
    using first_process_keeps_cpu [OF bool_mutex_ok _ s(1,2) _ s'] session_runs(2,3) by simp
  then show ?thesis using s(1) s' by blast
qed

end
