(* ===== verification/Block_Device.thy ===== *)
theory Block_Device
  imports Prelude
begin

text \<open>
  The sector interface between the filesystem (\<^verbatim>\<open>crates/galleon2\<close>) and the disk driver
  (\<^verbatim>\<open>drivers/ide\<close>): the three driver calls galleon2 makes, the error types of both crates, the
  mutable statics of galleon2, and the locale \<open>block_device\<close> that states what the filesystem
  relies on. The driver's own definitions are in \<open>Ide\<close>, where the locale is interpreted; an
  in-memory disk is interpreted here, so that properties can be evaluated on concrete inputs.
\<close>

section \<open>Errors\<close>

datatype ide_error =
    IdeDriveNotFound
  | DriveFault
  | StatusError
  | DataNotReady
  | LbaOutOfRange
  | Timeout
  | IdeInvalidParameter
  | BufferTooSmall

datatype fs_error =
    Ide ide_error
  | InvalidBootBlock
  | DriveNotFound
  | InsufficientSpace
  | InvalidParameter
  | WriteError

fun fs_error_of_ide :: "ide_error \<Rightarrow> fs_error" where
  "fs_error_of_ide IdeDriveNotFound = DriveNotFound"
| "fs_error_of_ide e = Ide e"


section \<open>The driver calls and the state of the filesystem code\<close>

text \<open>
  \<^verbatim>\<open>ide_read_sectors\<close> fills the front of the buffer it is given and leaves the rest, so the
  model passes the buffer in and returns it filled.
\<close>

record 'v bdev =
  bd_read :: "u8 \<Rightarrow> u8 \<Rightarrow> u32 \<Rightarrow> bytes \<Rightarrow> ('v, ide_error, bytes) prog"
  bd_write :: "u8 \<Rightarrow> u8 \<Rightarrow> u32 \<Rightarrow> bytes \<Rightarrow> ('v, ide_error, unit) prog"
  bd_size :: "u8 \<Rightarrow> ('v, ide_error, u64) prog"

text \<open>
  The device state and the three \<^verbatim>\<open>static mut\<close> counters of galleon2: \<^verbatim>\<open>NEXT_RECORD\<close> in
  \<^verbatim>\<open>mft.rs\<close>, \<^verbatim>\<open>NEXT_VCN\<close> in \<^verbatim>\<open>btree.rs\<close> and \<^verbatim>\<open>COUNTER\<close> in \<^verbatim>\<open>journal.rs\<close>.
\<close>

record 'v world =
  dev :: 'v
  NEXT_RECORD :: u64
  NEXT_VCN :: u64
  COUNTER :: u64

type_synonym ('v, 'a) fs = "('v world, fs_error, 'a) prog"

definition on_dev :: "('v, ide_error, 'a) prog \<Rightarrow> ('v, 'a) fs" where
  "on_dev m = (\<lambda>w. case m (dev w) of (r, v) \<Rightarrow> (map_err fs_error_of_ide r, w\<lparr>dev := v\<rparr>))"

abbreviation dread :: "'v bdev \<Rightarrow> u8 \<Rightarrow> u8 \<Rightarrow> u32 \<Rightarrow> bytes \<Rightarrow> ('v, bytes) fs" where
  "dread B d n lba buf \<equiv> on_dev (bd_read B d n lba buf)"

abbreviation dwrite :: "'v bdev \<Rightarrow> u8 \<Rightarrow> u8 \<Rightarrow> u32 \<Rightarrow> bytes \<Rightarrow> ('v, unit) fs" where
  "dwrite B d n lba buf \<equiv> on_dev (bd_write B d n lba buf)"

abbreviation dsize :: "'v bdev \<Rightarrow> u8 \<Rightarrow> ('v, u64) fs" where
  "dsize B d \<equiv> on_dev (bd_size B d)"

text \<open>
  A method with a mutable receiver runs on the pair of the receiver and the world. \<open>io\<close> runs a
  call that does not touch the receiver, \<open>gets\<close> and \<open>modify\<close> read and update it, and \<open>zoom\<close> runs a
  method of a field, given the field's getter and setter.
\<close>

type_synonym ('s, 'v, 'a) meth = "('s \<times> 'v world, fs_error, 'a) prog"

definition io :: "('v, 'a) fs \<Rightarrow> ('s, 'v, 'a) meth" where
  "io m = (\<lambda>(s, w). case m w of (r, w') \<Rightarrow> (r, (s, w')))"

definition gets :: "('s \<Rightarrow> 'a) \<Rightarrow> ('s, 'v, 'a) meth" where
  "gets f = (\<lambda>(s, w). (Ok (f s), (s, w)))"

definition modify :: "('s \<Rightarrow> 's) \<Rightarrow> ('s, 'v, unit) meth" where
  "modify f = (\<lambda>(s, w). (Ok (), (f s, w)))"

definition zoom :: "('s \<Rightarrow> 't) \<Rightarrow> ('t \<Rightarrow> 's \<Rightarrow> 's) \<Rightarrow> ('t, 'v, 'a) meth \<Rightarrow> ('s, 'v, 'a) meth" where
  "zoom g p m = (\<lambda>(s, w). case m (g s, w) of (r, (t, w')) \<Rightarrow> (r, (p t s, w')))"

lemma wp_io [wp_simps]: "wp (io m) (s, w) Q \<longleftrightarrow> wp m w (\<lambda>r w'. Q r (s, w'))"
  by (auto simp: wp_def io_def split: prod.splits)

lemma wp_gets [wp_simps]: "wp (gets f) (s, w) Q \<longleftrightarrow> Q (Ok (f s)) (s, w)"
  by (simp add: wp_def gets_def)

lemma wp_modify [wp_simps]: "wp (modify f) (s, w) Q \<longleftrightarrow> Q (Ok ()) (f s, w)"
  by (simp add: wp_def modify_def)

lemma wp_zoom [wp_simps]:
  "wp (zoom g p m) (s, w) Q \<longleftrightarrow> wp m (g s, w) (\<lambda>r t. Q r (p (fst t) s, snd t))"
  by (auto simp: wp_def zoom_def split: prod.splits)

text \<open>Rust's \<^verbatim>\<open>as u8\<close> and \<^verbatim>\<open>as u32\<close> keep the low bits.\<close>

abbreviation as_u8 :: "'l::len word \<Rightarrow> u8" where "as_u8 \<equiv> ucast"
abbreviation as_u32 :: "'l::len word \<Rightarrow> u32" where "as_u32 \<equiv> ucast"
abbreviation as_u64 :: "'l::len word \<Rightarrow> u64" where "as_u64 \<equiv> ucast"


section \<open>Sector stores\<close>

type_synonym store = "nat \<Rightarrow> bytes"

definition read_sectors :: "store \<Rightarrow> nat \<Rightarrow> nat \<Rightarrow> bytes" where
  "read_sectors f lba n = concat (map f [lba..<lba + n])"

definition write_sectors :: "store \<Rightarrow> nat \<Rightarrow> nat \<Rightarrow> bytes \<Rightarrow> store" where
  "write_sectors f lba n bs =
     (\<lambda>s. if lba \<le> s \<and> s < lba + n then window 512 ((s - lba) * 512) bs else f s)"

definition sectored :: "store \<Rightarrow> bool" where
  "sectored f \<longleftrightarrow> (\<forall>s. length (f s) = 512)"

lemma read_sectors_0 [simp]: "read_sectors f lba 0 = []"
  by (simp add: read_sectors_def)

lemma read_sectors_Suc: "read_sectors f lba (Suc n) = f lba @ read_sectors f (Suc lba) n"
  by (simp add: read_sectors_def upt_conv_Cons del: upt_Suc)

lemma read_sectors_1 [simp]: "read_sectors f lba (Suc 0) = f lba"
  by (simp add: read_sectors_Suc)

lemma length_read_sectors [simp]: "sectored f \<Longrightarrow> length (read_sectors f lba n) = n * 512"
  by (induction n arbitrary: lba) (simp_all add: read_sectors_Suc sectored_def)

lemma sectored_write_sectors [simp]:
  "sectored f \<Longrightarrow> n * 512 \<le> length bs \<Longrightarrow> sectored (write_sectors f lba n bs)"
proof (unfold sectored_def write_sectors_def, intro allI)
  fix s
  assume f: "\<forall>s. length (f s) = 512" and bs: "n * 512 \<le> length bs"
  show "length (if lba \<le> s \<and> s < lba + n then window 512 ((s - lba) * 512) bs else f s) = 512"
  proof (cases "lba \<le> s \<and> s < lba + n")
    case True
    then have "Suc (s - lba) * 512 \<le> n * 512" by (intro mult_le_mono1) linarith
    with bs have "512 \<le> length bs - (s - lba) * 512" by simp
    with True show ?thesis by simp
  next
    case False
    then show ?thesis using f by auto
  qed
qed

lemma read_sectors_cong:
  "(\<And>s. lba \<le> s \<Longrightarrow> s < lba + n \<Longrightarrow> f s = g s) \<Longrightarrow> read_sectors f lba n = read_sectors g lba n"
  by (auto simp: read_sectors_def intro: arg_cong [where f = concat])

lemma read_write_sectors_other:
  "lba + n \<le> lba' \<or> lba' + n' \<le> lba \<Longrightarrow>
     read_sectors (write_sectors f lba n bs) lba' n' = read_sectors f lba' n'"
  by (rule read_sectors_cong) (auto simp: write_sectors_def)

lemma read_write_sectors_same:
  assumes "n * 512 \<le> length bs"
  shows "read_sectors (write_sectors f lba n bs) lba n = take (n * 512) bs"
  using assms
proof (induction n arbitrary: lba bs f)
  case 0
  then show ?case by simp
next
  case (Suc n)
  have "read_sectors (write_sectors f lba (Suc n) bs) (Suc lba) n
      = read_sectors (write_sectors f (Suc lba) n (drop 512 bs)) (Suc lba) n"
  proof (rule read_sectors_cong)
    fix s assume "Suc lba \<le> s" "s < Suc lba + n"
    then obtain k where k: "s = Suc lba + k" using le_Suc_ex by blast
    then show "write_sectors f lba (Suc n) bs s = write_sectors f (Suc lba) n (drop 512 bs) s"
      by (simp add: write_sectors_def window_def add.commute)
  qed
  also have "\<dots> = take (n * 512) (drop 512 bs)" using Suc.prems by (intro Suc.IH) simp
  finally show ?case
    by (simp add: read_sectors_Suc write_sectors_def window_def take_add)
qed

lemma write_sectors_apply_other [simp]:
  "s < lba \<or> lba + n \<le> s \<Longrightarrow> write_sectors f lba n bs s = f s"
  by (auto simp: write_sectors_def)


section \<open>The interface\<close>

text \<open>
  \<open>ready v d\<close>: drive \<open>d\<close> answered IDENTIFY and completes commands. \<open>sec v d s\<close> is the content
  of sector \<open>s\<close>. The bound \<open>2 ^ 28\<close> is the LBA28 address space of the driver. A call with a
  sector count of zero has no law: the ATA sector count register reads 0 as 256.
\<close>

locale block_device =
  fixes B :: "'v bdev"
    and ready :: "'v \<Rightarrow> u8 \<Rightarrow> bool"
    and sec :: "'v \<Rightarrow> u8 \<Rightarrow> store"
  assumes sec_sectored: "sectored (sec v d)"
    and read_ok: "ready v d \<Longrightarrow> 0 < n \<Longrightarrow> unat n * 512 \<le> length buf \<Longrightarrow> unat lba + unat n \<le> 2 ^ 28
      \<Longrightarrow> \<exists>v'. bd_read B d n lba buf v
            = (Ok (read_sectors (sec v d) (unat lba) (unat n) @ drop (unat n * 512) buf), v')
          \<and> sec v' = sec v \<and> ready v' = ready v"
    and write_ok: "ready v d \<Longrightarrow> 0 < n \<Longrightarrow> unat n * 512 \<le> length buf \<Longrightarrow> unat lba + unat n \<le> 2 ^ 28
      \<Longrightarrow> \<exists>v'. bd_write B d n lba buf v = (Ok (), v')
          \<and> sec v' = (sec v)(d := write_sectors (sec v d) (unat lba) (unat n) buf)
          \<and> ready v' = ready v"
    and read_short: "ready v d \<Longrightarrow> length buf < unat n * 512
      \<Longrightarrow> bd_read B d n lba buf v = (Err BufferTooSmall, v)"
    and write_short: "ready v d \<Longrightarrow> length buf < unat n * 512
      \<Longrightarrow> bd_write B d n lba buf v = (Err BufferTooSmall, v)"
    and write_far: "ready v d \<Longrightarrow> unat n * 512 \<le> length buf \<Longrightarrow> 2 ^ 28 \<le> unat lba
      \<Longrightarrow> bd_write B d n lba buf v = (Err LbaOutOfRange, v)"
    and size_ok: "\<exists>r. bd_size B d v = (r, v)"
begin

text \<open>The same laws for calls made from the filesystem state.\<close>

lemma wp_dread:
  assumes "ready (dev w) d" "0 < n" "unat n * 512 \<le> length buf" "unat lba + unat n \<le> 2 ^ 28"
    and "\<And>v. sec v = sec (dev w) \<Longrightarrow> ready v = ready (dev w) \<Longrightarrow>
      Q (Ok (read_sectors (sec (dev w) d) (unat lba) (unat n) @ drop (unat n * 512) buf)) (w\<lparr>dev := v\<rparr>)"
  shows "wp (dread B d n lba buf) w Q"
  using read_ok [OF assms(1-4)] assms(5) by (auto simp: wp_def on_dev_def)

lemma wp_dwrite:
  assumes "ready (dev w) d" "0 < n" "unat n * 512 \<le> length buf" "unat lba + unat n \<le> 2 ^ 28"
    and "\<And>v. sec v = (sec (dev w))(d := write_sectors (sec (dev w) d) (unat lba) (unat n) buf)
      \<Longrightarrow> ready v = ready (dev w) \<Longrightarrow> Q (Ok ()) (w\<lparr>dev := v\<rparr>)"
  shows "wp (dwrite B d n lba buf) w Q"
  using write_ok [OF assms(1-4)] assms(5) by (auto simp: wp_def on_dev_def)

text \<open>Transfers of one sector, the size of most metadata.\<close>

lemma wp_dread1:
  assumes "ready (dev w) d" "length buf = 512" "unat lba < 2 ^ 28"
    and "\<And>v. sec v = sec (dev w) \<Longrightarrow> ready v = ready (dev w) \<Longrightarrow>
      Q (Ok (sec (dev w) d (unat lba))) (w\<lparr>dev := v\<rparr>)"
  shows "wp (dread B d 1 lba buf) w Q"
  using assms by (intro wp_dread) simp_all

lemma wp_dwrite1:
  assumes "ready (dev w) d" "length buf = 512" "unat lba < 2 ^ 28"
    and "\<And>v. sec v = (sec (dev w))(d := (sec (dev w) d)(unat lba := buf))
      \<Longrightarrow> ready v = ready (dev w) \<Longrightarrow> Q (Ok ()) (w\<lparr>dev := v\<rparr>)"
  shows "wp (dwrite B d 1 lba buf) w Q"
proof -
  have "write_sectors f (unat lba) 1 buf = f(unat lba := buf)" for f
    using assms(2) by (auto simp: write_sectors_def fun_eq_iff)
  then show ?thesis using assms by (intro wp_dwrite) simp_all
qed

lemma dwrite_short:
  "ready (dev w) d \<Longrightarrow> length buf < unat n * 512 \<Longrightarrow>
     dwrite B d n lba buf w = (Err (Ide BufferTooSmall), w)"
  by (simp add: on_dev_def write_short)

lemma dwrite_far:
  "ready (dev w) d \<Longrightarrow> unat n * 512 \<le> length buf \<Longrightarrow> 2 ^ 28 \<le> unat lba \<Longrightarrow>
     dwrite B d n lba buf w = (Err (Ide LbaOutOfRange), w)"
  by (simp add: on_dev_def write_far)

lemma length_sec [simp]: "length (sec v d s) = 512"
  using sec_sectored by (auto simp: sectored_def)

end


section \<open>An in-memory disk\<close>

text \<open>Drives that are present, with their contents and their size in sectors.\<close>

record ram_drive =
  rd_sectors :: nat
  rd_data :: store

type_synonym ram = "u8 \<Rightarrow> ram_drive option"

definition fit :: "bytes \<Rightarrow> bytes" where
  "fit bs = take 512 (bs @ replicate 512 0)"

definition ram_ready :: "ram \<Rightarrow> u8 \<Rightarrow> bool" where
  "ram_ready v d = (v d \<noteq> None)"

definition ram_sec :: "ram \<Rightarrow> u8 \<Rightarrow> store" where
  "ram_sec v d = (case v d of None \<Rightarrow> \<lambda>s. replicate 512 0 | Some r \<Rightarrow> \<lambda>s. fit (rd_data r s))"

definition ram_read :: "u8 \<Rightarrow> u8 \<Rightarrow> u32 \<Rightarrow> bytes \<Rightarrow> (ram, ide_error, bytes) prog" where
  "ram_read d n lba buf = (\<lambda>v.
     if v d = None then (Err IdeDriveNotFound, v)
     else if length buf < unat n * 512 then (Err BufferTooSmall, v)
     else (Ok (read_sectors (ram_sec v d) (unat lba) (unat n) @ drop (unat n * 512) buf), v))"

definition ram_write :: "u8 \<Rightarrow> u8 \<Rightarrow> u32 \<Rightarrow> bytes \<Rightarrow> (ram, ide_error, unit) prog" where
  "ram_write d n lba buf = (\<lambda>v. case v d of
     None \<Rightarrow> (Err IdeDriveNotFound, v)
   | Some r \<Rightarrow>
       if length buf < unat n * 512 then (Err BufferTooSmall, v)
       else if 2 ^ 28 \<le> unat lba then (Err LbaOutOfRange, v)
       else (Ok (), v(d \<mapsto> r\<lparr>rd_data := write_sectors (rd_data r) (unat lba) (unat n) buf\<rparr>)))"

definition ram_size :: "u8 \<Rightarrow> (ram, ide_error, u64) prog" where
  "ram_size d = (\<lambda>v. case v d of
     None \<Rightarrow> (Err IdeDriveNotFound, v)
   | Some r \<Rightarrow> (Ok (of_nat (rd_sectors r) * 512), v))"

definition ram_bdev :: "ram bdev" where
  "ram_bdev = \<lparr>bd_read = ram_read, bd_write = ram_write, bd_size = ram_size\<rparr>"

lemma length_fit [simp]: "length (fit bs) = 512"
  by (simp add: fit_def)

lemma fit_id: "length bs = 512 \<Longrightarrow> fit bs = bs"
  by (simp add: fit_def)

lemma sectored_ram_sec: "sectored (ram_sec v d)"
  by (simp add: sectored_def ram_sec_def split: option.splits)

lemma ram_sec_write:
  assumes "v d = Some r" and "n * 512 \<le> length buf"
  shows "ram_sec (v(d \<mapsto> r\<lparr>rd_data := write_sectors (rd_data r) lba n buf\<rparr>))
       = (ram_sec v)(d := write_sectors (ram_sec v d) lba n buf)"
proof (intro ext)
  fix e s
  have "fit (window 512 ((s - lba) * 512) buf) = window 512 ((s - lba) * 512) buf"
    if "lba \<le> s" "s < lba + n"
  proof -
    from that have "Suc (s - lba) * 512 \<le> n * 512" by (intro mult_le_mono1) linarith
    with assms(2) show ?thesis by (intro fit_id) simp
  qed
  then show "ram_sec (v(d \<mapsto> r\<lparr>rd_data := write_sectors (rd_data r) lba n buf\<rparr>)) e s
      = ((ram_sec v)(d := write_sectors (ram_sec v d) lba n buf)) e s"
    using assms(1) by (simp add: ram_sec_def write_sectors_def)
qed

interpretation ram: block_device ram_bdev ram_ready ram_sec
proof unfold_locales
  fix v d n lba and buf :: bytes
  assume r: "ram_ready v d" and l: "unat (n :: u8) * 512 \<le> length buf"
    and b: "unat (lba :: u32) + unat n \<le> 2 ^ 28" and n: "0 < n"
  from r obtain q where q: "v d = Some q" by (auto simp: ram_ready_def)
  from n have "unat lba < 2 ^ 28" using b by (simp add: word_less_nat_alt)
  with q l have "bd_write ram_bdev d n lba buf v
      = (Ok (), v(d \<mapsto> q\<lparr>rd_data := write_sectors (rd_data q) (unat lba) (unat n) buf\<rparr>))"
    by (simp add: ram_bdev_def ram_write_def)
  moreover have "ram_ready (v(d \<mapsto> r)) = ram_ready v" for r
    using q by (auto simp: ram_ready_def fun_eq_iff)
  ultimately show "\<exists>v'. bd_write ram_bdev d n lba buf v = (Ok (), v')
      \<and> ram_sec v' = (ram_sec v)(d := write_sectors (ram_sec v d) (unat lba) (unat n) buf)
      \<and> ram_ready v' = ram_ready v"
    using ram_sec_write [of v d q "unat n" buf "unat lba", OF q l] by blast
qed (auto simp: ram_bdev_def ram_read_def ram_write_def ram_size_def ram_ready_def
      sectored_ram_sec split: option.splits)

definition blank_disk :: "nat \<Rightarrow> ram" where
  "blank_disk n = [0 \<mapsto> \<lparr>rd_sectors = n, rd_data = (\<lambda>_. replicate 512 0)\<rparr>]"

definition blank_world :: "nat \<Rightarrow> ram world" where
  "blank_world n = \<lparr>dev = blank_disk n, NEXT_RECORD = 16, NEXT_VCN = 1, COUNTER = 0\<rparr>"

lemma blank_ready [simp]: "ram_ready (dev (blank_world n)) 0"
  by (simp add: ram_ready_def blank_world_def blank_disk_def)

end
