(* ===== verification/Super_Block.thy ===== *)
theory Super_Block
  imports Block_Device
begin

text \<open>
  The boot sector of the filesystem: \<^verbatim>\<open>crates/galleon2/src/super_block.rs\<close>, the block accounting
  calls of \<^verbatim>\<open>crates/galleon2/src/lib.rs\<close> and \<^verbatim>\<open>init_fs\<close> of \<^verbatim>\<open>crates/galleon2/src/fs.rs\<close>.
\<close>

section \<open>The record and its operations\<close>

record SuperBlock =
  sb_magic :: bytes
  sb_version :: u32
  sb_block_size :: u32
  sb_total_blocks :: u64
  sb_root_dir_block :: u64
  sb_free_block_count :: u64
  sb_reserved_blocks :: u64

definition EXPECTED_MAGIC :: bytes where
  "EXPECTED_MAGIC =
    [97,119,97,114,101,110,101,115,115,32,97,99,104,105,101,118,
     101,100,46,46,46,32,119,104,97,116,32,97,109,32,73,32,
     97,110,100,32,119,104,121,32,100,111,32,73,32,101,120,
     105,115,116,32,105,110,32,115,116,111,114,97,103,101,63,
     0,0]"

definition DEFAULT_RESERVED_BLOCKS :: u64 where
  "DEFAULT_RESERVED_BLOCKS = 100"

definition SuperBlock_new :: "u32 \<Rightarrow> u64 \<Rightarrow> u64 \<Rightarrow> SuperBlock" where
  "SuperBlock_new block_size total_blocks root_dir_block =
     (let reserved_blocks = (if total_blocks > DEFAULT_RESERVED_BLOCKS
                             then DEFAULT_RESERVED_BLOCKS else 1)
      in \<lparr>sb_magic = EXPECTED_MAGIC, sb_version = 1, sb_block_size = block_size,
          sb_total_blocks = total_blocks, sb_root_dir_block = root_dir_block,
          sb_free_block_count = saturating_sub total_blocks reserved_blocks,
          sb_reserved_blocks = reserved_blocks\<rparr>)"

definition as_sector :: "SuperBlock \<Rightarrow> bytes" where
  "as_sector s =
     (let b = replicate 512 0;
          b = splice b 0 (sb_magic s);
          b = splice b 64 (to_le_bytes (sb_version s));
          b = splice b 68 (to_le_bytes (sb_block_size s));
          b = splice b 72 (to_le_bytes (sb_total_blocks s));
          b = splice b 80 (to_le_bytes (sb_root_dir_block s));
          b = splice b 88 (to_le_bytes (sb_free_block_count s));
          b = splice b 96 (to_le_bytes (sb_reserved_blocks s))
      in b)"

definition from_sector :: "bytes \<Rightarrow> SuperBlock" where
  "from_sector sector =
     \<lparr>sb_magic = window 64 0 sector, sb_version = get_le 64 sector,
      sb_block_size = get_le 68 sector, sb_total_blocks = get_le 72 sector,
      sb_root_dir_block = get_le 80 sector, sb_free_block_count = get_le 88 sector,
      sb_reserved_blocks = get_le 96 sector\<rparr>"

definition is_valid :: "bytes \<Rightarrow> bool" where
  "is_valid sector \<longleftrightarrow> window 64 0 sector = EXPECTED_MAGIC"

definition set_free_block_count :: "u64 \<Rightarrow> SuperBlock \<Rightarrow> SuperBlock" where
  "set_free_block_count new_count s =
     s\<lparr>sb_free_block_count :=
        min new_count (saturating_sub (sb_total_blocks s) (sb_reserved_blocks s))\<rparr>"

definition SuperBlock_allocate_blocks :: "u64 \<Rightarrow> SuperBlock \<Rightarrow> bool \<times> SuperBlock" where
  "SuperBlock_allocate_blocks count s =
     (if sb_free_block_count s \<ge> count
      then (True, s\<lparr>sb_free_block_count := sb_free_block_count s - count\<rparr>)
      else (False, s))"

definition SuperBlock_deallocate_blocks :: "u64 \<Rightarrow> SuperBlock \<Rightarrow> (fs_error, SuperBlock) res" where
  "SuperBlock_deallocate_blocks count s =
     bind_res (add_ck (sb_free_block_count s) count) (\<lambda>n.
       Ok (s\<lparr>sb_free_block_count :=
              min n (saturating_sub (sb_total_blocks s) (sb_reserved_blocks s))\<rparr>))"


section \<open>Calls on a drive\<close>

definition write_super_block :: "'v bdev \<Rightarrow> u8 \<Rightarrow> u64 \<Rightarrow> u32 \<Rightarrow> u64 \<Rightarrow> ('v, unit) fs" where
  "write_super_block B drive_num total_blocks block_size root_dir_block =
     dwrite B drive_num 1 0 (as_sector (SuperBlock_new block_size total_blocks root_dir_block))"

definition validate_super_block :: "'v bdev \<Rightarrow> u8 \<Rightarrow> ('v, unit) fs" where
  "validate_super_block B drive_num =
     bnd (dread B drive_num 1 0 (replicate 512 0)) (\<lambda>sector.
       if is_valid sector then ret () else fail InvalidBootBlock)"

definition read_super_block :: "'v bdev \<Rightarrow> u8 \<Rightarrow> ('v, SuperBlock) fs" where
  "read_super_block B drive_num =
     bnd (dread B drive_num 1 0 (replicate 512 0)) (\<lambda>sector.
       if is_valid sector then ret (from_sector sector) else fail InvalidBootBlock)"

definition update_free_block_count :: "'v bdev \<Rightarrow> u8 \<Rightarrow> u64 \<Rightarrow> ('v, unit) fs" where
  "update_free_block_count B drive_num new_free_count =
     bnd (read_super_block B drive_num) (\<lambda>sb.
       dwrite B drive_num 1 0 (as_sector (set_free_block_count new_free_count sb)))"

definition allocate_blocks :: "'v bdev \<Rightarrow> u8 \<Rightarrow> u64 \<Rightarrow> ('v, unit) fs" where
  "allocate_blocks B drive_num block_count =
     bnd (read_super_block B drive_num) (\<lambda>sb.
       case SuperBlock_allocate_blocks block_count sb of
         (ok, sb') \<Rightarrow> if \<not> ok then fail InsufficientSpace
                     else dwrite B drive_num 1 0 (as_sector sb'))"

definition deallocate_blocks :: "'v bdev \<Rightarrow> u8 \<Rightarrow> u64 \<Rightarrow> ('v, unit) fs" where
  "deallocate_blocks B drive_num block_count =
     bnd (read_super_block B drive_num) (\<lambda>sb.
     bnd (lift_res (SuperBlock_deallocate_blocks block_count sb)) (\<lambda>sb'.
       dwrite B drive_num 1 0 (as_sector sb')))"

definition get_filesystem_info :: "'v bdev \<Rightarrow> u8 \<Rightarrow> ('v, u32 \<times> u64 \<times> u64 \<times> u32) fs" where
  "get_filesystem_info B drive_num =
     bnd (read_super_block B drive_num) (\<lambda>sb.
       ret (sb_version sb, sb_total_blocks sb, sb_free_block_count sb, sb_block_size sb))"

definition has_filesystem :: "'v bdev \<Rightarrow> u8 \<Rightarrow> 'v world \<Rightarrow> bool \<times> 'v world" where
  "has_filesystem B drive_num w =
     (case validate_super_block B drive_num w of (r, w') \<Rightarrow> (is_ok r, w'))"

definition init_fs :: "'v bdev \<Rightarrow> u8 \<Rightarrow> ('v, unit) fs" where
  "init_fs B drive =
     bnd (dsize B drive) (\<lambda>disk_size_bytes.
       if disk_size_bytes = 0 then fail DriveNotFound
       else let block_size = 4096; total_blocks = disk_size_bytes div as_u64 (block_size :: u32)
            in if total_blocks < 2 then fail InsufficientSpace
               else bnd (write_super_block B drive total_blocks block_size 1) (\<lambda>_.
                      validate_super_block B drive))"


section \<open>Encoding\<close>

lemma length_EXPECTED_MAGIC [simp]: "length EXPECTED_MAGIC = 64"
  by (simp add: EXPECTED_MAGIC_def)

lemma length_as_sector [simp]: "length (sb_magic s) = 64 \<Longrightarrow> length (as_sector s) = 512"
  by (simp add: as_sector_def)

lemma from_as_sector: "length (sb_magic s) = 64 \<Longrightarrow> from_sector (as_sector s) = s"
  by (simp add: as_sector_def from_sector_def)

lemma is_valid_as_sector:
  "length (sb_magic s) = 64 \<Longrightarrow> is_valid (as_sector s) \<longleftrightarrow> sb_magic s = EXPECTED_MAGIC"
  by (simp add: as_sector_def is_valid_def)

lemma SuperBlock_new_magic [simp]: "sb_magic (SuperBlock_new bs tb rb) = EXPECTED_MAGIC"
  by (simp add: SuperBlock_new_def Let_def)


section \<open>Block accounting\<close>

definition sb_inv :: "SuperBlock \<Rightarrow> bool" where
  "sb_inv s \<longleftrightarrow> sb_magic s = EXPECTED_MAGIC
     \<and> unat (sb_free_block_count s) \<le> unat (sb_total_blocks s) - unat (sb_reserved_blocks s)"

lemma sb_inv_new: "sb_inv (SuperBlock_new bs tb rb)"
  by (simp add: sb_inv_def SuperBlock_new_def Let_def unat_saturating_sub)

lemma sb_inv_set_free: "sb_inv s \<Longrightarrow> sb_inv (set_free_block_count n s)"
  by (auto simp: sb_inv_def set_free_block_count_def min_def unat_saturating_sub word_le_nat_alt)

lemma sb_inv_allocate: "sb_inv s \<Longrightarrow> sb_inv (snd (SuperBlock_allocate_blocks n s))"
  by (auto simp: sb_inv_def SuperBlock_allocate_blocks_def unat_sub)

lemma sb_inv_deallocate: "sb_inv s \<Longrightarrow> SuperBlock_deallocate_blocks n s = Ok s' \<Longrightarrow> sb_inv s'"
  by (auto simp: sb_inv_def SuperBlock_deallocate_blocks_def bind_res_Ok_iff min_def
      unat_saturating_sub word_le_nat_alt)

lemma deallocate_allocate:
  assumes "sb_inv s" and "SuperBlock_allocate_blocks n s = (True, s')"
  shows "SuperBlock_deallocate_blocks n s' = Ok s"
proof -
  from assms(2) have n: "n \<le> sb_free_block_count s"
    and s': "s' = s\<lparr>sb_free_block_count := sb_free_block_count s - n\<rparr>"
    by (auto simp: SuperBlock_allocate_blocks_def split: if_splits)
  from n have "unat (sb_free_block_count s - n) + unat n = unat (sb_free_block_count s)"
    by (simp add: unat_sub word_le_nat_alt)
  then have "unat (sb_free_block_count s - n) + unat n < 2 ^ 64"
    using unsigned_less [of "sb_free_block_count s"] by simp
  moreover have "sb_free_block_count s \<le> saturating_sub (sb_total_blocks s) (sb_reserved_blocks s)"
    using assms(1) by (simp add: sb_inv_def word_le_nat_alt unat_saturating_sub)
  ultimately show ?thesis
    by (simp add: s' SuperBlock_deallocate_blocks_def add_ck_def min_def)
qed


section \<open>Behaviour on a block device\<close>

context block_device
begin

lemma wp_read_super_block:
  assumes "ready (dev w) d"
    and "\<And>v. sec v = sec (dev w) \<Longrightarrow> ready v = ready (dev w) \<Longrightarrow>
      Q (if is_valid (sec (dev w) d 0) then Ok (from_sector (sec (dev w) d 0))
         else Err InvalidBootBlock) (w\<lparr>dev := v\<rparr>)"
  shows "wp (read_super_block B d) w Q"
  unfolding read_super_block_def wp_bnd
  by (rule wp_dread1) (use assms in \<open>auto simp: wp_simps split: if_splits\<close>)

lemma wp_write_super_block:
  assumes "ready (dev w) d"
    and "\<And>v. sec v = (sec (dev w))(d := (sec (dev w) d)(0 := as_sector (SuperBlock_new bs tb rb)))
      \<Longrightarrow> ready v = ready (dev w) \<Longrightarrow> Q (Ok ()) (w\<lparr>dev := v\<rparr>)"
  shows "wp (write_super_block B d tb bs rb) w Q"
  unfolding write_super_block_def by (rule wp_dwrite1) (use assms in auto)

lemma wp_allocate_blocks:
  assumes "ready (dev w) d" and "is_valid (sec (dev w) d 0)"
    and s: "s = from_sector (sec (dev w) d 0)"
    and ok: "\<And>v. n \<le> sb_free_block_count s \<Longrightarrow> ready v = ready (dev w) \<Longrightarrow>
      sec v = (sec (dev w))(d := (sec (dev w) d)
                (0 := as_sector (s\<lparr>sb_free_block_count := sb_free_block_count s - n\<rparr>)))
      \<Longrightarrow> Q (Ok ()) (w\<lparr>dev := v\<rparr>)"
    and err: "\<And>v. \<not> n \<le> sb_free_block_count s \<Longrightarrow> ready v = ready (dev w) \<Longrightarrow>
      sec v = sec (dev w) \<Longrightarrow> Q (Err InsufficientSpace) (w\<lparr>dev := v\<rparr>)"
  shows "wp (allocate_blocks B d n) w Q"
proof -
  have [simp]: "length (sb_magic s) = 64" by (simp add: s from_sector_def)
  show ?thesis
    unfolding allocate_blocks_def wp_bnd
  proof (rule wp_read_super_block [OF assms(1)], simp add: assms(2) flip: s)
    fix v
    assume v: "sec v = sec (dev w)" "ready v = ready (dev w)"
    show "wp (case SuperBlock_allocate_blocks n s of
          (ok, sb') \<Rightarrow> if \<not> ok then fail InsufficientSpace else dwrite B d 1 0 (as_sector sb'))
        (w\<lparr>dev := v\<rparr>) Q"
    proof (cases "n \<le> sb_free_block_count s")
      case True
      then have "wp (dwrite B d 1 0 (as_sector (s\<lparr>sb_free_block_count := sb_free_block_count s - n\<rparr>)))
          (w\<lparr>dev := v\<rparr>) Q"
        using assms(1) v ok by (intro wp_dwrite1) simp_all
      with True show ?thesis by (simp add: SuperBlock_allocate_blocks_def)
    next
      case False
      with err v show ?thesis by (simp add: SuperBlock_allocate_blocks_def wp_simps)
    qed
  qed
qed

end


section \<open>Properties\<close>

text \<open>
  C21: on every block device, a super block written by \<^verbatim>\<open>write_super_block\<close> is the one
  \<^verbatim>\<open>read_super_block\<close> returns, validation of the magic included.
\<close>

theorem write_then_read_super_block:
  assumes "block_device B ready sec" and "ready (dev w) d"
  shows "fst (bnd (write_super_block B d tb bs rb) (\<lambda>_. read_super_block B d) w)
       = Ok (SuperBlock_new bs tb rb)"
proof -
  have "wp (bnd (write_super_block B d tb bs rb) (\<lambda>_. read_super_block B d)) w
      (\<lambda>r w'. r = Ok (SuperBlock_new bs tb rb))"
    unfolding wp_bnd
    by (rule block_device.wp_write_super_block [OF assms], simp,
        rule block_device.wp_read_super_block [OF assms(1)])
      (use assms(2) in \<open>simp_all add: is_valid_as_sector from_as_sector\<close>)
  then show ?thesis by (simp add: wp_def split: prod.splits)
qed

theorem write_then_read_super_block_witness:
  "fst (bnd (write_super_block ram_bdev 0 1000 4096 1) (\<lambda>_. read_super_block ram_bdev 0) (blank_world 8000))
   = Ok (SuperBlock_new 4096 1000 1)"
  by (rule write_then_read_super_block [where ready = ram_ready and sec = ram_sec])
    (simp_all add: ram.block_device_axioms)

text \<open>
  \<^verbatim>\<open>allocate_blocks\<close> on a drive with a valid super block either takes the blocks, in which
  case the super block on disk has the count reduced by exactly that many and no other sector of any
  drive changes, or reports \<^verbatim>\<open>InsufficientSpace\<close> and leaves every sector as it was.
\<close>

theorem allocate_blocks_on_disk:
  assumes "block_device B ready sec" and "ready (dev w) d"
    and "is_valid (sec (dev w) d 0)" and "s = from_sector (sec (dev w) d 0)"
  shows "case allocate_blocks B d n w of (r, w') \<Rightarrow>
     if n \<le> sb_free_block_count s
     then r = Ok ()
        \<and> from_sector (sec (dev w') d 0) = s\<lparr>sb_free_block_count := sb_free_block_count s - n\<rparr>
        \<and> (\<forall>e k. (e, k) \<noteq> (d, 0) \<longrightarrow> sec (dev w') e k = sec (dev w) e k)
     else r = Err InsufficientSpace \<and> sec (dev w') = sec (dev w)"
  unfolding wp_def [symmetric]
proof (rule block_device.wp_allocate_blocks [OF assms])
  have [simp]: "length (sb_magic s) = 64"
    using block_device.length_sec [OF assms(1)] by (simp add: assms(4) from_sector_def)
  fix v
  assume "sec v = (sec (dev w))(d := (sec (dev w) d)
                (0 := as_sector (s\<lparr>sb_free_block_count := sb_free_block_count s - n\<rparr>)))"
    and "n \<le> sb_free_block_count s"
  then show "if n \<le> sb_free_block_count s
     then Ok () = Ok ()
        \<and> from_sector (sec (dev (w\<lparr>dev := v\<rparr>)) d 0) = s\<lparr>sb_free_block_count := sb_free_block_count s - n\<rparr>
        \<and> (\<forall>e k. (e, k) \<noteq> (d, 0) \<longrightarrow> sec (dev (w\<lparr>dev := v\<rparr>)) e k = sec (dev w) e k)
     else Ok () = Err InsufficientSpace \<and> sec (dev (w\<lparr>dev := v\<rparr>)) = sec (dev w)"
    by (simp add: from_as_sector)
qed simp

definition demo_world :: "ram world" where
  "demo_world = snd (write_super_block ram_bdev 0 1000 4096 1 (blank_world 8000))"

lemma demo_world_sector0:
  "ram_ready (dev demo_world) 0"
  "ram_sec (dev demo_world) 0 0 = as_sector (SuperBlock_new 4096 1000 1)"
proof -
  have "wp (write_super_block ram_bdev 0 1000 4096 1) (blank_world 8000)
     (\<lambda>r w. ram_ready (dev w) 0 \<and> ram_sec (dev w) 0 0 = as_sector (SuperBlock_new 4096 1000 1))"
    by (rule ram.wp_write_super_block) simp_all
  then show "ram_ready (dev demo_world) 0"
    and "ram_sec (dev demo_world) 0 0 = as_sector (SuperBlock_new 4096 1000 1)"
    by (simp_all add: wp_def demo_world_def split: prod.splits)
qed

theorem allocate_blocks_on_disk_witness:
  "case allocate_blocks ram_bdev 0 10 demo_world of (r, w') \<Rightarrow>
     r = Ok () \<and> sb_free_block_count (from_sector (ram_sec (dev w') 0 0)) = 890"
  using allocate_blocks_on_disk [where ready = ram_ready and sec = ram_sec and w = demo_world
      and d = 0 and n = 10, OF ram.block_device_axioms demo_world_sector0(1) _ refl]
  by (simp add: demo_world_sector0 is_valid_as_sector from_as_sector SuperBlock_new_def
      DEFAULT_RESERVED_BLOCKS_def saturating_sub_def split: prod.splits)

end
