(* ===== verification/Cluster_Runs.thy ===== *)
theory Cluster_Runs
  imports Block_Device "HOL-Library.Multiset"
begin

text \<open>
  The first part of \<^verbatim>\<open>crates/galleon2/src/allocation.rs\<close>: runs of clusters, and the run lists
  that record which clusters hold the data of a file.
\<close>

definition CLUSTER_SIZE :: u32 where "CLUSTER_SIZE = 4096"
definition SECTORS_PER_CLUSTER :: u32 where "SECTORS_PER_CLUSTER = CLUSTER_SIZE div 512"


section \<open>Cluster runs\<close>

record ClusterRun =
  start_cluster :: u64
  cluster_count :: u64

definition ClusterRun_new :: "u64 \<Rightarrow> u64 \<Rightarrow> ClusterRun" where
  "ClusterRun_new s c = \<lparr>start_cluster = s, cluster_count = c\<rparr>"

definition end_cluster :: "ClusterRun \<Rightarrow> (fs_error, u64) res" where
  "end_cluster r = bind_res (add_ck (start_cluster r) (cluster_count r)) (\<lambda>e. sub_ck e 1)"

definition contains_cluster :: "ClusterRun \<Rightarrow> u64 \<Rightarrow> (fs_error, bool) res" where
  "contains_cluster r cluster =
     (if cluster \<ge> start_cluster r
      then bind_res (end_cluster r) (\<lambda>e. Ok (cluster \<le> e)) else Ok False)"

definition overlaps :: "ClusterRun \<Rightarrow> ClusterRun \<Rightarrow> (fs_error, bool) res" where
  "overlaps r r' =
     bind_res (end_cluster r) (\<lambda>e.
       if e < start_cluster r' then Ok False
       else bind_res (end_cluster r') (\<lambda>e'. Ok (\<not> e' < start_cluster r)))"

definition can_merge :: "ClusterRun \<Rightarrow> ClusterRun \<Rightarrow> (fs_error, bool) res" where
  "can_merge r r' =
     bind_res (end_cluster r) (\<lambda>e. bind_res (add_ck e 1) (\<lambda>n.
       if n = start_cluster r' then Ok True
       else bind_res (end_cluster r') (\<lambda>e'. bind_res (add_ck e' 1) (\<lambda>n'.
              Ok (n' = start_cluster r)))))"

definition merge :: "ClusterRun \<Rightarrow> ClusterRun \<Rightarrow> (fs_error, ClusterRun option) res" where
  "merge r r' =
     bind_res (can_merge r r') (\<lambda>ok.
       if ok then
         let start = min (start_cluster r) (start_cluster r') in
         bind_res (end_cluster r) (\<lambda>e. bind_res (end_cluster r') (\<lambda>e'.
         bind_res (sub_ck (max e e') start) (\<lambda>n. bind_res (add_ck n 1) (\<lambda>c.
           Ok (Some (ClusterRun_new start c))))))
       else Ok None)"


section \<open>Run lists\<close>

record RunList =
  runs :: "ClusterRun list"
  rl_total_clusters :: u64

definition RunList_new :: RunList where
  "RunList_new = \<lparr>runs = [], rl_total_clusters = 0\<rparr>"

fun merge_loop :: "ClusterRun list \<Rightarrow> ClusterRun list \<Rightarrow> (fs_error, ClusterRun list) res" where
  "merge_loop merged [] = Ok merged"
| "merge_loop merged (run # rest) =
     (if merged = [] then merge_loop [run] rest
      else bind_res (merge (last merged) run) (\<lambda>m. case m of
             Some merged_run \<Rightarrow> merge_loop (butlast merged @ [merged_run]) rest
           | None \<Rightarrow> merge_loop (merged @ [run]) rest))"

definition sort_and_merge :: "RunList \<Rightarrow> (fs_error, RunList) res" where
  "sort_and_merge rl =
     bind_res (merge_loop [] (sort_key start_cluster (runs rl))) (\<lambda>merged. Ok (rl\<lparr>runs := merged\<rparr>))"

definition add_run :: "ClusterRun \<Rightarrow> RunList \<Rightarrow> (fs_error, RunList) res" where
  "add_run run rl =
     bind_res (add_ck (rl_total_clusters rl) (cluster_count run)) (\<lambda>tot.
       sort_and_merge (rl\<lparr>runs := runs rl @ [run], rl_total_clusters := tot\<rparr>))"

definition remove_run :: "ClusterRun \<Rightarrow> RunList \<Rightarrow> (fs_error, bool \<times> RunList) res" where
  "remove_run run rl =
     (if run \<in> set (runs rl)
      then bind_res (sub_ck (rl_total_clusters rl) (cluster_count run)) (\<lambda>tot.
             Ok (True, rl\<lparr>runs := remove1 run (runs rl), rl_total_clusters := tot\<rparr>))
      else Ok (False, rl))"

fun find_cluster_loop :: "u64 \<Rightarrow> u64 \<Rightarrow> ClusterRun list \<Rightarrow> (fs_error, u64 option) res" where
  "find_cluster_loop virtual_cluster vcn [] = Ok None"
| "find_cluster_loop virtual_cluster vcn (run # rest) =
     bind_res (if virtual_cluster \<ge> vcn
               then bind_res (add_ck vcn (cluster_count run)) (\<lambda>e. Ok (virtual_cluster < e))
               else Ok False) (\<lambda>here.
       if here then bind_res (sub_ck virtual_cluster vcn) (\<lambda>offset.
                    bind_res (add_ck (start_cluster run) offset) (\<lambda>c. Ok (Some c)))
       else bind_res (add_ck vcn (cluster_count run)) (\<lambda>vcn'.
              find_cluster_loop virtual_cluster vcn' rest))"

definition find_cluster :: "u64 \<Rightarrow> RunList \<Rightarrow> (fs_error, u64 option) res" where
  "find_cluster virtual_cluster rl = find_cluster_loop virtual_cluster 0 (runs rl)"

definition get_total_size :: "RunList \<Rightarrow> (fs_error, u64) res" where
  "get_total_size rl = mul_ck (rl_total_clusters rl) (as_u64 CLUSTER_SIZE)"

fun serialize_runs :: "ClusterRun list \<Rightarrow> bytes" where
  "serialize_runs [] = []"
| "serialize_runs (run # rest) =
     to_le_bytes (start_cluster run) @ to_le_bytes (cluster_count run) @ serialize_runs rest"

definition RunList_serialize :: "RunList \<Rightarrow> bytes" where
  "RunList_serialize rl = to_le_bytes (of_nat (length (runs rl)) :: u32) @ serialize_runs (runs rl)"

fun deserialize_runs :: "bytes \<Rightarrow> nat list \<Rightarrow> ClusterRun list \<Rightarrow> u64 \<Rightarrow> (fs_error, RunList) res" where
  "deserialize_runs data [] rs tot = Ok \<lparr>runs = rs, rl_total_clusters = tot\<rparr>"
| "deserialize_runs data (i # is) rs tot =
     (let offset = 4 + i * 16 in
      bind_res (get_le_ck offset data) (\<lambda>s. bind_res (get_le_ck (offset + 8) data) (\<lambda>c.
      bind_res (add_ck tot c) (\<lambda>tot'.
        deserialize_runs data is (rs @ [ClusterRun_new s c]) tot'))))"

definition RunList_deserialize :: "bytes \<Rightarrow> (fs_error, RunList) res" where
  "RunList_deserialize data =
     (if length data < 4 then Err InvalidParameter
      else let run_count = unat (get_le 0 data :: u32) in
           if length data < 4 + run_count * 16 then Err InvalidParameter
           else deserialize_runs data [0..<run_count] [] 0)"


section \<open>Runs as sets of clusters\<close>

definition run_end :: "ClusterRun \<Rightarrow> nat" where
  "run_end r = unat (start_cluster r) + unat (cluster_count r)"

definition run_set :: "ClusterRun \<Rightarrow> nat set" where
  "run_set r = {unat (start_cluster r)..<run_end r}"

definition wf_run :: "ClusterRun \<Rightarrow> bool" where
  "wf_run r \<longleftrightarrow> 0 < cluster_count r \<and> run_end r < 2 ^ 64"

lemma start_less_end: "wf_run r \<Longrightarrow> unat (start_cluster r) < run_end r"
  by (simp add: wf_run_def run_end_def word_less_nat_alt)

lemma end_cluster_ok:
  assumes "wf_run r"
  shows "\<exists>e. end_cluster r = Ok e \<and> unat e = run_end r - 1"
proof -
  let ?e = "start_cluster r + cluster_count r"
  have e: "unat ?e = run_end r"
    using assms by (simp add: wf_run_def run_end_def unat_add_no_wrap)
  with start_less_end [OF assms] have "1 \<le> ?e" by (simp add: word_le_nat_alt)
  moreover have "add_ck (start_cluster r) (cluster_count r) = (Ok ?e :: (fs_error, u64) res)"
    using assms by (simp add: add_ck_def wf_run_def run_end_def)
  ultimately have "end_cluster r = Ok (?e - 1)"
    by (simp add: end_cluster_def sub_ck_def)
  moreover from \<open>1 \<le> ?e\<close> e have "unat (?e - 1) = run_end r - 1" by (simp add: unat_sub)
  ultimately show ?thesis by blast
qed

lemma end_plus_one_ok:
  assumes "wf_run r" and "end_cluster r = Ok e"
  shows "\<exists>n. add_ck e 1 = (Ok n :: (fs_error, u64) res) \<and> unat n = run_end r"
proof -
  from assms end_cluster_ok have e: "unat e = run_end r - 1" by fastforce
  with assms(1) start_less_end [OF assms(1)] have "unat e + unat (1 :: u64) < 2 ^ LENGTH(64)"
    by (simp add: wf_run_def)
  then have "add_ck e 1 = (Ok (e + 1) :: (fs_error, u64) res)" and "unat (e + 1) = unat e + 1"
    by (simp_all add: add_ck_def unat_add_no_wrap)
  with e start_less_end [OF assms(1)] show ?thesis by auto
qed

lemma contains_cluster_ok:
  assumes "wf_run r"
  shows "contains_cluster r c = Ok (unat c \<in> run_set r)"
proof -
  from end_cluster_ok [OF assms] obtain e where "end_cluster r = Ok e" "unat e = run_end r - 1" by blast
  with start_less_end [OF assms] show ?thesis
    by (auto simp: contains_cluster_def run_set_def word_le_nat_alt)
qed

lemma overlaps_ok:
  assumes "wf_run r" and "wf_run r'"
  shows "overlaps r r' = Ok (run_set r \<inter> run_set r' \<noteq> {})"
proof -
  from end_cluster_ok assms obtain e e' where
    "end_cluster r = Ok e" "unat e = run_end r - 1" "end_cluster r' = Ok e'" "unat e' = run_end r' - 1"
    by blast
  moreover have "run_set r \<inter> run_set r' \<noteq> {} \<longleftrightarrow>
      \<not> (run_end r \<le> unat (start_cluster r') \<or> run_end r' \<le> unat (start_cluster r))"
    using assms [THEN start_less_end] by (auto simp: run_set_def)
  ultimately show ?thesis
    using assms [THEN start_less_end] by (auto simp: overlaps_def word_less_nat_alt)
qed

lemma can_merge_ok:
  assumes "wf_run r" and "wf_run r'"
  shows "can_merge r r' =
     Ok (run_end r = unat (start_cluster r') \<or> run_end r' = unat (start_cluster r))"
proof -
  from end_cluster_ok assms obtain e e' where e: "end_cluster r = Ok e" "end_cluster r' = Ok e'" by blast
  with end_plus_one_ok assms obtain n n' where
    "add_ck e 1 = (Ok n :: (fs_error, u64) res)" "unat n = run_end r"
    "add_ck e' 1 = (Ok n' :: (fs_error, u64) res)" "unat n' = run_end r'"
    by blast
  with e show ?thesis by (auto simp: can_merge_def word_unat_eq_iff)
qed

text \<open>The merge of a run with the next run above it.\<close>

definition joined :: "ClusterRun \<Rightarrow> ClusterRun \<Rightarrow> ClusterRun" where
  "joined r r' = ClusterRun_new (start_cluster r) (cluster_count r + cluster_count r')"

lemma joined_props:
  assumes "wf_run r" "wf_run r'" "run_end r = unat (start_cluster r')"
  shows "wf_run (joined r r')" and "run_end (joined r r') = run_end r'"
    and "start_cluster (joined r r') = start_cluster r"
    and "run_set (joined r r') = run_set r \<union> run_set r'"
    and "unat (cluster_count (joined r r')) = unat (cluster_count r) + unat (cluster_count r')"
proof -
  have c: "unat (cluster_count r + cluster_count r') = unat (cluster_count r) + unat (cluster_count r')"
    using assms by (intro unat_add_no_wrap) (simp add: wf_run_def run_end_def)
  then show "unat (cluster_count (joined r r')) = unat (cluster_count r) + unat (cluster_count r')"
    and e: "run_end (joined r r') = run_end r'"
    and s: "start_cluster (joined r r') = start_cluster r"
    using assms(3) by (simp_all add: joined_def ClusterRun_new_def run_end_def)
  then show "wf_run (joined r r')" and "run_set (joined r r') = run_set r \<union> run_set r'"
    using assms assms(1,2) [THEN start_less_end] c
    by (auto simp: wf_run_def run_set_def word_less_nat_alt joined_def ClusterRun_new_def)
qed

lemma merge_ok:
  assumes "wf_run r" "wf_run r'" "run_end r \<le> unat (start_cluster r')"
  shows "merge r r' = Ok (if run_end r = unat (start_cluster r') then Some (joined r r') else None)"
proof (cases "run_end r = unat (start_cluster r')")
  case False
  with assms start_less_end [OF assms(1)] start_less_end [OF assms(2)] show ?thesis
    by (simp add: merge_def can_merge_ok)
next
  case True
  note lt = start_less_end [OF assms(1)] start_less_end [OF assms(2)]
  from end_cluster_ok assms obtain e e' where
    e: "end_cluster r = Ok e" "unat e = run_end r - 1" "end_cluster r' = Ok e'" "unat e' = run_end r' - 1"
    by blast
  have "max e e' = e'" "min (start_cluster r) (start_cluster r') = start_cluster r"
    using e True lt by (auto simp: max_def min_def word_le_nat_alt)
  moreover have le: "start_cluster r \<le> e'" using e True lt by (simp add: word_le_nat_alt)
  moreover have "add_ck (e' - start_cluster r) 1
      = (Ok (cluster_count r + cluster_count r') :: (fs_error, u64) res)"
  proof -
    have d: "unat (e' - start_cluster r) = run_end r' - 1 - unat (start_cluster r)"
      using le e by (simp add: unat_sub)
    then have b: "unat (e' - start_cluster r) + unat (1 :: u64) < 2 ^ LENGTH(64)"
      using assms(2) lt True unfolding wf_run_def by simp linarith
    have "unat (e' - start_cluster r + 1) = unat (cluster_count (joined r r'))"
      using unat_add_no_wrap [OF b] d lt True joined_props(5) [OF assms(1,2) True]
      by (simp add: run_end_def)
    then have "e' - start_cluster r + 1 = cluster_count r + cluster_count r'"
      by (simp add: word_unat_eq_iff joined_def ClusterRun_new_def)
    with b show ?thesis by (simp add: add_ck_def)
  qed
  ultimately show ?thesis
    using True e assms by (simp add: merge_def can_merge_ok sub_ck_def joined_def)
qed


section \<open>Run lists as sets of clusters\<close>

definition clusters :: "ClusterRun list \<Rightarrow> nat set" where
  "clusters rs = (\<Union>r\<in>set rs. run_set r)"

definition cluster_sum :: "ClusterRun list \<Rightarrow> nat" where
  "cluster_sum rs = sum_list (map (\<lambda>r. unat (cluster_count r)) rs)"

definition gapped :: "ClusterRun list \<Rightarrow> bool" where
  "gapped = sorted_wrt (\<lambda>a b. run_end a < unat (start_cluster b))"

definition ascending :: "ClusterRun list \<Rightarrow> bool" where
  "ascending = sorted_wrt (\<lambda>a b. run_end a \<le> unat (start_cluster b))"

text \<open>Sorted by start, with at least one foreign cluster between neighbours, and counted right.\<close>

definition rl_inv :: "RunList \<Rightarrow> bool" where
  "rl_inv rl \<longleftrightarrow> (\<forall>r\<in>set (runs rl). wf_run r) \<and> gapped (runs rl)
     \<and> unat (rl_total_clusters rl) = cluster_sum (runs rl)"

lemma cluster_sum_simps [simp]:
  "cluster_sum [] = 0" "cluster_sum (r # rs) = unat (cluster_count r) + cluster_sum rs"
  "cluster_sum (rs @ rs') = cluster_sum rs + cluster_sum rs'"
  by (simp_all add: cluster_sum_def)

lemma clusters_simps [simp]:
  "clusters [] = {}" "clusters (r # rs) = run_set r \<union> clusters rs"
  "clusters (rs @ rs') = clusters rs \<union> clusters rs'"
  by (auto simp: clusters_def)

lemma cluster_sum_mset: "mset rs = mset rs' \<Longrightarrow> cluster_sum rs = cluster_sum rs'"
  unfolding cluster_sum_def by (metis mset_map sum_mset_sum_list)

lemma gapped_ascending: "gapped rs \<Longrightarrow> ascending rs"
  unfolding gapped_def ascending_def by (rule sorted_wrt_mono_rel) auto

lemma rl_inv_new: "rl_inv RunList_new"
  by (simp add: rl_inv_def RunList_new_def gapped_def)

lemma merge_loop_ok:
  assumes "\<forall>r\<in>set (merged @ rest). wf_run r" and "gapped merged" and "ascending (merged @ rest)"
  shows "\<exists>rs. merge_loop merged rest = Ok rs \<and> (\<forall>r\<in>set rs. wf_run r) \<and> gapped rs
     \<and> clusters rs = clusters (merged @ rest) \<and> cluster_sum rs = cluster_sum (merged @ rest)"
  using assms
proof (induction merged rest rule: merge_loop.induct)
  case (1 merged)
  then show ?case by simp
next
  case (2 merged run rest)
  show ?case
  proof (cases merged rule: rev_cases)
    case Nil
    with 2 show ?thesis by (simp add: gapped_def)
  next
    case (snoc front l)
    have wf: "wf_run l" "wf_run run" "\<forall>r\<in>set front. wf_run r" "\<forall>r\<in>set rest. wf_run r"
      using "2.prems"(1) snoc by auto
    have le: "run_end l \<le> unat (start_cluster run)"
      using "2.prems"(3) snoc by (simp add: ascending_def sorted_wrt_append)
    show ?thesis
    proof (cases "run_end l = unat (start_cluster run)")
      case True
      note j = joined_props [OF wf(1,2) True]
      have m: "merge (last merged) run = Ok (Some (joined l run))"
        using merge_ok [OF wf(1,2) le] True snoc by simp
      have g: "gapped (front @ [joined l run])" and a: "ascending (front @ joined l run # rest)"
        using "2.prems"(2,3) snoc j(2,3)
        by (auto simp: gapped_def ascending_def sorted_wrt_append)
      have "\<exists>rs. merge_loop (butlast merged @ [joined l run]) rest = Ok rs \<and> (\<forall>r\<in>set rs. wf_run r)
          \<and> gapped rs \<and> clusters rs = clusters ((butlast merged @ [joined l run]) @ rest)
          \<and> cluster_sum rs = cluster_sum ((butlast merged @ [joined l run]) @ rest)"
        using wf j(1) g a snoc by (intro "2.IH"(3)) auto
      with m snoc j(4,5) show ?thesis by (auto simp: Un_assoc)
    next
      case False
      then have m: "merge (last merged) run = Ok None"
        using merge_ok [OF wf(1,2) le] snoc by simp
      have g: "gapped (merged @ [run])"
      proof -
        have "run_end r < unat (start_cluster run)" if "r \<in> set front" for r
          using that "2.prems"(2) snoc le start_less_end [OF wf(1)]
          by (fastforce simp: gapped_def sorted_wrt_append)
        with False le "2.prems"(2) snoc show ?thesis
          by (auto simp: gapped_def sorted_wrt_append)
      qed
      have "\<exists>rs. merge_loop (merged @ [run]) rest = Ok rs \<and> (\<forall>r\<in>set rs. wf_run r)
          \<and> gapped rs \<and> clusters rs = clusters ((merged @ [run]) @ rest)
          \<and> cluster_sum rs = cluster_sum ((merged @ [run]) @ rest)"
        using "2.prems" g snoc by (intro "2.IH"(2)) auto
      with m snoc show ?thesis by (auto simp: Un_assoc)
    qed
  qed
qed

lemma ascending_sorted:
  assumes "sorted (map start_cluster rs)" and "distinct rs" and "\<forall>r\<in>set rs. wf_run r"
    and "\<And>a b. a \<in> set rs \<Longrightarrow> b \<in> set rs \<Longrightarrow> a \<noteq> b \<Longrightarrow> run_set a \<inter> run_set b = {}"
  shows "ascending rs"
  using assms
proof (induction rs)
  case Nil
  then show ?case by (simp add: ascending_def)
next
  case (Cons a rs)
  have "run_end a \<le> unat (start_cluster b)" if b: "b \<in> set rs" for b
  proof -
    from Cons.prems b have "run_set a \<inter> run_set b = {}" and "start_cluster a \<le> start_cluster b"
      by auto
    with Cons.prems(3) b start_less_end [of b] show ?thesis
      by (auto simp: run_set_def word_le_nat_alt disjoint_iff not_le)
  qed
  with Cons show ?case by (auto simp: ascending_def)
qed

lemma gapped_distinct: "gapped rs \<Longrightarrow> \<forall>r\<in>set rs. wf_run r \<Longrightarrow> distinct rs"
  by (induction rs) (auto simp: gapped_def dest!: start_less_end)

lemma gapped_disjoint:
  "gapped rs \<Longrightarrow> a \<in> set rs \<Longrightarrow> b \<in> set rs \<Longrightarrow> a \<noteq> b \<Longrightarrow> run_set a \<inter> run_set b = {}"
  by (induction rs) (auto simp: gapped_def run_set_def)

lemma add_run_ok:
  assumes "rl_inv rl" and "wf_run run" and "run_set run \<inter> clusters (runs rl) = {}"
    and "unat (rl_total_clusters rl) + unat (cluster_count run) < 2 ^ 64"
  shows "\<exists>rl'. add_run run rl = Ok rl' \<and> rl_inv rl' \<and> clusters (runs rl') = clusters (runs rl) \<union> run_set run"
proof -
  let ?rs = "sort_key start_cluster (runs rl @ [run])"
  from assms(1) have wf: "\<forall>r\<in>set (runs rl). wf_run r" and g: "gapped (runs rl)"
    and tot: "unat (rl_total_clusters rl) = cluster_sum (runs rl)"
    by (auto simp: rl_inv_def)
  have "unat (start_cluster run) \<in> run_set run"
    using start_less_end [OF assms(2)] by (simp add: run_set_def)
  with assms(3) have new: "run \<notin> set (runs rl)" by (auto simp: clusters_def)
  have "ascending ?rs"
  proof (rule ascending_sorted)
    fix a b assume "a \<in> set ?rs" "b \<in> set ?rs" "a \<noteq> b"
    then show "run_set a \<inter> run_set b = {}"
      using assms(3) gapped_disjoint [OF g, of a b] by (auto simp: clusters_def)
  qed (use wf assms(2) new gapped_distinct [OF g wf] in auto)
  then obtain rs where rs: "merge_loop [] ?rs = Ok rs" "\<forall>r\<in>set rs. wf_run r" "gapped rs"
      "clusters rs = clusters ?rs" "cluster_sum rs = cluster_sum ?rs"
    using merge_loop_ok [of "[]" ?rs] wf assms(2) by (auto simp: gapped_def)
  moreover have "clusters ?rs = clusters (runs rl) \<union> run_set run" by (auto simp: clusters_def)
  moreover have "cluster_sum ?rs = cluster_sum (runs rl @ [run])" by (rule cluster_sum_mset) simp
  ultimately show ?thesis
    using assms(4) tot
    by (simp add: add_run_def sort_and_merge_def add_ck_def rl_inv_def unat_add_no_wrap)
qed

lemma remove_run_ok:
  assumes "rl_inv rl" and "run \<in> set (runs rl)"
  shows "\<exists>rl'. remove_run run rl = Ok (True, rl') \<and> rl_inv rl'
     \<and> clusters (runs rl') = clusters (runs rl) - run_set run"
proof -
  from assms(1) have wf: "\<forall>r\<in>set (runs rl). wf_run r" and g: "gapped (runs rl)"
    and tot: "unat (rl_total_clusters rl) = cluster_sum (runs rl)"
    by (auto simp: rl_inv_def)
  have s: "cluster_sum (runs rl) = unat (cluster_count run) + cluster_sum (remove1 run (runs rl))"
    using cluster_sum_mset [of "runs rl" "run # remove1 run (runs rl)"] assms(2) by simp
  then have le: "cluster_count run \<le> rl_total_clusters rl" using tot by (simp add: word_le_nat_alt)
  have d: "distinct (runs rl)" using gapped_distinct [OF g wf] .
  have "gapped (remove1 run (runs rl))"
    using g unfolding gapped_def
    by (simp add: sorted_wrt_filter distinct_remove1_removeAll [OF d] removeAll_filter_not_eq)
  moreover have "clusters (remove1 run (runs rl)) = clusters (runs rl) - run_set run"
    using gapped_disjoint [OF g _ assms(2)] assms(2) d
    by (auto simp: clusters_def)
  ultimately show ?thesis
    using assms(2) le wf tot s
    by (auto simp: remove_run_def sub_ck_def rl_inv_def unat_sub dest: notin_set_remove1)
qed

lemma finite_clusters [simp]: "finite (clusters rs)"
  by (simp add: clusters_def run_set_def)

lemma finite_run_set [simp]: "finite (run_set r)"
  by (simp add: run_set_def)

lemma card_run_set: "card (run_set r) = unat (cluster_count r)"
  by (simp add: run_set_def run_end_def)

lemma card_clusters: "gapped rs \<Longrightarrow> card (clusters rs) = cluster_sum rs"
proof (induction rs)
  case (Cons r rs)
  then have "run_set r \<inter> clusters rs = {}"
    by (auto simp: gapped_def clusters_def run_set_def)
  with Cons show ?case by (simp add: card_Un_disjoint card_run_set gapped_def)
qed simp

text \<open>The clusters of a list in the order a reader of the file visits them.\<close>

definition expand :: "ClusterRun list \<Rightarrow> nat list" where
  "expand rs = concat (map (\<lambda>r. [unat (start_cluster r)..<run_end r]) rs)"

lemma length_expand: "length (expand rs) = cluster_sum rs"
  by (induction rs) (simp_all add: expand_def run_end_def)

lemma find_cluster_loop_ok:
  assumes "\<forall>r\<in>set rs. wf_run r" and "unat vcn + cluster_sum rs < 2 ^ 64" and "vcn \<le> v"
  shows "find_cluster_loop v vcn rs =
     Ok (if unat v < unat vcn + cluster_sum rs
         then Some (of_nat (expand rs ! (unat v - unat vcn))) else None)"
  using assms
proof (induction rs arbitrary: vcn)
  case (Cons r rs)
  let ?c = "cluster_count r"
  have e: "add_ck vcn ?c = (Ok (vcn + ?c) :: (fs_error, u64) res)" "unat (vcn + ?c) = unat vcn + unat ?c"
    using Cons.prems(2) by (simp_all add: add_ck_def unat_add_no_wrap)
  have len: "length [unat (start_cluster r)..<run_end r] = unat ?c" by (simp add: run_end_def)
  show ?case
  proof (cases "unat v < unat vcn + unat ?c")
    case True
    have d: "unat (v - vcn) = unat v - unat vcn" using Cons.prems(3) by (simp add: unat_sub)
    have sum: "unat (start_cluster r) + unat (v - vcn) < run_end r"
      using True Cons.prems(3) d by (simp add: run_end_def word_le_nat_alt)
    then have "add_ck (start_cluster r) (v - vcn) = (Ok (start_cluster r + (v - vcn)) :: (fs_error, u64) res)"
      using Cons.prems(1) by (simp add: add_ck_def wf_run_def)
    moreover have "expand (r # rs) ! (unat v - unat vcn) = unat (start_cluster r) + (unat v - unat vcn)"
      using sum d by (simp add: expand_def nth_append run_end_def)
    moreover have "(of_nat (unat (start_cluster r) + (unat v - unat vcn)) :: u64) = start_cluster r + (v - vcn)"
      by (simp add: d [symmetric])
    ultimately show ?thesis
      using True Cons.prems(3) e by (simp add: word_less_nat_alt sub_ck_def)
  next
    case False
    have le: "vcn + ?c \<le> v" using False e(2) by (simp add: word_le_nat_alt)
    have "find_cluster_loop v (vcn + ?c) rs = Ok (if unat v < unat (vcn + ?c) + cluster_sum rs
         then Some (of_nat (expand rs ! (unat v - unat (vcn + ?c)))) else None)"
      using Cons.prems e(2) le by (intro Cons.IH) simp_all
    moreover have "\<not> v < vcn + ?c" using le by simp
    moreover have "\<not> unat v - unat vcn < unat ?c"
      "unat v - unat (vcn + ?c) = unat v - unat vcn - unat ?c"
      using False e(2) by auto
    ultimately show ?thesis
      using e Cons.prems(3) len
      by (simp add: expand_def nth_append add.assoc)
  qed
qed (simp add: word_le_nat_alt)

lemma length_serialize_runs [simp]: "length (serialize_runs rs) = 16 * length rs"
  by (induction rs) simp_all

lemma get_le_drop: "get_le j (drop i d) = get_le (i + j) d"
  by (simp add: get_le_def window_def add.commute)

lemma deserialize_runs_ok:
  assumes "drop (4 + i * 16) data = serialize_runs q @ junk"
    and "unat tot + cluster_sum q < 2 ^ 64"
  shows "deserialize_runs data [i..<i + length q] rs tot
     = Ok \<lparr>runs = rs @ q, rl_total_clusters = tot + of_nat (cluster_sum q)\<rparr>"
  using assms
proof (induction q arbitrary: i rs tot)
  case (Cons r q)
  have "length data - (4 + i * 16) = 16 * length (r # q) + length junk"
    using arg_cong [OF Cons.prems(1), of length] by simp
  then have len: "4 + i * 16 + 16 \<le> length data" by simp
  have s: "(get_le (4 + i * 16) data :: u64) = start_cluster r"
    and c: "(get_le (4 + i * 16 + 8) data :: u64) = cluster_count r"
    using get_le_drop [of 0 "4 + i * 16" data, where 'a = 64]
      get_le_drop [of 8 "4 + i * 16" data, where 'a = 64] Cons.prems(1)
    by simp_all
  have d: "drop (4 + Suc i * 16) data = serialize_runs q @ junk"
    using arg_cong [OF Cons.prems(1), of "drop 16"] by (simp add: add.commute)
  have t: "unat (tot + cluster_count r) = unat tot + unat (cluster_count r)"
    using Cons.prems(2) by (simp add: unat_add_no_wrap)
  have "deserialize_runs data [Suc i..<Suc i + length q] (rs @ [r]) (tot + cluster_count r)
     = Ok \<lparr>runs = (rs @ [r]) @ q, rl_total_clusters = tot + cluster_count r + of_nat (cluster_sum q)\<rparr>"
    using d Cons.prems(2) t by (intro Cons.IH) simp_all
  moreover have "[i..<i + length (r # q)] = i # [Suc i..<Suc i + length q]"
    by (simp add: upt_conv_Cons del: upt_Suc)
  moreover have "ClusterRun_new (start_cluster r) (cluster_count r) = r"
    by (simp add: ClusterRun_new_def)
  ultimately show ?case
    using Cons.prems(2) len s c by (simp add: add_ck_def Let_def add.assoc del: upt_Suc)
qed simp


section \<open>Properties\<close>

text \<open>
  C22: adding a run that shares no cluster with a run list succeeds and keeps the list sorted, fully
  merged (no two neighbouring runs touch) and correctly totalled; the list then holds exactly the
  old clusters and the new ones, and the total counts each of them once.
\<close>

theorem add_run_correct:
  assumes "rl_inv rl" and "wf_run run" and "run_set run \<inter> clusters (runs rl) = {}"
    and "unat (rl_total_clusters rl) + unat (cluster_count run) < 2 ^ 64"
  shows "\<exists>rl'. add_run run rl = Ok rl' \<and> rl_inv rl'
     \<and> clusters (runs rl') = clusters (runs rl) \<union> run_set run
     \<and> unat (rl_total_clusters rl') = card (clusters (runs rl'))"
proof -
  from add_run_ok [OF assms] obtain rl' where "add_run run rl = Ok rl'" "rl_inv rl'"
    "clusters (runs rl') = clusters (runs rl) \<union> run_set run" by blast
  moreover from this(2) have "unat (rl_total_clusters rl') = card (clusters (runs rl'))"
    by (simp add: rl_inv_def card_clusters)
  ultimately show ?thesis by blast
qed

text \<open>Adding clusters 10 to 12 to a list that holds 7 to 9 merges both into one run.\<close>

theorem add_run_correct_witness:
  "\<exists>rl'. add_run (ClusterRun_new 10 3) \<lparr>runs = [ClusterRun_new 7 3], rl_total_clusters = 3\<rparr> = Ok rl'
     \<and> rl_inv rl' \<and> unat (rl_total_clusters rl') = card (clusters (runs rl'))"
  using add_run_correct [of "\<lparr>runs = [ClusterRun_new 7 3], rl_total_clusters = 3\<rparr>" "ClusterRun_new 10 3"]
  by (auto simp: rl_inv_def wf_run_def run_set_def run_end_def ClusterRun_new_def gapped_def)

text \<open>
  \<^verbatim>\<open>find_cluster\<close> reads a run list as the concatenation of its runs: virtual cluster \<open>v\<close> is the
  \<open>v\<close>-th cluster of that sequence, and there is no answer exactly from the total on.
\<close>

theorem find_cluster_correct:
  assumes "rl_inv rl"
  shows "find_cluster v rl =
     Ok (if v < rl_total_clusters rl then Some (of_nat (expand (runs rl) ! unat v)) else None)"
proof -
  from assms have "cluster_sum (runs rl) < 2 ^ 64"
    using unat_bound [of "rl_total_clusters rl"] by (simp add: rl_inv_def)
  with assms show ?thesis
    by (simp add: find_cluster_def find_cluster_loop_ok rl_inv_def word_less_nat_alt)
qed

theorem find_cluster_correct_witness:
  "find_cluster 4 \<lparr>runs = [ClusterRun_new 7 3, ClusterRun_new 20 5], rl_total_clusters = 8\<rparr> = Ok (Some 21)"
proof -
  have "rl_inv \<lparr>runs = [ClusterRun_new 7 3, ClusterRun_new 20 5], rl_total_clusters = 8\<rparr>"
    by (simp add: rl_inv_def wf_run_def run_end_def ClusterRun_new_def gapped_def)
  from find_cluster_correct [OF this, of 4] show ?thesis
    by (simp add: expand_def run_end_def ClusterRun_new_def upt_conv_Cons)
qed

text \<open>
  a serialized run list is read back unchanged, also from a buffer with further bytes after it.
\<close>

theorem RunList_roundtrip:
  assumes "rl_inv rl" and "length (runs rl) < 2 ^ 32"
  shows "RunList_deserialize (RunList_serialize rl @ junk) = Ok rl"
proof -
  let ?data = "RunList_serialize rl @ junk"
  from assms(1) have tot: "unat (rl_total_clusters rl) = cluster_sum (runs rl)"
    by (simp add: rl_inv_def)
  then have b: "cluster_sum (runs rl) < 2 ^ 64" using unat_bound [of "rl_total_clusters rl"] by simp
  have n: "unat (get_le 0 ?data :: u32) = length (runs rl)"
    using assms(2) by (simp add: RunList_serialize_def unat_of_nat)
  have "deserialize_runs ?data [0..<0 + length (runs rl)] [] 0
      = Ok \<lparr>runs = [] @ runs rl, rl_total_clusters = 0 + of_nat (cluster_sum (runs rl))\<rparr>"
    using b by (intro deserialize_runs_ok [where junk = junk]) (simp_all add: RunList_serialize_def)
  moreover have "of_nat (cluster_sum (runs rl)) = rl_total_clusters rl"
    by (simp add: tot [symmetric])
  ultimately show ?thesis
    using n by (simp add: RunList_deserialize_def RunList_serialize_def)
qed

theorem RunList_roundtrip_witness:
  "RunList_deserialize (RunList_serialize \<lparr>runs = [ClusterRun_new 7 3], rl_total_clusters = 3\<rparr> @ [0, 0, 1])
     = Ok \<lparr>runs = [ClusterRun_new 7 3], rl_total_clusters = 3\<rparr>"
  by (rule RunList_roundtrip)
    (simp_all add: rl_inv_def wf_run_def run_end_def ClusterRun_new_def gapped_def)

end
