(* ===== verification/Cluster_Bitmap.thy ===== *)
theory Cluster_Bitmap
  imports Cluster_Runs
begin

text \<open>
  The second part of \<^verbatim>\<open>crates/galleon2/src/allocation.rs\<close>: the cluster bitmap with its cache and
  the searches for free space. A method of \<^verbatim>\<open>ClusterBitmap\<close> runs on the pair of the bitmap object
  and the world.
\<close>

section \<open>The bitmap object\<close>

datatype AllocationStrategy = FirstFit | BestFit | NextFit

record ClusterBitmap =
  bm_drive :: u8
  bitmap_start_sector :: u64
  bitmap_size_sectors :: u64
  bm_total_clusters :: u64
  clusters_per_sector :: u64
  cached_bitmap :: "bytes option"
  bm_dirty :: bool

definition ClusterBitmap_new :: "u8 \<Rightarrow> u64 \<Rightarrow> u64 \<Rightarrow> (fs_error, ClusterBitmap) res" where
  "ClusterBitmap_new drive start total_clusters =
     (let bits_needed = total_clusters in
      bind_res (add_ck bits_needed 7) (\<lambda>b. let bytes_needed = b div 8 in
      bind_res (add_ck bytes_needed 511) (\<lambda>s. let size_sectors = s div 512 in
        Ok \<lparr>bm_drive = drive, bitmap_start_sector = start, bitmap_size_sectors = size_sectors,
            bm_total_clusters = total_clusters, clusters_per_sector = 512 * 8,
            cached_bitmap = None, bm_dirty = False\<rparr>)))"

function load_chunks :: "'v bdev \<Rightarrow> u8 \<Rightarrow> u64 \<Rightarrow> u64 \<Rightarrow> u64 \<Rightarrow> bytes \<Rightarrow> ('v, bytes) fs" where
  "load_chunks B drive start size_sectors sectors_read bitmap_data =
     (if sectors_read < size_sectors then
        let sectors_to_read = min 2 (size_sectors - sectors_read) in
        bnd (lift_res (add_ck start sectors_read)) (\<lambda>s.
        bnd (dread B drive (as_u8 sectors_to_read) (as_u32 s)
               (replicate (unat (sectors_to_read * 512)) 0)) (\<lambda>chunk.
          load_chunks B drive start size_sectors (sectors_read + sectors_to_read) (bitmap_data @ chunk)))
      else ret bitmap_data)"
  by pat_completeness auto

lemma unat_chunk_step:
  fixes size_sectors sectors_read :: u64
  assumes "sectors_read < size_sectors"
  shows "unat (sectors_read + min 2 (size_sectors - sectors_read)) = unat sectors_read + min 2 (unat size_sectors - unat sectors_read)"
    and "unat (min 2 (size_sectors - sectors_read)) = min 2 (unat size_sectors - unat sectors_read)"
proof -
  from assms have d: "unat (size_sectors - sectors_read) = unat size_sectors - unat sectors_read"
    by (simp add: unat_sub)
  then show m: "unat (min 2 (size_sectors - sectors_read)) = min 2 (unat size_sectors - unat sectors_read)"
    by (simp add: min_def word_le_nat_alt)
  have "unat sectors_read + unat (min 2 (size_sectors - sectors_read)) < 2 ^ LENGTH(64)"
    unfolding m using assms unat_bound [of size_sectors] by (simp add: word_less_nat_alt)
  from unat_add_no_wrap [OF this] m
  show "unat (sectors_read + min 2 (size_sectors - sectors_read)) = unat sectors_read + min 2 (unat size_sectors - unat sectors_read)"
    by simp
qed

termination load_chunks
proof (relation "measure (\<lambda>(B, d, s, size_sectors, sectors_read, bd). unat size_sectors - unat sectors_read)", goal_cases)
  case (2 B drive start size_sectors sectors_read bd x s chunk)
  then have "unat sectors_read < unat size_sectors" by (simp add: word_less_nat_alt)
  with 2 show ?case by (simp add: unat_chunk_step)
qed simp

declare load_chunks.simps [simp del]

definition load_bitmap :: "'v bdev \<Rightarrow> (ClusterBitmap, 'v, unit) meth" where
  "load_bitmap B = bnd (gets id) (\<lambda>self.
     if cached_bitmap self = None then
       bnd (io (load_chunks B (bm_drive self) (bitmap_start_sector self) (bitmap_size_sectors self) 0 []))
         (\<lambda>bitmap_data. modify (\<lambda>s. s\<lparr>cached_bitmap := Some bitmap_data, bm_dirty := False\<rparr>))
     else ret ())"

definition flush_bitmap :: "'v bdev \<Rightarrow> (ClusterBitmap, 'v, unit) meth" where
  "flush_bitmap B = bnd (gets id) (\<lambda>self.
     if bm_dirty self then
       (case cached_bitmap self of
          Some bitmap \<Rightarrow>
            bnd (io (dwrite B (bm_drive self) (as_u8 (bitmap_size_sectors self))
                       (as_u32 (bitmap_start_sector self)) bitmap))
              (\<lambda>_. modify (\<lambda>s. s\<lparr>bm_dirty := False\<rparr>))
        | None \<Rightarrow> ret ())
     else ret ())"

definition bit_clear :: "bytes \<Rightarrow> u64 \<Rightarrow> bool" where
  "bit_clear bitmap cluster \<longleftrightarrow>
     bitmap ! unat (cluster div 8) AND push_bit (unat (cluster mod 8)) 1 = 0"

definition is_cluster_free :: "'v bdev \<Rightarrow> u64 \<Rightarrow> (ClusterBitmap, 'v, bool) meth" where
  "is_cluster_free B cluster = bnd (gets bm_total_clusters) (\<lambda>total_clusters.
     if cluster \<ge> total_clusters then ret False
     else bnd (load_bitmap B) (\<lambda>_. bnd (gets cached_bitmap) (\<lambda>c. case c of
            Some bitmap \<Rightarrow>
              if unat (cluster div 8) < length bitmap then ret (bit_clear bitmap cluster)
              else ret False
          | None \<Rightarrow> fail InvalidParameter)))"

definition set_cluster_used :: "'v bdev \<Rightarrow> u64 \<Rightarrow> (ClusterBitmap, 'v, unit) meth" where
  "set_cluster_used B cluster = bnd (gets bm_total_clusters) (\<lambda>total_clusters.
     if cluster \<ge> total_clusters then fail InvalidParameter
     else bnd (load_bitmap B) (\<lambda>_. bnd (gets cached_bitmap) (\<lambda>c. case c of
            Some bitmap \<Rightarrow>
              let byte_index = unat (cluster div 8); bit_index = unat (cluster mod 8) in
              if byte_index < length bitmap
              then modify (\<lambda>s. s\<lparr>cached_bitmap :=
                       Some (bitmap[byte_index := bitmap ! byte_index OR push_bit bit_index 1]),
                     bm_dirty := True\<rparr>)
              else fail InvalidParameter
          | None \<Rightarrow> fail InvalidParameter)))"

definition set_cluster_free :: "'v bdev \<Rightarrow> u64 \<Rightarrow> (ClusterBitmap, 'v, unit) meth" where
  "set_cluster_free B cluster = bnd (gets bm_total_clusters) (\<lambda>total_clusters.
     if cluster \<ge> total_clusters then fail InvalidParameter
     else bnd (load_bitmap B) (\<lambda>_. bnd (gets cached_bitmap) (\<lambda>c. case c of
            Some bitmap \<Rightarrow>
              let byte_index = unat (cluster div 8); bit_index = unat (cluster mod 8) in
              if byte_index < length bitmap
              then modify (\<lambda>s. s\<lparr>cached_bitmap :=
                       Some (bitmap[byte_index := bitmap ! byte_index AND NOT (push_bit bit_index 1)]),
                     bm_dirty := True\<rparr>)
              else fail InvalidParameter
          | None \<Rightarrow> fail InvalidParameter)))"


section \<open>Searching for free space\<close>

text \<open>The clusters a Rust range \<^verbatim>\<open>a..b\<close> visits.\<close>

definition u64_range :: "u64 \<Rightarrow> u64 \<Rightarrow> u64 list" where
  "u64_range a b = map of_nat [unat a..<unat b]"

fun first_fit_loop :: "bytes \<Rightarrow> u64 \<Rightarrow> u64 list \<Rightarrow> u64 option \<Rightarrow> u64 \<Rightarrow> ClusterRun option" where
  "first_fit_loop bitmap cnt [] current_start current_count = None"
| "first_fit_loop bitmap cnt (cluster # rest) current_start current_count =
     (if unat (cluster div 8) \<ge> length bitmap then None
      else if bit_clear bitmap cluster then
        (case (case current_start of None \<Rightarrow> (cluster, 1) | Some s \<Rightarrow> (s, current_count + 1)) of
           (s, n) \<Rightarrow> if n \<ge> cnt then Some (ClusterRun_new s cnt)
                    else first_fit_loop bitmap cnt rest (Some s) n)
      else first_fit_loop bitmap cnt rest None 0)"

definition find_first_fit :: "u64 \<Rightarrow> ClusterBitmap \<Rightarrow> (fs_error, ClusterRun option) res" where
  "find_first_fit cnt self = (case cached_bitmap self of
     Some bitmap \<Rightarrow> Ok (first_fit_loop bitmap cnt (u64_range 0 (bm_total_clusters self)) None 0)
   | None \<Rightarrow> Err InvalidParameter)"

definition keep_best :: "u64 \<Rightarrow> u64 option \<Rightarrow> u64 \<Rightarrow> ClusterRun option \<Rightarrow> ClusterRun option" where
  "keep_best cnt current_start current_count best_run = (case current_start of
     Some s \<Rightarrow>
       if current_count \<ge> cnt then
         (case best_run of
            None \<Rightarrow> Some (ClusterRun_new s current_count)
          | Some b \<Rightarrow> if current_count < cluster_count b then Some (ClusterRun_new s current_count) else best_run)
       else best_run
   | None \<Rightarrow> best_run)"

fun best_fit_loop :: "bytes \<Rightarrow> u64 \<Rightarrow> u64 list \<Rightarrow> ClusterRun option \<Rightarrow> u64 option \<Rightarrow> u64 \<Rightarrow> ClusterRun option" where
  "best_fit_loop bitmap cnt [] best_run current_start current_count =
     keep_best cnt current_start current_count best_run"
| "best_fit_loop bitmap cnt (cluster # rest) best_run current_start current_count =
     (if unat (cluster div 8) \<ge> length bitmap then keep_best cnt current_start current_count best_run
      else if bit_clear bitmap cluster then
        (case current_start of
           None \<Rightarrow> best_fit_loop bitmap cnt rest best_run (Some cluster) 1
         | Some s \<Rightarrow> best_fit_loop bitmap cnt rest best_run (Some s) (current_count + 1))
      else best_fit_loop bitmap cnt rest (keep_best cnt current_start current_count best_run) None 0)"

definition find_best_fit :: "u64 \<Rightarrow> ClusterBitmap \<Rightarrow> (fs_error, ClusterRun option) res" where
  "find_best_fit cnt self = (case cached_bitmap self of
     Some bitmap \<Rightarrow>
       (case best_fit_loop bitmap cnt (u64_range 0 (bm_total_clusters self)) None None 0 of
          Some run \<Rightarrow> Ok (Some (ClusterRun_new (start_cluster run) cnt))
        | None \<Rightarrow> Ok None)
   | None \<Rightarrow> Err InvalidParameter)"

definition find_next_fit :: "u64 \<Rightarrow> ClusterBitmap \<Rightarrow> (fs_error, ClusterRun option) res" where
  "find_next_fit cnt self = find_first_fit cnt self"

definition find_free_clusters :: "'v bdev \<Rightarrow> u64 \<Rightarrow> AllocationStrategy \<Rightarrow> (ClusterBitmap, 'v, ClusterRun option) meth" where
  "find_free_clusters B cnt strategy =
     bnd (load_bitmap B) (\<lambda>_. bnd (gets id) (\<lambda>self. lift_res (case strategy of
       FirstFit \<Rightarrow> find_first_fit cnt self
     | BestFit \<Rightarrow> find_best_fit cnt self
     | NextFit \<Rightarrow> find_next_fit cnt self)))"

fun for_each :: "('a \<Rightarrow> ('w, 'e, unit) prog) \<Rightarrow> 'a list \<Rightarrow> ('w, 'e, unit) prog" where
  "for_each f [] = ret ()"
| "for_each f (x # xs) = bnd (f x) (\<lambda>_. for_each f xs)"

definition mark_run_used :: "'v bdev \<Rightarrow> ClusterRun \<Rightarrow> (ClusterBitmap, 'v, unit) meth" where
  "mark_run_used B run =
     bnd (lift_res (add_ck (start_cluster run) (cluster_count run))) (\<lambda>e.
       for_each (set_cluster_used B) (u64_range (start_cluster run) e))"

definition mark_run_free :: "'v bdev \<Rightarrow> ClusterRun \<Rightarrow> (ClusterBitmap, 'v, unit) meth" where
  "mark_run_free B run =
     bnd (lift_res (add_ck (start_cluster run) (cluster_count run))) (\<lambda>e.
       for_each (set_cluster_free B) (u64_range (start_cluster run) e))"

definition get_free_cluster_count :: "'v bdev \<Rightarrow> (ClusterBitmap, 'v, u64) meth" where
  "get_free_cluster_count B =
     bnd (load_bitmap B) (\<lambda>_. bnd (gets id) (\<lambda>self. case cached_bitmap self of
       Some bitmap \<Rightarrow>
         ret (fold (\<lambda>cluster free_count.
                if unat (cluster div 8) < length bitmap \<and> bit_clear bitmap cluster
                then free_count + 1 else free_count) (u64_range 0 (bm_total_clusters self)) 0)
     | None \<Rightarrow> fail InvalidParameter))"


section \<open>The bitmap as a set of free clusters\<close>

definition free_in :: "bytes \<Rightarrow> nat \<Rightarrow> nat \<Rightarrow> bool" where
  "free_in bitmap T c \<longleftrightarrow> c < T \<and> c div 8 < length bitmap \<and> \<not> bit (bitmap ! (c div 8)) (c mod 8)"

definition free_run :: "bytes \<Rightarrow> nat \<Rightarrow> nat \<Rightarrow> nat \<Rightarrow> bool" where
  "free_run bitmap T s n \<longleftrightarrow> (\<forall>k<n. free_in bitmap T (s + k))"

lemma bit_clear_iff: "bit_clear bitmap c \<longleftrightarrow> \<not> bit (bitmap ! (unat c div 8)) (unat c mod 8)"
  by (simp add: bit_clear_def unat_div unat_mod and_exp_eq_0_iff_not_bit)

lemma free_in_u64:
  assumes "c < T" and "T < 2 ^ 64"
  shows "free_in bitmap T c \<longleftrightarrow> unat ((of_nat c :: u64) div 8) < length bitmap \<and> bit_clear bitmap (of_nat c)"
proof -
  have "unat (of_nat c :: u64) = c" using assms by (simp add: unat_of_nat)
  with assms(1) show ?thesis by (simp add: free_in_def bit_clear_iff unat_div)
qed

lemma not_free_beyond: "length bitmap \<le> i div 8 \<Longrightarrow> i \<le> c \<Longrightarrow> \<not> free_in bitmap T c"
  unfolding free_in_def using div_le_mono [of i c 8] by auto

lemma free_run_le: "free_run bitmap T s n \<Longrightarrow> m \<le> n \<Longrightarrow> free_run bitmap T s m"
  by (simp add: free_run_def)

lemma free_run_Suc: "free_run bitmap T s (Suc n) \<longleftrightarrow> free_run bitmap T s n \<and> free_in bitmap T (s + n)"
  by (auto simp: free_run_def less_Suc_eq)

lemma free_run_hits:
  assumes "free_run bitmap T s n" and "s \<le> i" and "i < s + n"
  shows "free_in bitmap T i"
  using assms by (auto simp: free_run_def dest!: spec [of _ "i - s"])

lemma free_run_bound: "free_run bitmap T s n \<Longrightarrow> 0 < n \<Longrightarrow> s + n \<le> T"
  by (auto simp: free_run_def free_in_def dest!: spec [of _ "n - 1"])

lemma not_free_run_beyond:
  assumes "length bitmap \<le> i div 8" and "i < s + n" and "0 < n"
  shows "\<not> free_run bitmap T s n"
proof -
  have "\<not> free_in bitmap T (s + (n - 1))"
    using assms by (intro not_free_beyond [of _ i]) simp_all
  with assms(3) show ?thesis by (auto simp: free_run_def intro!: exI [of _ "n - 1"])
qed

text \<open>A search strategy finds a free run of the wanted length whenever there is one.\<close>

locale fit_strategy =
  fixes fit :: "u64 \<Rightarrow> ClusterBitmap \<Rightarrow> (fs_error, ClusterRun option) res"
  assumes fit_some: "cached_bitmap self = Some b \<Longrightarrow> 0 < n \<Longrightarrow> fit n self = Ok (Some r)
      \<Longrightarrow> cluster_count r = n
        \<and> free_run b (unat (bm_total_clusters self)) (unat (start_cluster r)) (unat n)"
    and fit_none: "cached_bitmap self = Some b \<Longrightarrow> 0 < n \<Longrightarrow> fit n self = Ok None
      \<Longrightarrow> \<not> free_run b (unat (bm_total_clusters self)) s (unat n)"
    and fit_total: "cached_bitmap self = Some b \<Longrightarrow> \<exists>r. fit n self = Ok r"
begin

lemma fit_wf_run:
  assumes "cached_bitmap self = Some b" "0 < n" "fit n self = Ok (Some r)"
  shows "wf_run r" and "run_end r \<le> unat (bm_total_clusters self)"
proof -
  from fit_some [OF assms] have c: "cluster_count r = n"
    and f: "free_run b (unat (bm_total_clusters self)) (unat (start_cluster r)) (unat n)" by auto
  from free_run_bound [OF f] assms(2) c show e: "run_end r \<le> unat (bm_total_clusters self)"
    by (simp add: run_end_def word_less_nat_alt)
  then show "wf_run r"
    using assms(2) c unat_bound [of "bm_total_clusters self"] by (simp add: wf_run_def)
qed

lemma fit_finds:
  assumes "cached_bitmap self = Some b" "0 < n"
    and "free_run b (unat (bm_total_clusters self)) s (unat n)"
  obtains r where "fit n self = Ok (Some r)"
  using fit_total [OF assms(1), of n] fit_none [OF assms(1,2), of s] assms(3)
  by (metis option.exhaust)

end

subsection \<open>First fit\<close>

lemma u64_range_Cons:
  assumes "i < T"
  shows "map of_nat [i..<T] = (of_nat i :: u64) # map of_nat [Suc i..<T]"
  using assms by (simp add: upt_conv_Cons)

definition cur :: "nat \<Rightarrow> nat \<Rightarrow> u64 option" where
  "cur i n = (if n = 0 then None else Some (of_nat (i - n)))"

lemma first_fit_step:
  assumes "i < T" and "T < 2 ^ 64"
  shows "first_fit_loop b cnt (map of_nat [i..<T]) (cur i n) (of_nat n) =
     (if length b \<le> i div 8 then None
      else if free_in b T i then
        (if cnt \<le> of_nat (Suc n) then Some (ClusterRun_new (of_nat (i - n)) cnt)
         else first_fit_loop b cnt (map of_nat [Suc i..<T]) (cur (Suc i) (Suc n)) (of_nat (Suc n)))
      else first_fit_loop b cnt (map of_nat [Suc i..<T]) (cur (Suc i) 0) (of_nat 0))"
proof -
  have "unat ((of_nat i :: u64) div 8) = i div 8"
    using assms by (simp add: unat_div unat_of_nat)
  moreover have "(case cur i n of None \<Rightarrow> (of_nat i, 1) | Some s \<Rightarrow> (s, of_nat n + 1))
      = (of_nat (i - n) :: u64, of_nat (Suc n) :: u64)"
    by (simp add: cur_def add.commute)
  moreover have "cur (Suc i) (Suc n) = Some (of_nat (i - n))" "cur (Suc i) 0 = None"
    by (simp_all add: cur_def)
  ultimately show ?thesis
    by (simp add: u64_range_Cons [OF assms(1)] free_in_u64 [OF assms] del: of_nat_Suc)
qed

definition first_from :: "bytes \<Rightarrow> nat \<Rightarrow> u64 \<Rightarrow> nat \<Rightarrow> ClusterRun option \<Rightarrow> bool" where
  "first_from b T cnt p res = (case res of
       None \<Rightarrow> \<forall>s\<ge>p. \<not> free_run b T s (unat cnt)
     | Some r \<Rightarrow> cluster_count r = cnt \<and> p \<le> unat (start_cluster r)
          \<and> free_run b T (unat (start_cluster r)) (unat cnt)
          \<and> (\<forall>s. p \<le> s \<and> s < unat (start_cluster r) \<longrightarrow> \<not> free_run b T s (unat cnt)))"

lemma first_from_skip:
  assumes "first_from b T cnt (Suc i) res" and "\<And>s. p \<le> s \<Longrightarrow> s \<le> i \<Longrightarrow> \<not> free_run b T s (unat cnt)" and "p \<le> i"
  shows "first_from b T cnt p res"
  using assms unfolding first_from_def
  by (auto split: option.splits) (meson not_less_eq_eq)+

lemma first_fit_loop_spec:
  assumes "i \<le> T" and "T < 2 ^ 64" and "n \<le> i" and "n < unat cnt" and "free_run b T (i - n) n"
  shows "first_from b T cnt (i - n) (first_fit_loop b cnt (map of_nat [i..<T]) (cur i n) (of_nat n))"
  using assms
proof (induction "T - i" arbitrary: i n)
  case 0
  then have "\<not> free_run b T s (unat cnt)" if "i - n \<le> s" for s
    using that free_run_bound [of b T s "unat cnt"] by auto
  with 0 show ?case by (simp add: first_from_def)
next
  case (Suc d)
  then have iT: "i < T" by simp
  note step = first_fit_step [OF iT Suc.prems(2), of b cnt n]
  consider (beyond) "length b \<le> i div 8" | (used) "\<not> length b \<le> i div 8" "\<not> free_in b T i"
    | (free) "\<not> length b \<le> i div 8" "free_in b T i" by blast
  then show ?case
  proof cases
    case beyond
    then have "\<not> free_run b T s (unat cnt)" if "i - n \<le> s" for s
      using that Suc.prems(3,4) not_free_run_beyond [of b i s "unat cnt" T] by simp
    with step beyond show ?thesis by (simp add: first_from_def)
  next
    case used
    then have "\<not> free_run b T s (unat cnt)" if "i - n \<le> s" "s \<le> i" for s
      using that Suc.prems(3,4) free_run_hits [of b T s "unat cnt" i]
      by (cases "i < s + unat cnt") auto
    moreover have "first_from b T cnt (Suc i - 0)
        (first_fit_loop b cnt (map of_nat [Suc i..<T]) (cur (Suc i) 0) (of_nat 0))"
      using Suc.hyps(2) Suc.prems iT by (intro Suc.hyps(1)) (simp_all add: free_run_def)
    ultimately show ?thesis using step used by (auto intro: first_from_skip [of b T cnt i])
  next
    case free
    then have run: "free_run b T (i - n) (Suc n)"
      using Suc.prems(3,5) by (simp add: free_run_Suc)
    have u: "unat (of_nat (Suc n) :: u64) = Suc n" "unat (of_nat (i - n) :: u64) = i - n"
      using iT Suc.prems(2,3) by (simp_all add: unat_of_nat del: of_nat_Suc of_nat_diff)
    show ?thesis
    proof (cases "cnt \<le> of_nat (Suc n)")
      case True
      with u(1) Suc.prems(4) have "unat cnt = Suc n" by (simp add: word_le_nat_alt del: of_nat_Suc)
      with True step free run u(2) show ?thesis
        by (auto simp: first_from_def ClusterRun_new_def simp del: of_nat_Suc)
    next
      case False
      then have "Suc n < unat cnt" using u(1) by (simp add: word_le_nat_alt not_le del: of_nat_Suc)
      with run Suc.hyps(1) [of "Suc i" "Suc n"] Suc.hyps(2) Suc.prems iT
      have "first_from b T cnt (i - n)
          (first_fit_loop b cnt (map of_nat [Suc i..<T]) (cur (Suc i) (Suc n)) (of_nat (Suc n)))"
        by (simp del: of_nat_Suc)
      with False step free show ?thesis by (simp del: of_nat_Suc)
    qed
  qed
qed

lemma find_first_fit_spec:
  assumes "cached_bitmap self = Some b" and "0 < n"
  shows "\<exists>r. find_first_fit n self = Ok r \<and> first_from b (unat (bm_total_clusters self)) n 0 r"
  using assms first_fit_loop_spec [of 0 "unat (bm_total_clusters self)" 0 n b]
    unat_bound [of "bm_total_clusters self"]
  by (simp add: find_first_fit_def u64_range_def cur_def free_run_def word_less_nat_alt)

interpretation ff: fit_strategy find_first_fit
  by unfold_locales
    (use find_first_fit_spec in \<open>fastforce simp: first_from_def find_first_fit_def\<close>)+

interpretation nf: fit_strategy find_next_fit
  unfolding find_next_fit_def by (rule ff.fit_strategy_axioms)


subsection \<open>Best fit\<close>

text \<open>A maximal free run: free throughout, and bounded on both sides.\<close>

definition max_run :: "bytes \<Rightarrow> nat \<Rightarrow> nat \<Rightarrow> nat \<Rightarrow> bool" where
  "max_run b T s n \<longleftrightarrow> 0 < n \<and> free_run b T s n \<and> \<not> free_in b T (s + n)
     \<and> (s = 0 \<or> \<not> free_in b T (s - 1))"

lemma max_run_unique:
  assumes "max_run b T s n" and "max_run b T s m"
  shows "n = m"
proof -
  have "\<not> a < c" if "max_run b T s a" "max_run b T s c" for a c
    using that by (auto simp: max_run_def free_run_def)
  with assms show ?thesis by (meson linorder_neqE_nat)
qed

text \<open>The maximal runs that start below \<open>p\<close> and are long enough, and the shortest, then first, of a set.\<close>

definition candidates :: "bytes \<Rightarrow> nat \<Rightarrow> nat \<Rightarrow> nat \<Rightarrow> (nat \<times> nat) set" where
  "candidates b T cnt p = {(s, n). s < p \<and> max_run b T s n \<and> cnt \<le> n}"

definition is_best :: "(nat \<times> nat) set \<Rightarrow> ClusterRun option \<Rightarrow> bool" where
  "is_best S res = (case res of
     None \<Rightarrow> S = {}
   | Some r \<Rightarrow> (unat (start_cluster r), unat (cluster_count r)) \<in> S
       \<and> (\<forall>(s, n) \<in> S. unat (cluster_count r) < n
            \<or> unat (cluster_count r) = n \<and> unat (start_cluster r) \<le> s))"

lemma max_run_start_cases:
  assumes "max_run b T s m" and "s < q" and "free_run b T p n" and "\<not> free_in b T (p + n)"
    and "q \<le> Suc (p + n)"
  shows "s < p \<or> s = p"
proof (rule ccontr)
  assume "\<not> ?thesis"
  then have gt: "p < s" by simp
  with assms(1) have "\<not> free_in b T (s - 1)" "free_in b T s" by (auto simp: max_run_def free_run_def)
  moreover have "s \<noteq> p + n" using calculation(2) assms(4) by auto
  then have "s - 1 < p + n" using assms(2,5) by simp
  then have "free_in b T (s - 1)" using gt assms(3) by (intro free_run_hits [of b T p n]) auto
  ultimately show False by simp
qed

lemma is_best_insert:
  assumes "is_best S best" and "\<And>s m. (s, m) \<in> S \<Longrightarrow> s < p"
    and "unat (start_cluster new) = p" and "unat (cluster_count new) = n"
  shows "is_best (insert (p, n) S) (case best of None \<Rightarrow> Some new
     | Some r \<Rightarrow> if n < unat (cluster_count r) then Some new else best)"
proof (cases best)
  case None
  with assms show ?thesis by (simp add: is_best_def)
next
  case (Some r)
  show ?thesis
  proof (cases "n < unat (cluster_count r)")
    case True
    with assms Some show ?thesis by (force simp: is_best_def)
  next
    case False
    from assms(1) Some have "(unat (start_cluster r), unat (cluster_count r)) \<in> S"
      by (simp add: is_best_def)
    with assms(2) have "unat (start_cluster r) < p" by blast
    with False assms(1) Some show ?thesis by (auto simp: is_best_def)
  qed
qed

lemma candidates_extend:
  assumes "i = p + n" and "free_run b T p n" and "\<not> free_in b T i"
    and "n = 0 \<or> p = 0 \<or> \<not> free_in b T (p - 1)"
  shows "candidates b T cnt (Suc i) =
     (if 0 < n \<and> cnt \<le> n then insert (p, n) (candidates b T cnt p) else candidates b T cnt p)"
proof -
  have here: "max_run b T p m \<longleftrightarrow> 0 < n \<and> m = n" for m
  proof (cases "n = 0")
    case True
    with assms(1,3) show ?thesis by (auto simp: max_run_def free_run_def)
  next
    case False
    then have "max_run b T p n" using assms by (auto simp: max_run_def)
    with False show ?thesis using max_run_unique by blast
  qed
  have "s < p \<or> s = p" if "max_run b T s m" "s < Suc i" for s m
    using max_run_start_cases [OF that assms(2)] assms(1,3) by simp
  then have "candidates b T cnt (Suc i) = candidates b T cnt p \<union> {(s, m). s = p \<and> max_run b T s m \<and> cnt \<le> m}"
    using assms(1) by (fastforce simp: candidates_def)
  also have "{(s, m). s = p \<and> max_run b T s m \<and> cnt \<le> m} = (if 0 < n \<and> cnt \<le> n then {(p, n)} else {})"
    by (auto simp: here)
  finally show ?thesis by auto
qed

lemma keep_best_spec:
  assumes "is_best (candidates b T (unat cnt) p) best" and "i = p + n" and "i < 2 ^ 64"
    and "free_run b T p n" and "\<not> free_in b T i" and "n = 0 \<or> p = 0 \<or> \<not> free_in b T (p - 1)"
  shows "is_best (candidates b T (unat cnt) (Suc i)) (keep_best cnt (cur i n) (of_nat n) best)"
proof -
  have u: "unat (of_nat n :: u64) = n" "unat (of_nat p :: u64) = p"
    using assms(2,3) by (simp_all add: unat_of_nat)
  have k: "keep_best cnt (cur i n) (of_nat n) best =
     (if 0 < n \<and> unat cnt \<le> n then (case best of
          None \<Rightarrow> Some (ClusterRun_new (of_nat p) (of_nat n))
        | Some r \<Rightarrow> if n < unat (cluster_count r) then Some (ClusterRun_new (of_nat p) (of_nat n)) else best)
      else best)"
    using assms(2)
    by (simp add: keep_best_def cur_def word_le_nat_alt word_less_nat_alt u(1) split: option.split)
  show ?thesis
  proof (cases "0 < n \<and> unat cnt \<le> n")
    case True
    have "is_best (insert (p, n) (candidates b T (unat cnt) p)) (case best of
          None \<Rightarrow> Some (ClusterRun_new (of_nat p) (of_nat n))
        | Some r \<Rightarrow> if n < unat (cluster_count r) then Some (ClusterRun_new (of_nat p) (of_nat n)) else best)"
      by (rule is_best_insert [OF assms(1)]) (simp_all add: candidates_def ClusterRun_new_def u)
    with True k candidates_extend [OF assms(2,4,5,6)] show ?thesis by simp
  next
    case False
    then show ?thesis using assms(1) k candidates_extend [OF assms(2,4,5,6)] by auto
  qed
qed

lemma best_fit_step:
  assumes "i < T" and "T < 2 ^ 64"
  shows "best_fit_loop b cnt (map of_nat [i..<T]) best (cur i n) (of_nat n) =
     (if length b \<le> i div 8 then keep_best cnt (cur i n) (of_nat n) best
      else if free_in b T i then
        best_fit_loop b cnt (map of_nat [Suc i..<T]) best (cur (Suc i) (Suc n)) (of_nat (Suc n))
      else best_fit_loop b cnt (map of_nat [Suc i..<T]) (keep_best cnt (cur i n) (of_nat n) best)
             (cur (Suc i) 0) (of_nat 0))"
proof -
  have "unat ((of_nat i :: u64) div 8) = i div 8"
    using assms by (simp add: unat_div unat_of_nat)
  then show ?thesis
    by (simp add: u64_range_Cons [OF assms(1)] free_in_u64 [OF assms] cur_def add.commute)
qed

lemma candidates_all:
  assumes "\<And>c. i \<le> c \<Longrightarrow> \<not> free_in b T c" and "i \<le> T"
  shows "candidates b T cnt (Suc i) = candidates b T cnt T"
proof -
  have "s < i" if "max_run b T s n" for s n
  proof -
    from that have "free_in b T (s + 0)" unfolding max_run_def free_run_def by blast
    with assms(1) [of s] show ?thesis by (cases "i \<le> s") simp_all
  qed
  then show ?thesis using assms(2) by (fastforce simp: candidates_def)
qed

lemma best_fit_loop_spec:
  assumes "i \<le> T" and "T < 2 ^ 64" and "i = p + n" and "free_run b T p n"
    and "p = 0 \<or> \<not> free_in b T (p - 1)" and "is_best (candidates b T (unat cnt) p) best"
  shows "is_best (candidates b T (unat cnt) T)
     (best_fit_loop b cnt (map of_nat [i..<T]) best (cur i n) (of_nat n))"
  using assms
proof (induction "T - i" arbitrary: i p n best)
  case 0
  then have "\<not> free_in b T c" if "i \<le> c" for c using that by (simp add: free_in_def)
  with keep_best_spec [of b T cnt p best i n] 0 candidates_all [of i b T "unat cnt"]
  show ?case by simp
next
  case (Suc d)
  then have iT: "i < T" by simp
  note step = best_fit_step [OF iT Suc.prems(2), of b cnt best n]
  note keep = keep_best_spec [OF Suc.prems(6) Suc.prems(3) _ Suc.prems(4)]
  consider (beyond) "length b \<le> i div 8" | (used) "\<not> length b \<le> i div 8" "\<not> free_in b T i"
    | (free) "\<not> length b \<le> i div 8" "free_in b T i" by blast
  then show ?case
  proof cases
    case beyond
    then have "\<not> free_in b T c" if "i \<le> c" for c using that by (rule not_free_beyond)
    then have "candidates b T (unat cnt) (Suc i) = candidates b T (unat cnt) T" "\<not> free_in b T i"
      using candidates_all [of i b T "unat cnt"] iT by auto
    with step beyond keep Suc.prems(2,5) iT show ?thesis by auto
  next
    case used
    with keep Suc.prems(2,5) iT
    have "is_best (candidates b T (unat cnt) (Suc i)) (keep_best cnt (cur i n) (of_nat n) best)" by auto
    with used have "is_best (candidates b T (unat cnt) T) (best_fit_loop b cnt (map of_nat [Suc i..<T])
        (keep_best cnt (cur i n) (of_nat n) best) (cur (Suc i) 0) (of_nat 0))"
      using Suc.hyps(2) Suc.prems(2) iT
      by (intro Suc.hyps(1) [where p = "Suc i"]) (simp_all add: free_run_def)
    with step used show ?thesis by simp
  next
    case free
    have "is_best (candidates b T (unat cnt) T) (best_fit_loop b cnt (map of_nat [Suc i..<T]) best
        (cur (Suc i) (Suc n)) (of_nat (Suc n)))"
      using Suc.hyps(2) Suc.prems iT free
      by (intro Suc.hyps(1) [where p = p]) (simp_all add: free_run_Suc)
    with step free show ?thesis by simp
  qed
qed

lemma free_run_extends:
  assumes "free_run b T s n" and "0 < n"
  shows "\<exists>s' n'. max_run b T s' n' \<and> n \<le> n'"
proof -
  define s' where "s' = (LEAST x. x \<le> s \<and> (\<forall>c. x \<le> c \<and> c < s \<longrightarrow> free_in b T c))"
  have "s \<le> s \<and> (\<forall>c. s \<le> c \<and> c < s \<longrightarrow> free_in b T c)" by auto
  then have "s' \<le> s \<and> (\<forall>c. s' \<le> c \<and> c < s \<longrightarrow> free_in b T c)" unfolding s'_def by (rule LeastI)
  then have s': "s' \<le> s" "\<And>c. s' \<le> c \<Longrightarrow> c < s \<Longrightarrow> free_in b T c" by blast+
  have left: "s' = 0 \<or> \<not> free_in b T (s' - 1)"
  proof (rule ccontr)
    assume a: "\<not> ?thesis"
    have "free_in b T c" if "s' - 1 \<le> c" "c < s" for c
      using a s'(2) [of c] that by (cases "c = s' - 1") auto
    then have "s' - 1 \<le> s \<and> (\<forall>c. s' - 1 \<le> c \<and> c < s \<longrightarrow> free_in b T c)" using s'(1) by auto
    then have "s' \<le> s' - 1" unfolding s'_def by (rule Least_le)
    with a show False by (cases s') auto
  qed
  define e where "e = (LEAST x. s \<le> x \<and> \<not> free_in b T x)"
  have "s \<le> max s T \<and> \<not> free_in b T (max s T)" by (simp add: free_in_def)
  then have "s \<le> e \<and> \<not> free_in b T e" unfolding e_def by (rule LeastI)
  then have e: "s \<le> e" "\<not> free_in b T e" by simp_all
  have in_e: "free_in b T c" if "s \<le> c" "c < e" for c
    using not_less_Least [of c "\<lambda>x. s \<le> x \<and> \<not> free_in b T x", folded e_def] that by simp
  have long: "s + n \<le> e" using e assms(1) free_run_hits [of b T s n e] by (cases "e < s + n") auto
  have "free_in b T c" if "s' \<le> c" "c < e" for c
    using s'(2) [of c] in_e [of c] that by (cases "c < s") auto
  then have "max_run b T s' (e - s')"
    using left e s'(1) long assms(2) by (auto simp: max_run_def free_run_def)
  with long s'(1) show ?thesis by (intro exI [of _ s'] exI [of _ "e - s'"]) simp
qed

lemma find_best_fit_spec:
  assumes "cached_bitmap self = Some b"
  shows "\<exists>best. find_best_fit n self = Ok (map_option (\<lambda>r. ClusterRun_new (start_cluster r) n) best)
     \<and> is_best (candidates b (unat (bm_total_clusters self)) (unat n) (unat (bm_total_clusters self))) best"
proof -
  let ?T = "unat (bm_total_clusters self)"
  let ?best = "best_fit_loop b n (u64_range 0 (bm_total_clusters self)) None None 0"
  have "is_best (candidates b ?T (unat n) 0) None" by (simp add: is_best_def candidates_def)
  with unat_bound [of "bm_total_clusters self"]
  have "is_best (candidates b ?T (unat n) ?T) (best_fit_loop b n (map of_nat [0..<?T]) None (cur 0 0) (of_nat 0))"
    by (intro best_fit_loop_spec [of 0 ?T 0 0]) (simp_all add: free_run_def)
  then have "is_best (candidates b ?T (unat n) ?T) ?best" by (simp add: u64_range_def cur_def)
  moreover have "find_best_fit n self = Ok (map_option (\<lambda>r. ClusterRun_new (start_cluster r) n) ?best)"
    using assms by (simp add: find_best_fit_def split: option.split)
  ultimately show ?thesis by blast
qed

interpretation bf: fit_strategy find_best_fit
proof unfold_locales
  fix self :: ClusterBitmap and b n r s
  assume b: "cached_bitmap self = Some b" and n: "0 < (n :: u64)"
  let ?T = "unat (bm_total_clusters self)"
  from find_best_fit_spec [OF b, of n] obtain best where
    best: "find_best_fit n self = Ok (map_option (\<lambda>r. ClusterRun_new (start_cluster r) n) best)"
    "is_best (candidates b ?T (unat n) ?T) best" by blast
  show "cluster_count r = n \<and> free_run b ?T (unat (start_cluster r)) (unat n)"
    if "find_best_fit n self = Ok (Some r)"
  proof -
    from best that obtain q where "best = Some q" "r = ClusterRun_new (start_cluster q) n"
      by (cases best) auto
    with best(2) free_run_le [of b ?T "unat (start_cluster q)" "unat (cluster_count q)" "unat n"]
    show ?thesis by (simp add: is_best_def candidates_def max_run_def ClusterRun_new_def)
  qed
  show "\<not> free_run b ?T s (unat n)" if "find_best_fit n self = Ok None"
  proof
    assume "free_run b ?T s (unat n)"
    then obtain s' n' where m: "max_run b ?T s' n'" "unat n \<le> n'"
      using free_run_extends [of b ?T s "unat n"] n by (auto simp: word_less_nat_alt)
    then have "s' < ?T" by (auto simp: max_run_def free_run_def free_in_def)
    with m best that show False by (auto simp: is_best_def candidates_def)
  qed
qed (simp add: find_best_fit_def split: option.split)


section \<open>Marking clusters\<close>

definition mark :: "nat \<Rightarrow> bytes \<Rightarrow> bytes" where
  "mark c b = b[c div 8 := b ! (c div 8) OR push_bit (c mod 8) 1]"

definition unmark :: "nat \<Rightarrow> bytes \<Rightarrow> bytes" where
  "unmark c b = b[c div 8 := b ! (c div 8) AND NOT (push_bit (c mod 8) 1)]"

lemma length_mark [simp]: "length (mark c b) = length b" "length (unmark c b) = length b"
  by (simp_all add: mark_def unmark_def)

lemma free_in_less: "free_in b T x \<Longrightarrow> x < T"
  by (simp add: free_in_def)

lemma div_mod_8_eq: "x = c \<longleftrightarrow> x div 8 = c div 8 \<and> x mod 8 = c mod (8 :: nat)"
  by (metis div_mult_mod_eq)

lemma free_in_mark: "c div 8 < length b \<Longrightarrow> free_in (mark c b) T x \<longleftrightarrow> free_in b T x \<and> x \<noteq> c"
  by (auto simp: free_in_def mark_def nth_list_update bit_or_iff bit_push_bit_iff bit_1_iff bit_exp_iff
      div_mod_8_eq [of x c])

lemma free_in_unmark:
  "c div 8 < length b \<Longrightarrow> free_in (unmark c b) T x \<longleftrightarrow> x < T \<and> (free_in b T x \<or> x = c)"
  by (auto simp: free_in_def unmark_def nth_list_update bit_and_iff bit_not_iff bit_push_bit_iff
      bit_1_iff bit_exp_iff div_mod_8_eq [of x c])

lemma free_in_fold_mark:
  "(\<And>c. c \<in> set cs \<Longrightarrow> c div 8 < length b) \<Longrightarrow>
     free_in (fold mark cs b) T x \<longleftrightarrow> free_in b T x \<and> x \<notin> set cs"
  by (induction cs arbitrary: b) (auto simp: free_in_mark)

lemma free_in_fold_unmark:
  "(\<And>c. c \<in> set cs \<Longrightarrow> c div 8 < length b) \<Longrightarrow>
     free_in (fold unmark cs b) T x \<longleftrightarrow> x < T \<and> (free_in b T x \<or> x \<in> set cs)"
  by (induction cs arbitrary: b) (auto simp: free_in_unmark dest: free_in_less)

lemma length_fold_mark [simp]:
  "length (fold mark cs b) = length b" "length (fold unmark cs b) = length b"
  by (induction cs arbitrary: b) simp_all

text \<open>With the bitmap in the cache, a mark is a pure update of the object.\<close>

lemma load_bitmap_cached [simp]:
  "cached_bitmap s = Some b \<Longrightarrow> load_bitmap B (s, w) = (Ok (), (s, w))"
  by (simp add: load_bitmap_def bnd_def gets_def)

lemma gets_apply [simp]: "gets f (s, w) = (Ok (f s), (s, w))"
  by (simp add: gets_def)

lemma set_cluster_loads:
  assumes "c < T"
  shows "\<exists>F. \<forall>s w. bm_total_clusters s = T \<longrightarrow>
     (if free then set_cluster_free B c else set_cluster_used B c) (s, w) = bnd (load_bitmap B) F (s, w)"
proof -
  have "\<not> T \<le> c" using assms by simp
  then have "\<exists>F. \<forall>s w. bm_total_clusters s = T \<longrightarrow> set_cluster_free B c (s, w) = bnd (load_bitmap B) F (s, w)"
    and "\<exists>F. \<forall>s w. bm_total_clusters s = T \<longrightarrow> set_cluster_used B c (s, w) = bnd (load_bitmap B) F (s, w)"
    unfolding set_cluster_free_def set_cluster_used_def by (intro exI allI impI, simp)+
  then show ?thesis by (cases free) simp_all
qed

lemma set_cluster_used_cached:
  assumes "cached_bitmap s = Some b" and "c < bm_total_clusters s" and "unat c div 8 < length b"
  shows "set_cluster_used B c (s, w) =
     (Ok (), (s\<lparr>cached_bitmap := Some (mark (unat c) b), bm_dirty := True\<rparr>, w))"
  using assms by (simp add: set_cluster_used_def bnd_def gets_def modify_def mark_def unat_div unat_mod
      Let_def not_le)

lemma set_cluster_free_cached:
  assumes "cached_bitmap s = Some b" and "c < bm_total_clusters s" and "unat c div 8 < length b"
  shows "set_cluster_free B c (s, w) =
     (Ok (), (s\<lparr>cached_bitmap := Some (unmark (unat c) b), bm_dirty := True\<rparr>, w))"
  using assms by (simp add: set_cluster_free_def bnd_def gets_def modify_def unmark_def unat_div unat_mod
      Let_def not_le)

lemma is_cluster_free_cached:
  assumes "cached_bitmap s = Some b"
  shows "is_cluster_free B c (s, w) = (Ok (free_in b (unat (bm_total_clusters s)) (unat c)), (s, w))"
  using assms
  by (auto simp: is_cluster_free_def bnd_def gets_def free_in_def bit_clear_iff unat_div
      word_le_nat_alt not_le)

lemma for_each_marks:
  assumes "\<And>s b c. cached_bitmap s = Some b \<Longrightarrow> c < bm_total_clusters s \<Longrightarrow> unat c div 8 < length b \<Longrightarrow>
      f c (s, w) = (Ok (), (s\<lparr>cached_bitmap := Some (g (unat c) b), bm_dirty := True\<rparr>, w))"
    and len: "\<And>c b. length (g c b) = length b"
    and "cached_bitmap s = Some b"
    and "\<forall>c\<in>set cs. c < bm_total_clusters s \<and> unat c div 8 < length b"
  shows "for_each f cs (s, w) = (Ok (), (s\<lparr>cached_bitmap := Some (fold g (map unat cs) b),
           bm_dirty := (cs \<noteq> [] \<or> bm_dirty s)\<rparr>, w))"
  using assms(3,4)
proof (induction cs arbitrary: s b)
  case Nil
  then show ?case by simp
next
  case (Cons c cs)
  let ?s = "s\<lparr>cached_bitmap := Some (g (unat c) b), bm_dirty := True\<rparr>"
  have "f c (s, w) = (Ok (), (?s, w))" using Cons.prems by (intro assms(1)) simp_all
  moreover have "for_each f cs (?s, w) = (Ok (), (?s\<lparr>cached_bitmap := Some (fold g (map unat cs) (g (unat c) b)),
           bm_dirty := (cs \<noteq> [] \<or> bm_dirty ?s)\<rparr>, w))"
    using Cons.prems by (intro Cons.IH) (simp_all add: len)
  ultimately show ?case by simp
qed

lemma map_unat_range:
  "b \<le> 2 ^ 64 \<Longrightarrow> map unat (map (of_nat :: nat \<Rightarrow> u64) [a..<b]) = [a..<b]"
  by (rule nth_equalityI) (simp_all add: unat_of_nat del: of_nat_add)

lemma u64_range_run:
  assumes "wf_run r"
  shows "map unat (u64_range (start_cluster r) (start_cluster r + cluster_count r))
       = [unat (start_cluster r)..<run_end r]"
    and "add_ck (start_cluster r) (cluster_count r) = (Ok (start_cluster r + cluster_count r) :: (fs_error, u64) res)"
proof -
  have "unat (start_cluster r + cluster_count r) = run_end r"
    using assms by (simp add: wf_run_def run_end_def unat_add_no_wrap)
  then show "map unat (u64_range (start_cluster r) (start_cluster r + cluster_count r))
       = [unat (start_cluster r)..<run_end r]"
    using assms unfolding u64_range_def wf_run_def by (simp only: map_unat_range less_imp_le)
  show "add_ck (start_cluster r) (cluster_count r) = (Ok (start_cluster r + cluster_count r) :: (fs_error, u64) res)"
    using assms by (simp add: wf_run_def run_end_def add_ck_def)
qed

lemma u64_range_nonempty: "wf_run r \<Longrightarrow> u64_range (start_cluster r) (start_cluster r + cluster_count r) \<noteq> []"
  using u64_range_run(1) [of r] start_less_end [of r] by (auto simp: upt_conv_Cons)

lemma in_u64_range_run:
  assumes "wf_run r" and "c \<in> set (u64_range (start_cluster r) (start_cluster r + cluster_count r))"
  shows "unat c \<in> run_set r"
proof -
  from assms(2) have "unat c \<in> set (map unat (u64_range (start_cluster r) (start_cluster r + cluster_count r)))"
    by simp
  then show ?thesis unfolding u64_range_run(1) [OF assms(1)] by (simp add: run_set_def)
qed

lemma mark_run_cached:
  assumes "cached_bitmap s = Some b" and "wf_run r" and "run_end r \<le> unat (bm_total_clusters s)"
    and "run_end r \<le> 8 * length b"
  shows "mark_run_used B r (s, w) = (Ok (), (s\<lparr>cached_bitmap :=
           Some (fold mark [unat (start_cluster r)..<run_end r] b), bm_dirty := True\<rparr>, w))"
    and "mark_run_free B r (s, w) = (Ok (), (s\<lparr>cached_bitmap :=
           Some (fold unmark [unat (start_cluster r)..<run_end r] b), bm_dirty := True\<rparr>, w))"
proof -
  let ?cs = "u64_range (start_cluster r) (start_cluster r + cluster_count r)"
  have in_bounds: "\<forall>c\<in>set ?cs. c < bm_total_clusters s \<and> unat c div 8 < length b"
    using assms(3,4) in_u64_range_run [OF assms(2)]
    by (fastforce simp: run_set_def word_less_nat_alt)
  note range = u64_range_run [OF assms(2)] u64_range_nonempty [OF assms(2)]
  show "mark_run_used B r (s, w) = (Ok (), (s\<lparr>cached_bitmap :=
           Some (fold mark [unat (start_cluster r)..<run_end r] b), bm_dirty := True\<rparr>, w))"
    using for_each_marks [of "set_cluster_used B" w mark, OF set_cluster_used_cached _ assms(1) in_bounds]
    by (simp add: mark_run_used_def range)
  show "mark_run_free B r (s, w) = (Ok (), (s\<lparr>cached_bitmap :=
           Some (fold unmark [unat (start_cluster r)..<run_end r] b), bm_dirty := True\<rparr>, w))"
    using for_each_marks [of "set_cluster_free B" w unmark, OF set_cluster_free_cached _ assms(1) in_bounds]
    by (simp add: mark_run_free_def range)
qed


section \<open>Loading and flushing\<close>

text \<open>
  \<open>bm_wf\<close>: the bitmap region lies in the LBA28 space and is short enough for one driver call; the
  region has a bit for every cluster, and so has the cache. \<open>bm_view\<close> is the bitmap a reader sees.
\<close>

definition bm_wf :: "ClusterBitmap \<Rightarrow> bool" where
  "bm_wf s \<longleftrightarrow> 0 < bitmap_size_sectors s \<and> bitmap_size_sectors s < 256
     \<and> unat (bitmap_start_sector s) + unat (bitmap_size_sectors s) \<le> 2 ^ 28
     \<and> unat (bm_total_clusters s) \<le> 8 * (unat (bitmap_size_sectors s) * 512)
     \<and> (\<forall>b. cached_bitmap s = Some b \<longrightarrow> length b = unat (bitmap_size_sectors s) * 512)"

definition bm_disk :: "('v \<Rightarrow> u8 \<Rightarrow> store) \<Rightarrow> ClusterBitmap \<Rightarrow> 'v \<Rightarrow> bytes" where
  "bm_disk sec s v =
     read_sectors (sec v (bm_drive s)) (unat (bitmap_start_sector s)) (unat (bitmap_size_sectors s))"

definition bm_view :: "('v \<Rightarrow> u8 \<Rightarrow> store) \<Rightarrow> ClusterBitmap \<Rightarrow> 'v \<Rightarrow> bytes" where
  "bm_view sec s v = (case cached_bitmap s of Some b \<Rightarrow> b | None \<Rightarrow> bm_disk sec s v)"

definition bm_loaded :: "ClusterBitmap \<Rightarrow> bytes \<Rightarrow> ClusterBitmap" where
  "bm_loaded s b = (case cached_bitmap s of
     None \<Rightarrow> s\<lparr>cached_bitmap := Some b, bm_dirty := False\<rparr> | Some _ \<Rightarrow> s)"

lemma bm_loaded_simps [simp]:
  "bm_drive (bm_loaded s b) = bm_drive s"
  "bitmap_start_sector (bm_loaded s b) = bitmap_start_sector s"
  "bitmap_size_sectors (bm_loaded s b) = bitmap_size_sectors s"
  "bm_total_clusters (bm_loaded s b) = bm_total_clusters s"
  by (simp_all add: bm_loaded_def split: option.splits)

lemma bm_loaded_cached [simp]: "cached_bitmap (bm_loaded s (bm_view sec s v)) = Some (bm_view sec s v)"
  by (simp add: bm_loaded_def bm_view_def split: option.splits)

lemma read_sectors_add: "read_sectors f lba (m + n) = read_sectors f lba m @ read_sectors f (lba + m) n"
  using upt_add_eq_append [of lba "lba + m" n] by (simp add: read_sectors_def add.assoc)

context block_device
begin

lemma length_bm_disk [simp]: "length (bm_disk sec s v) = unat (bitmap_size_sectors s) * 512"
  using sec_sectored by (simp add: bm_disk_def)

lemma length_bm_view: "bm_wf s \<Longrightarrow> length (bm_view sec s v) = unat (bitmap_size_sectors s) * 512"
  by (auto simp: bm_view_def bm_wf_def split: option.splits)

lemma wp_load_chunks:
  assumes "ready (dev w) d" and "unat start + unat sz \<le> 2 ^ 28" and "unat rd \<le> unat sz"
    and "\<And>v. sec v = sec (dev w) \<Longrightarrow> ready v = ready (dev w) \<Longrightarrow>
      Q (Ok (acc @ read_sectors (sec (dev w) d) (unat start + unat rd) (unat sz - unat rd))) (w\<lparr>dev := v\<rparr>)"
  shows "wp (load_chunks B d start sz rd acc) w Q"
  using assms
proof (induction "unat sz - unat rd" arbitrary: rd acc w rule: less_induct)
  case less
  show ?case
  proof (cases "rd < sz")
    case False
    then have "unat sz - unat rd = 0" by (simp add: word_less_nat_alt)
    with False less.prems(4) [of "dev w"] show ?thesis
      by (subst load_chunks.simps) (simp add: wp_simps)
  next
    case True
    define n :: u64 where "n = min 2 (sz - rd)"
    note step = unat_chunk_step [OF True, folded n_def]
    have lt: "unat rd < unat sz" using True by (simp add: word_less_nat_alt)
    have n: "0 < unat n" "unat n \<le> 2" "unat rd + unat n \<le> unat sz" using step(2) lt by auto
    have s: "unat (start + rd) = unat start + unat rd"
      "unat start + unat rd < 2 ^ 32"
      using less.prems(2) lt by (simp_all add: unat_add_no_wrap)
    have u: "unat (as_u8 n) = unat n" "unat (as_u32 (start + rd)) = unat start + unat rd"
      "unat (n * 512) = unat n * 512"
      using n(2) s by (simp_all add: ucast_small unat_mult_no_wrap)
    have "wp (dread B d (as_u8 n) (as_u32 (start + rd)) (replicate (unat (n * 512)) 0)) w
        (\<lambda>r w'. case r of Ok chunk \<Rightarrow> wp (load_chunks B d start sz (rd + n) (acc @ chunk)) w' Q
           | Err e \<Rightarrow> Q (Err e) w' | Panic \<Rightarrow> Q Panic w')"
    proof (rule wp_dread)
      fix v assume v: "sec v = sec (dev w)" "ready v = ready (dev w)"
      have nn: "unat (rd + n) = unat rd + unat n" using step by simp
      have "unat sz - unat rd = unat n + (unat sz - unat (rd + n))" using n(3) nn by simp
      then have "read_sectors (sec (dev w) d) (unat start + unat rd) (unat sz - unat rd)
          = read_sectors (sec (dev w) d) (unat start + unat rd) (unat n)
            @ read_sectors (sec (dev w) d) (unat start + unat rd + unat n) (unat sz - unat (rd + n))"
        by (simp only: read_sectors_add)
      then have "wp (load_chunks B d start sz (rd + n)
            (acc @ read_sectors (sec (dev w) d) (unat start + unat rd) (unat n))) (w\<lparr>dev := v\<rparr>) Q"
        using less.prems v n nn by (intro less.hyps) (simp_all add: add.assoc)
      then show "case Ok (read_sectors (sec (dev w) d) (unat (as_u32 (start + rd))) (unat (as_u8 n)) @
            drop (unat (as_u8 n) * 512) (replicate (unat (n * 512)) 0)) of
          Ok chunk \<Rightarrow> wp (load_chunks B d start sz (rd + n) (acc @ chunk)) (w\<lparr>dev := v\<rparr>) Q
        | Err e \<Rightarrow> Q (Err e) (w\<lparr>dev := v\<rparr>) | Panic \<Rightarrow> Q Panic (w\<lparr>dev := v\<rparr>)"
        by (simp add: u)
    qed (use less.prems(1,2) n u in \<open>simp_all add: word_less_nat_alt\<close>)
    moreover have "add_ck start rd = (Ok (start + rd) :: (fs_error, u64) res)"
      using s by (simp add: add_ck_def)
    ultimately show ?thesis
      using True by (subst load_chunks.simps) (simp add: wp_simps flip: n_def)
  qed
qed

lemma wp_load_bitmap:
  assumes "bm_wf s" and "ready (dev w) (bm_drive s)"
    and "\<And>v. sec v = sec (dev w) \<Longrightarrow> ready v = ready (dev w) \<Longrightarrow>
      Q (Ok ()) (bm_loaded s (bm_view sec s (dev w)), w\<lparr>dev := v\<rparr>)"
  shows "wp (load_bitmap B) (s, w) Q"
proof (cases "cached_bitmap s")
  case None
  then have "wp (load_chunks B (bm_drive s) (bitmap_start_sector s) (bitmap_size_sectors s) 0 []) w
      (\<lambda>r w'. case r of Ok b \<Rightarrow> Q (Ok ()) (s\<lparr>cached_bitmap := Some b, bm_dirty := False\<rparr>, w')
         | Err e \<Rightarrow> Q (Err e) (s, w') | Panic \<Rightarrow> Q Panic (s, w'))"
    using assms by (intro wp_load_chunks) (simp_all add: bm_wf_def bm_loaded_def bm_view_def bm_disk_def)
  with None show ?thesis by (simp add: load_bitmap_def wp_simps cong: res.case_cong)
next
  case (Some b)
  then show ?thesis using assms(3) [of "dev w"] by (simp add: wp_def bm_loaded_def)
qed

lemma wp_flush_bitmap:
  assumes "bm_wf s" and "ready (dev w) (bm_drive s)" and "bm_dirty s" and "cached_bitmap s = Some b"
    and "\<And>v. ready v = ready (dev w) \<Longrightarrow> sec v = (sec (dev w))(bm_drive s :=
         write_sectors (sec (dev w) (bm_drive s)) (unat (bitmap_start_sector s)) (unat (bitmap_size_sectors s)) b)
      \<Longrightarrow> bm_disk sec s v = b \<Longrightarrow> Q (Ok ()) (s\<lparr>bm_dirty := False\<rparr>, w\<lparr>dev := v\<rparr>)"
  shows "wp (flush_bitmap B) (s, w) Q"
proof -
  from assms(1,4) have sz: "unat (bitmap_size_sectors s) < 256" "0 < unat (bitmap_size_sectors s)"
      "unat (bitmap_start_sector s) + unat (bitmap_size_sectors s) \<le> 2 ^ 28"
      "length b = unat (bitmap_size_sectors s) * 512"
    by (auto simp: bm_wf_def word_less_nat_alt)
  then have u: "unat (as_u8 (bitmap_size_sectors s)) = unat (bitmap_size_sectors s)"
    "unat (as_u32 (bitmap_start_sector s)) = unat (bitmap_start_sector s)"
    by (simp_all add: ucast_small)
  have "wp (dwrite B (bm_drive s) (as_u8 (bitmap_size_sectors s)) (as_u32 (bitmap_start_sector s)) b) w
      (\<lambda>r w'. case r of Ok x \<Rightarrow> Q (Ok ()) (s\<lparr>bm_dirty := False\<rparr>, w')
         | Err e \<Rightarrow> Q (Err e) (s, w') | Panic \<Rightarrow> Q Panic (s, w'))"
  proof (rule wp_dwrite)
    fix v
    assume "sec v = (sec (dev w))(bm_drive s := write_sectors (sec (dev w) (bm_drive s))
        (unat (as_u32 (bitmap_start_sector s))) (unat (as_u8 (bitmap_size_sectors s))) b)"
      and "ready v = ready (dev w)"
    then show "case Ok () of Ok x \<Rightarrow> Q (Ok ()) (s\<lparr>bm_dirty := False\<rparr>, w\<lparr>dev := v\<rparr>)
         | Err e \<Rightarrow> Q (Err e) (s, w\<lparr>dev := v\<rparr>) | Panic \<Rightarrow> Q Panic (s, w\<lparr>dev := v\<rparr>)"
      using sz assms(5) by (simp add: u bm_disk_def read_write_sectors_same)
  qed (use assms(2) sz u in \<open>simp_all add: word_less_nat_alt\<close>)
  with assms(3,4) show ?thesis by (simp add: flush_bitmap_def wp_simps cong: res.case_cong)
qed

lemma wp_set_cluster_load:
  assumes "bm_wf s" and "ready (dev w) (bm_drive s)" and "c < bm_total_clusters s"
    and "\<And>v. sec v = sec (dev w) \<Longrightarrow> ready v = ready (dev w) \<Longrightarrow>
      wp (if free then set_cluster_free B c else set_cluster_used B c)
        (bm_loaded s (bm_view sec s (dev w)), w\<lparr>dev := v\<rparr>) Q"
  shows "wp (if free then set_cluster_free B c else set_cluster_used B c) (s, w) Q"
proof -
  obtain F where F: "\<And>s' w'. bm_total_clusters s' = bm_total_clusters s \<Longrightarrow>
      (if free then set_cluster_free B c else set_cluster_used B c) (s', w') = bnd (load_bitmap B) F (s', w')"
    using set_cluster_loads [OF assms(3)] by blast
  show ?thesis
    unfolding wp_def F [OF refl] unfolding wp_def [symmetric] wp_bnd
  proof (rule wp_load_bitmap [OF assms(1,2)], simp)
    fix v assume "sec v = sec (dev w)" "ready v = ready (dev w)"
    from assms(4) [OF this]
    show "wp (F ()) (bm_loaded s (bm_view sec s (dev w)), w\<lparr>dev := v\<rparr>) Q"
      unfolding wp_def F [OF bm_loaded_simps(4)] by simp
  qed
qed

lemmas wp_set_cluster_free_load = wp_set_cluster_load [where free = True, simplified]
lemmas wp_set_cluster_used_load = wp_set_cluster_load [where free = False, simplified]

lemma wp_for_each_load:
  assumes "cs \<noteq> []"
    and step: "\<And>c Q. c \<in> set cs \<Longrightarrow> wp (f c) (s', w') Q \<Longrightarrow> wp (f c) (s, w) Q"
    and "wp (for_each f cs) (s', w') Q"
  shows "wp (for_each f cs) (s, w) Q"
proof -
  from assms(1) obtain c cs' where "cs = c # cs'" by (cases cs) auto
  with assms(3) step [of c] show ?thesis by (simp add: wp_bnd)
qed

lemma wp_mark_run:
  assumes "bm_wf s" and "ready (dev w) (bm_drive s)" and "wf_run r"
    and "run_end r \<le> unat (bm_total_clusters s)"
    and "\<And>v. sec v = sec (dev w) \<Longrightarrow> ready v = ready (dev w) \<Longrightarrow>
      Q (Ok ()) ((bm_loaded s (bm_view sec s (dev w)))\<lparr>cached_bitmap :=
         Some (fold (if free then unmark else mark) [unat (start_cluster r)..<run_end r] (bm_view sec s (dev w))),
         bm_dirty := True\<rparr>, w\<lparr>dev := v\<rparr>)"
  shows "wp (if free then mark_run_free B r else mark_run_used B r) (s, w) Q"
proof -
  let ?cs = "u64_range (start_cluster r) (start_cluster r + cluster_count r)"
  let ?f = "\<lambda>c. if free then set_cluster_free B c else set_cluster_used B c"
  have run: "(if free then mark_run_free B r else mark_run_used B r) = for_each ?f ?cs"
    using u64_range_run(2) [OF assms(3)]
    by (auto simp: mark_run_free_def mark_run_used_def fun_eq_iff)
  have len: "run_end r \<le> 8 * length (bm_view sec s (dev w))"
    using assms(1,4) length_bm_view [OF assms(1)] by (simp add: bm_wf_def)
  define P where "P = (\<lambda>v. sec v = sec (dev w) \<and> ready v = ready (dev w))"
  have marked: "wp (for_each ?f ?cs) (bm_loaded s (bm_view sec s (dev w)), w\<lparr>dev := v\<rparr>) Q" if "P v" for v
    using mark_run_cached [of "bm_loaded s (bm_view sec s (dev w))" "bm_view sec s (dev w)" r B "w\<lparr>dev := v\<rparr>"]
      assms(3-5) that len unfolding run [symmetric]
    by (cases free) (simp_all add: wp_def P_def)
  have c0: "start_cluster r < bm_total_clusters s"
    using assms(3,4) start_less_end [of r] by (simp add: word_less_nat_alt)
  obtain cs' where cs: "?cs = start_cluster r # cs'"
  proof -
    have "unat (start_cluster r) < unat (start_cluster r + cluster_count r)"
      using assms(3) start_less_end [OF assms(3)]
      by (simp add: wf_run_def run_end_def unat_add_no_wrap)
    then show thesis by (intro that) (simp add: u64_range_def upt_conv_Cons)
  qed
  have "wp (?f (start_cluster r)) (s, w) (\<lambda>ra w'. case ra of Ok x \<Rightarrow> wp (for_each ?f cs') w' Q
      | Err e \<Rightarrow> Q (Err e) w' | Panic \<Rightarrow> Q Panic w')"
    using marked unfolding cs
    by (intro wp_set_cluster_load [OF assms(1,2) c0]) (simp add: wp_bnd P_def)
  then show ?thesis unfolding run cs by (simp add: wp_bnd)
qed

lemmas wp_mark_run_free = wp_mark_run [where free = True, simplified]
lemmas wp_mark_run_used = wp_mark_run [where free = False, simplified]

lemma wp_is_cluster_free:
  assumes "bm_wf s" and "ready (dev w) (bm_drive s)"
    and "\<And>s' v. s' = s \<or> s' = bm_loaded s (bm_view sec s (dev w)) \<Longrightarrow> sec v = sec (dev w) \<Longrightarrow> ready v = ready (dev w)
      \<Longrightarrow> Q (Ok (free_in (bm_view sec s (dev w)) (unat (bm_total_clusters s)) (unat c))) (s', w\<lparr>dev := v\<rparr>)"
  shows "wp (is_cluster_free B c) (s, w) Q"
proof (cases "bm_total_clusters s \<le> c")
  case True
  then have "\<not> free_in (bm_view sec s (dev w)) (unat (bm_total_clusters s)) (unat c)"
    by (simp add: free_in_def word_le_nat_alt)
  with True assms(3) [of s "dev w"] show ?thesis
    by (simp add: is_cluster_free_def wp_bnd wp_gets wp_ret)
next
  case False
  let ?s1 = "bm_loaded s (bm_view sec s (dev w))"
  define F where "F = (\<lambda>_ :: unit. bnd (gets cached_bitmap) (\<lambda>cb. case cb of
      Some bitmap \<Rightarrow> if unat (c div 8) < length bitmap then ret (bit_clear bitmap c) else ret False
    | None \<Rightarrow> (fail InvalidParameter :: (ClusterBitmap, 'v, bool) meth)))"
  have F: "wp (is_cluster_free B c) (s', w') Q \<longleftrightarrow> wp (bnd (load_bitmap B) F) (s', w') Q"
    if "bm_total_clusters s' = bm_total_clusters s" for s' and w' :: "'v world"
    using that False by (simp add: is_cluster_free_def F_def wp_bnd wp_gets)
  show ?thesis
    unfolding F [OF refl] wp_bnd
  proof (rule wp_load_bitmap [OF assms(1,2)], simp)
    fix v assume "sec v = sec (dev w)" "ready v = ready (dev w)"
    then have "wp (is_cluster_free B c) (?s1, w\<lparr>dev := v\<rparr>) Q"
      using assms(3) [of ?s1 v] by (simp add: wp_def is_cluster_free_cached)
    then show "wp (F ()) (?s1, w\<lparr>dev := v\<rparr>) Q"
      unfolding F [OF bm_loaded_simps(4)] by (simp add: wp_def)
  qed
qed

text \<open>A flush writes the cache if it is newer than the disk, and changes no view.\<close>

lemma wp_flush_any:
  assumes "bm_wf s" and "ready (dev w) (bm_drive s)"
    and "\<And>v d. ready v = ready (dev w) \<Longrightarrow> bm_view sec (s\<lparr>bm_dirty := d\<rparr>) v = bm_view sec s (dev w)
      \<Longrightarrow> (d \<longrightarrow> cached_bitmap s = None) \<Longrightarrow> Q (Ok ()) (s\<lparr>bm_dirty := d\<rparr>, w\<lparr>dev := v\<rparr>)"
  shows "wp (flush_bitmap B) (s, w) Q"
proof (cases "bm_dirty s \<and> cached_bitmap s \<noteq> None")
  case True
  then obtain b where "cached_bitmap s = Some b" "bm_dirty s" by auto
  then show ?thesis
    using assms by (intro wp_flush_bitmap) (auto simp: bm_view_def)
next
  case False
  then have "flush_bitmap B (s, w) = (Ok (), (s, w))"
    by (auto simp: flush_bitmap_def gets_def bnd_def)
  moreover have "s\<lparr>bm_dirty := bm_dirty s\<rparr> = s" by simp
  ultimately show ?thesis
    using False assms(3) [of "dev w" "bm_dirty s"] by (auto simp: wp_def)
qed

lemma wp_mark_flush:
  assumes "bm_wf s" and "ready (dev w) (bm_drive s)" and "c < bm_total_clusters s"
    and "\<And>s' v. ready v = ready (dev w) \<Longrightarrow> bm_disk sec s v = mark (unat c) (bm_view sec s (dev w))
      \<Longrightarrow> Q (Ok ()) (s', w\<lparr>dev := v\<rparr>)"
  shows "wp (bnd (set_cluster_used B c) (\<lambda>_. flush_bitmap B)) (s, w) Q"
proof -
  let ?b = "bm_view sec s (dev w)"
  let ?s1 = "bm_loaded s ?b"
  let ?s2 = "?s1\<lparr>cached_bitmap := Some (mark (unat c) ?b), bm_dirty := True\<rparr>"
  have small: "unat c div 8 < length ?b"
    using assms(1,3) length_bm_view [OF assms(1)]
    by (auto simp: bm_wf_def word_less_nat_alt less_mult_imp_div_less)
  have wf2: "bm_wf ?s2" using assms(1) length_bm_view [OF assms(1)] by (auto simp: bm_wf_def)
  have region: "bm_disk sec ?s2 v = bm_disk sec s v" for v by (simp add: bm_disk_def)
  have flush: "wp (flush_bitmap B) (?s2, w\<lparr>dev := v\<rparr>) Q" if "ready v = ready (dev w)" for v
    by (rule wp_flush_bitmap [OF wf2]) (use assms(2,4) that region in simp_all)
  show ?thesis
    unfolding wp_bnd
  proof (rule wp_set_cluster_used_load [OF assms(1-3)])
    fix v assume "ready v = ready (dev w)"
    with flush set_cluster_used_cached [of ?s1 ?b c B "w\<lparr>dev := v\<rparr>"] small assms(3)
    show "wp (set_cluster_used B c) (?s1, w\<lparr>dev := v\<rparr>) (\<lambda>r w'. case r of
        Ok x \<Rightarrow> wp (flush_bitmap B) w' Q | Err e \<Rightarrow> Q (Err e) w' | Panic \<Rightarrow> Q Panic w')"
      by (simp add: wp_eq [of "set_cluster_used B c"])
  qed
qed

end


section \<open>Properties\<close>

text \<open>
  C23: first fit returns the lowest run of free clusters of the requested length inside the volume,
  and returns nothing only when there is none.
\<close>

theorem find_first_fit_correct:
  assumes "cached_bitmap self = Some b" and "0 < n"
  shows "\<exists>r. find_first_fit n self = Ok r \<and> (case r of
       None \<Rightarrow> \<forall>s. \<not> free_run b (unat (bm_total_clusters self)) s (unat n)
     | Some run \<Rightarrow> cluster_count run = n
         \<and> free_run b (unat (bm_total_clusters self)) (unat (start_cluster run)) (unat n)
         \<and> (\<forall>s<unat (start_cluster run). \<not> free_run b (unat (bm_total_clusters self)) s (unat n)))"
  using find_first_fit_spec [OF assms] by (auto simp: first_from_def split: option.splits)

definition gap_bitmap :: ClusterBitmap where
  "gap_bitmap = \<lparr>bm_drive = 0, bitmap_start_sector = 10, bitmap_size_sectors = 1, bm_total_clusters = 16,
     clusters_per_sector = 4096, cached_bitmap = Some [0x21, 0xF3], bm_dirty = False\<rparr>"

lemma gap_bitmap_simps:
  "cached_bitmap gap_bitmap = Some [0x21, 0xF3]" "unat (bm_total_clusters gap_bitmap) = 16"
  by (simp_all add: gap_bitmap_def)

theorem find_first_fit_correct_witness:
  "\<exists>r. find_first_fit 3 gap_bitmap = Ok r \<and> (case r of None \<Rightarrow> \<forall>s. \<not> free_run [0x21, 0xF3] 16 s 3
     | Some run \<Rightarrow> cluster_count run = 3 \<and> free_run [0x21, 0xF3] 16 (unat (start_cluster run)) 3
        \<and> (\<forall>s<unat (start_cluster run). \<not> free_run [0x21, 0xF3] 16 s 3))"
  using find_first_fit_correct [OF gap_bitmap_simps(1), of 3, unfolded gap_bitmap_simps(2)]
  by (simp cong: option.case_cong)

text \<open>
  C24: best fit starts at a maximal free run that is long enough and is shortest among all such
  runs; it returns nothing only when no free run of the requested length exists.
\<close>

theorem find_best_fit_correct:
  assumes "cached_bitmap self = Some b" and "0 < n"
  shows "\<exists>r. find_best_fit n self = Ok r \<and> (case r of
       None \<Rightarrow> \<forall>s. \<not> free_run b (unat (bm_total_clusters self)) s (unat n)
     | Some run \<Rightarrow> cluster_count run = n
         \<and> (\<exists>m\<ge>unat n. max_run b (unat (bm_total_clusters self)) (unat (start_cluster run)) m
             \<and> (\<forall>s' m'. max_run b (unat (bm_total_clusters self)) s' m' \<and> unat n \<le> m' \<longrightarrow> m \<le> m')))"
proof -
  let ?T = "unat (bm_total_clusters self)"
  from find_best_fit_spec [OF assms(1), of n] obtain best where
    best: "find_best_fit n self = Ok (map_option (\<lambda>r. ClusterRun_new (start_cluster r) n) best)"
    "is_best (candidates b ?T (unat n) ?T) best" by blast
  have inside: "s' < ?T" if "max_run b ?T s' m'" for s' m'
    using that by (auto simp: max_run_def free_run_def free_in_def)
  show ?thesis
  proof (cases best)
    case None
    with best(1) bf.fit_none [OF assms] show ?thesis by simp
  next
    case (Some q)
    have "unat n \<le> unat (cluster_count q)" "max_run b ?T (unat (start_cluster q)) (unat (cluster_count q))"
      "\<And>s' m'. max_run b ?T s' m' \<Longrightarrow> unat n \<le> m' \<Longrightarrow> unat (cluster_count q) \<le> m'"
      using best(2) Some inside by (fastforce simp: is_best_def candidates_def)+
    with best(1) Some show ?thesis by (auto simp: ClusterRun_new_def)
  qed
qed

theorem find_best_fit_correct_witness:
  "\<exists>r. find_best_fit 2 gap_bitmap = Ok r \<and> (case r of None \<Rightarrow> \<forall>s. \<not> free_run [0x21, 0xF3] 16 s 2
     | Some run \<Rightarrow> cluster_count run = 2 \<and> (\<exists>m\<ge>2. max_run [0x21, 0xF3] 16 (unat (start_cluster run)) m
          \<and> (\<forall>s' m'. max_run [0x21, 0xF3] 16 s' m' \<and> 2 \<le> m' \<longrightarrow> m \<le> m')))"
  using find_best_fit_correct [OF gap_bitmap_simps(1), of 2, unfolded gap_bitmap_simps(2)]
  by (simp cong: option.case_cong)


lemma gap_bitmap_wf: "bm_wf (gap_bitmap\<lparr>cached_bitmap := None\<rparr>)"
  by (simp add: bm_wf_def gap_bitmap_def)


end
