(* ===== verification/Allocation.thy ===== *)
theory Allocation
  imports Cluster_Bitmap
begin

text \<open>
  The third part of \<^verbatim>\<open>crates/galleon2/src/allocation.rs\<close>: the allocator that hands out clusters
  and records which file owns which runs. The invariant is ownership: a cluster recorded for a file
  is marked used in the bitmap and is recorded for no other file.
\<close>

section \<open>The allocator\<close>

record ClusterAllocator =
  al_bitmap :: ClusterBitmap
  al_strategy :: AllocationStrategy
  allocated_runs :: "u64 \<rightharpoonup> RunList"

definition ClusterAllocator_new :: "ClusterBitmap \<Rightarrow> AllocationStrategy \<Rightarrow> ClusterAllocator" where
  "ClusterAllocator_new b s = \<lparr>al_bitmap = b, al_strategy = s, allocated_runs = Map.empty\<rparr>"

definition on_bitmap :: "(ClusterBitmap, 'v, 'a) meth \<Rightarrow> (ClusterAllocator, 'v, 'a) meth" where
  "on_bitmap = zoom al_bitmap (\<lambda>b s. s\<lparr>al_bitmap := b\<rparr>)"

definition allocate_clusters :: "'v bdev \<Rightarrow> u64 \<Rightarrow> u64 \<Rightarrow> (ClusterAllocator, 'v, ClusterRun) meth" where
  "allocate_clusters B file_record_number n =
     bnd (gets al_strategy) (\<lambda>strategy.
     bnd (on_bitmap (find_free_clusters B n strategy)) (\<lambda>found. case found of
       Some run \<Rightarrow>
         bnd (on_bitmap (mark_run_used B run)) (\<lambda>_.
         bnd (gets allocated_runs) (\<lambda>m.
         bnd (lift_res (add_run run (case m file_record_number of Some rl \<Rightarrow> rl | None \<Rightarrow> RunList_new))) (\<lambda>rl.
         bnd (modify (\<lambda>s. s\<lparr>allocated_runs := m(file_record_number \<mapsto> rl)\<rparr>)) (\<lambda>_.
         bnd (on_bitmap (flush_bitmap B)) (\<lambda>_.
           ret run)))))
     | None \<Rightarrow> fail InsufficientSpace))"

definition deallocate_clusters :: "'v bdev \<Rightarrow> u64 \<Rightarrow> ClusterRun \<Rightarrow> (ClusterAllocator, 'v, unit) meth" where
  "deallocate_clusters B file_record_number run =
     bnd (on_bitmap (mark_run_free B run)) (\<lambda>_.
     bnd (gets allocated_runs) (\<lambda>m.
     bnd (case m file_record_number of
            Some rl \<Rightarrow>
              bnd (lift_res (remove_run run rl)) (\<lambda>(_, rl').
                modify (\<lambda>s. s\<lparr>allocated_runs :=
                  (if runs rl' = [] then m(file_record_number := None) else m(file_record_number \<mapsto> rl'))\<rparr>))
          | None \<Rightarrow> ret ()) (\<lambda>_.
       on_bitmap (flush_bitmap B))))"

definition deallocate_all_clusters :: "'v bdev \<Rightarrow> u64 \<Rightarrow> (ClusterAllocator, 'v, unit) meth" where
  "deallocate_all_clusters B file_record_number =
     bnd (gets allocated_runs) (\<lambda>m. case m file_record_number of
       Some rl \<Rightarrow>
         bnd (modify (\<lambda>s. s\<lparr>allocated_runs := m(file_record_number := None)\<rparr>)) (\<lambda>_.
         bnd (for_each (\<lambda>run. on_bitmap (mark_run_free B run)) (runs rl)) (\<lambda>_.
           on_bitmap (flush_bitmap B)))
     | None \<Rightarrow> ret ())"

definition get_file_runs :: "u64 \<Rightarrow> ClusterAllocator \<Rightarrow> RunList option" where
  "get_file_runs file_record_number self = allocated_runs self file_record_number"

fun can_extend :: "'v bdev \<Rightarrow> u64 list \<Rightarrow> (ClusterAllocator, 'v, bool) meth" where
  "can_extend B [] = ret True"
| "can_extend B (cluster # rest) =
     bnd (on_bitmap (is_cluster_free B cluster)) (\<lambda>free.
       if \<not> free then ret False else can_extend B rest)"

definition extend_allocation :: "'v bdev \<Rightarrow> u64 \<Rightarrow> u64 \<Rightarrow> (ClusterAllocator, 'v, ClusterRun) meth" where
  "extend_allocation B file_record_number additional_clusters =
     bnd (gets allocated_runs) (\<lambda>m.
       let fallback = allocate_clusters B file_record_number additional_clusters in
       case m file_record_number of
         None \<Rightarrow> fallback
       | Some rl \<Rightarrow>
           if runs rl = [] then fallback
           else
             bnd (lift_res (end_cluster (last (runs rl)))) (\<lambda>e.
             bnd (lift_res (add_ck e 1)) (\<lambda>next_cluster.
             bnd (lift_res (add_ck next_cluster additional_clusters)) (\<lambda>stop.
             bnd (can_extend B (u64_range next_cluster stop)) (\<lambda>ok.
               if ok then
                 let extended_run = ClusterRun_new next_cluster additional_clusters in
                 bnd (on_bitmap (mark_run_used B extended_run)) (\<lambda>_.
                 bnd (lift_res (add_run extended_run rl)) (\<lambda>rl'.
                 bnd (modify (\<lambda>s. s\<lparr>allocated_runs := m(file_record_number \<mapsto> rl')\<rparr>)) (\<lambda>_.
                 bnd (on_bitmap (flush_bitmap B)) (\<lambda>_.
                   ret extended_run))))
               else fallback)))))"

definition get_total_allocated :: "u64 \<Rightarrow> ClusterAllocator \<Rightarrow> u64" where
  "get_total_allocated file_record_number self =
     (case allocated_runs self file_record_number of Some rl \<Rightarrow> rl_total_clusters rl | None \<Rightarrow> 0)"

definition get_free_space :: "'v bdev \<Rightarrow> (ClusterAllocator, 'v, u64) meth" where
  "get_free_space B =
     bnd (on_bitmap (get_free_cluster_count B)) (\<lambda>free_clusters.
       lift_res (mul_ck free_clusters (as_u64 CLUSTER_SIZE)))"

definition defragment_file :: "'v bdev \<Rightarrow> u64 \<Rightarrow> (ClusterAllocator, 'v, unit) meth" where
  "defragment_file B file_record_number =
     bnd (gets allocated_runs) (\<lambda>m. case m file_record_number of
       Some current_runs \<Rightarrow>
         bnd (on_bitmap (find_free_clusters B (rl_total_clusters current_runs) FirstFit)) (\<lambda>found. case found of
           Some new_run \<Rightarrow>
             bnd (on_bitmap (mark_run_used B new_run)) (\<lambda>_.
             bnd (for_each (\<lambda>old_run. on_bitmap (mark_run_free B old_run)) (runs current_runs)) (\<lambda>_.
             bnd (lift_res (add_run new_run RunList_new)) (\<lambda>new_run_list.
             bnd (modify (\<lambda>s. s\<lparr>allocated_runs := m(file_record_number \<mapsto> new_run_list)\<rparr>)) (\<lambda>_.
               on_bitmap (flush_bitmap B)))))
         | None \<Rightarrow> ret ())
     | None \<Rightarrow> ret ())"

definition read_cluster :: "'v bdev \<Rightarrow> ClusterAllocator \<Rightarrow> u64 \<Rightarrow> bytes \<Rightarrow> ('v, bytes) fs" where
  "read_cluster B self cluster buffer =
     (if length buffer < unat CLUSTER_SIZE then fail InvalidParameter
      else bnd (lift_res (mul_ck cluster (as_u64 SECTORS_PER_CLUSTER))) (\<lambda>sector_start.
             dread B (bm_drive (al_bitmap self)) (as_u8 SECTORS_PER_CLUSTER) (as_u32 sector_start) buffer))"

definition write_cluster :: "'v bdev \<Rightarrow> ClusterAllocator \<Rightarrow> u64 \<Rightarrow> bytes \<Rightarrow> ('v, unit) fs" where
  "write_cluster B self cluster buffer =
     (if length buffer < unat CLUSTER_SIZE then fail InvalidParameter
      else bnd (lift_res (mul_ck cluster (as_u64 SECTORS_PER_CLUSTER))) (\<lambda>sector_start.
             dwrite B (bm_drive (al_bitmap self)) (as_u8 SECTORS_PER_CLUSTER) (as_u32 sector_start) buffer))"


section \<open>Ownership\<close>

definition owned :: "(u64 \<rightharpoonup> RunList) \<Rightarrow> u64 \<Rightarrow> nat set" where
  "owned m f = (case m f of Some rl \<Rightarrow> clusters (runs rl) | None \<Rightarrow> {})"

definition own_inv :: "(u64 \<rightharpoonup> RunList) \<Rightarrow> bytes \<Rightarrow> nat \<Rightarrow> bool" where
  "own_inv m b T \<longleftrightarrow> (\<forall>f rl. m f = Some rl \<longrightarrow> rl_inv rl \<and> runs rl \<noteq> [])
     \<and> (\<forall>f. \<forall>c\<in>owned m f. c < T \<and> \<not> free_in b T c)
     \<and> (\<forall>f g. f \<noteq> g \<longrightarrow> owned m f \<inter> owned m g = {})"

lemma own_inv_new: "own_inv Map.empty b T"
  by (simp add: own_inv_def owned_def)

lemma owned_upd: "owned (m(f \<mapsto> rl)) g = (if g = f then clusters (runs rl) else owned m g)"
  by (simp add: owned_def)

lemma owned_del: "owned (m(f := None)) g = (if g = f then {} else owned m g)"
  by (simp add: owned_def)

lemma own_inv_owned: "own_inv m b T \<Longrightarrow> c \<in> owned m f \<Longrightarrow> c < T \<and> \<not> free_in b T c"
  unfolding own_inv_def by blast

lemma own_inv_disjoint: "own_inv m b T \<Longrightarrow> f \<noteq> g \<Longrightarrow> owned m f \<inter> owned m g = {}"
  unfolding own_inv_def by blast

lemma set_expand: "set (expand rs) = clusters rs"
  by (auto simp: expand_def clusters_def run_set_def)

lemma own_inv_runs:
  assumes "own_inv m b T" and "m f = Some rl"
  shows "\<forall>r\<in>set (runs rl). wf_run r \<and> run_end r \<le> T"
proof
  fix r assume r: "r \<in> set (runs rl)"
  have wf: "wf_run r" using assms r by (auto simp: own_inv_def rl_inv_def)
  have "run_end r - 1 \<in> owned m f"
    using assms(2) r start_less_end [OF wf] by (auto simp: owned_def clusters_def run_set_def intro!: bexI [of _ r])
  with own_inv_owned [OF assms(1)] have "run_end r - 1 < T" by blast
  with wf show "wf_run r \<and> run_end r \<le> T" by simp
qed

text \<open>Taking a free run for a file: the tracking succeeds and ownership is kept.\<close>

lemma own_inv_add_run:
  fixes m :: "u64 \<rightharpoonup> RunList" and f :: u64
  assumes inv: "own_inv m b T" and wf: "wf_run run" and T: "T < 2 ^ 64" "T \<le> 8 * length b"
    and free: "free_run b T (unat (start_cluster run)) (unat (cluster_count run))"
  defines "rl \<equiv> case m f of Some rl \<Rightarrow> rl | None \<Rightarrow> RunList_new"
  shows "\<exists>rl'. add_run run rl = Ok rl' \<and> clusters (runs rl') = owned m f \<union> run_set run
     \<and> own_inv (m(f \<mapsto> rl')) (fold mark [unat (start_cluster run)..<run_end run] b) T"
proof -
  have rl: "rl_inv rl" "clusters (runs rl) = owned m f"
    using inv rl_inv_new
    by (auto simp: rl_def own_inv_def owned_def RunList_new_def split: option.splits)
  have in_run: "free_in b T c" if "c \<in> run_set run" for c
    using that free by (auto simp: run_set_def run_end_def intro: free_run_hits)
  then have fresh: "c \<notin> owned m g" if "c \<in> run_set run" for c g
    using that inv unfolding own_inv_def by blast
  have "unat (rl_total_clusters rl) + unat (cluster_count run) = card (owned m f \<union> run_set run)"
  proof -
    have "card (owned m f) = unat (rl_total_clusters rl)"
      using rl card_clusters [of "runs rl"] by (simp add: rl_inv_def)
    moreover have "finite (owned m f)" using rl(2) finite_clusters [of "runs rl"] by simp
    moreover have "owned m f \<inter> run_set run = {}" using fresh by auto
    ultimately show ?thesis by (simp add: card_Un_disjoint card_run_set)
  qed
  moreover have "card (owned m f \<union> run_set run) \<le> card {..<T}"
    using inv in_run by (intro card_mono) (auto simp: own_inv_def dest: free_in_less)
  ultimately have fits: "unat (rl_total_clusters rl) + unat (cluster_count run) < 2 ^ 64"
    using T(1) by simp
  have "run_set run \<inter> clusters (runs rl) = {}" using fresh rl(2) by auto
  from add_run_ok [OF rl(1) wf this fits] obtain rl' where
    rl': "add_run run rl = Ok rl'" "rl_inv rl'" "clusters (runs rl') = owned m f \<union> run_set run"
    using rl(2) by auto
  have "runs rl' \<noteq> []" using rl'(3) start_less_end [OF wf] by (auto simp: run_set_def)
  moreover have used: "free_in (fold mark [unat (start_cluster run)..<run_end run] b) T x \<longleftrightarrow>
      free_in b T x \<and> x \<notin> run_set run" for x
  proof -
    have "c div 8 < length b" if "c \<in> set [unat (start_cluster run)..<run_end run]" for c
      using that T(2) free_in_less [OF in_run, of c] by (auto simp: run_set_def)
    then show ?thesis by (subst free_in_fold_mark) (auto simp: run_set_def)
  qed
  ultimately have "own_inv (m(f \<mapsto> rl')) (fold mark [unat (start_cluster run)..<run_end run] b) T"
    using inv rl'(2,3) in_run fresh unfolding own_inv_def
    by (auto simp: owned_upd used dest: free_in_less) blast+
  with rl' show ?thesis by blast
qed

lemma own_inv_cong: "(\<And>c. free_in b T c \<longleftrightarrow> free_in b' T c) \<Longrightarrow> own_inv m b T \<longleftrightarrow> own_inv m b' T"
  by (simp add: own_inv_def)

text \<open>Releasing every run of a file.\<close>

lemma own_inv_release:
  assumes "own_inv m b T" and "T \<le> 8 * length b" and "set cs \<subseteq> owned m f"
  shows "own_inv (m(f := None)) (fold unmark cs b) T"
proof -
  have "c div 8 < length b" if "c \<in> set cs" for c
    using that assms by (fastforce simp: own_inv_def)
  then have "free_in (fold unmark cs b) T x \<longleftrightarrow> x < T \<and> (free_in b T x \<or> x \<in> set cs)" for x
    by (rule free_in_fold_unmark)
  with assms(1,3) show ?thesis unfolding own_inv_def
    by (auto simp: owned_del split: if_splits) blast+
qed


section \<open>Allocation on a block device\<close>

definition al_free :: "('v \<Rightarrow> u8 \<Rightarrow> store) \<Rightarrow> ClusterAllocator \<Rightarrow> 'v \<Rightarrow> nat \<Rightarrow> bool" where
  "al_free sec a v = free_in (bm_view sec (al_bitmap a) v) (unat (bm_total_clusters (al_bitmap a)))"

definition al_inv :: "('v \<Rightarrow> u8 \<Rightarrow> bool) \<Rightarrow> ('v \<Rightarrow> u8 \<Rightarrow> store) \<Rightarrow> ClusterAllocator \<Rightarrow> 'v \<Rightarrow> bool" where
  "al_inv ready sec a v \<longleftrightarrow> bm_wf (al_bitmap a) \<and> ready v (bm_drive (al_bitmap a))
     \<and> own_inv (allocated_runs a) (bm_view sec (al_bitmap a) v) (unat (bm_total_clusters (al_bitmap a)))"

text \<open>
  What a successful allocation does: the run was free and is now owned by the file, nothing else
  changes hands, the invariant is kept, and the new bitmap is the one on disk.
\<close>

definition took :: "('v \<Rightarrow> u8 \<Rightarrow> bool) \<Rightarrow> ('v \<Rightarrow> u8 \<Rightarrow> store) \<Rightarrow> u64 \<Rightarrow> ClusterRun
    \<Rightarrow> ClusterAllocator \<Rightarrow> 'v \<Rightarrow> ClusterAllocator \<Rightarrow> 'v \<Rightarrow> bool" where
  "took ready sec f run a v a' v' \<longleftrightarrow> al_inv ready sec a' v'
     \<and> (\<forall>c\<in>run_set run. al_free sec a v c)
     \<and> (\<forall>c. al_free sec a' v' c \<longleftrightarrow> al_free sec a v c \<and> c \<notin> run_set run)
     \<and> owned (allocated_runs a') = (owned (allocated_runs a))(f := owned (allocated_runs a) f \<union> run_set run)
     \<and> bm_disk sec (al_bitmap a') v' = bm_view sec (al_bitmap a') v'"

definition fit_of :: "AllocationStrategy \<Rightarrow> u64 \<Rightarrow> ClusterBitmap \<Rightarrow> (fs_error, ClusterRun option) res" where
  "fit_of strategy = (case strategy of
     FirstFit \<Rightarrow> find_first_fit | BestFit \<Rightarrow> find_best_fit | NextFit \<Rightarrow> find_next_fit)"

interpretation fit_of: fit_strategy "fit_of strategy" for strategy
  by (cases strategy)
    (simp_all add: fit_of_def ff.fit_strategy_axioms bf.fit_strategy_axioms nf.fit_strategy_axioms)

lemma wp_on_bitmap [wp_simps]:
  "wp (on_bitmap m) (a, w) Q \<longleftrightarrow> wp m (al_bitmap a, w) (\<lambda>r t. Q r (a\<lparr>al_bitmap := fst t\<rparr>, snd t))"
  by (simp add: on_bitmap_def wp_zoom)

lemma wp_for_each_on_bitmap:
  "wp (for_each (\<lambda>r. on_bitmap (f r)) rs) (a, w) Q \<longleftrightarrow>
     wp (for_each f rs) (al_bitmap a, w) (\<lambda>r t. Q r (a\<lparr>al_bitmap := fst t\<rparr>, snd t))"
proof (induction rs arbitrary: a w)
  case Nil
  then show ?case by (simp add: wp_def)
next
  case (Cons r rs)
  have "wp (for_each (\<lambda>r. on_bitmap (f r)) rs) (a\<lparr>al_bitmap := fst t\<rparr>, snd t) Q \<longleftrightarrow>
      wp (for_each f rs) t (\<lambda>r t. Q r (a\<lparr>al_bitmap := fst t\<rparr>, snd t))" for t
    using Cons.IH [of "a\<lparr>al_bitmap := fst t\<rparr>" "snd t"] by (cases t) simp
  then show ?case by (simp add: wp_bnd wp_on_bitmap cong: res.case_cong)
qed

lemma owned_get: "(case m f of Some rl \<Rightarrow> rl | None \<Rightarrow> RunList_new) = rl \<Longrightarrow> clusters (runs rl) = owned m f"
  by (auto simp: owned_def RunList_new_def split: option.splits)

context block_device
begin

lemma wp_find_free_clusters:
  assumes "bm_wf s" and "ready (dev w) (bm_drive s)"
    and "\<And>v. sec v = sec (dev w) \<Longrightarrow> ready v = ready (dev w) \<Longrightarrow>
      Q (fit_of strategy n (bm_loaded s (bm_view sec s (dev w))))
        (bm_loaded s (bm_view sec s (dev w)), w\<lparr>dev := v\<rparr>)"
  shows "wp (find_free_clusters B n strategy) (s, w) Q"
proof -
  have "(case strategy of FirstFit \<Rightarrow> find_first_fit n self | BestFit \<Rightarrow> find_best_fit n self
      | NextFit \<Rightarrow> find_next_fit n self) = fit_of strategy n self" for self
    by (simp add: fit_of_def split: AllocationStrategy.split)
  then show ?thesis
    unfolding find_free_clusters_def wp_bnd
    by (intro wp_load_bitmap [OF assms(1,2)]) (simp add: wp_simps assms(3))
qed

lemma tookI:
  assumes inv: "al_inv ready sec a v" and wf: "wf_run run"
    and free: "free_run (bm_view sec (al_bitmap a) v) (unat (bm_total_clusters (al_bitmap a)))
                 (unat (start_cluster run)) (unat (cluster_count run))"
    and s': "s' = (bm_loaded (al_bitmap a) b)\<lparr>cached_bitmap :=
               Some (fold mark [unat (start_cluster run)..<run_end run] (bm_view sec (al_bitmap a) v)),
               bm_dirty := dirt\<rparr>"
    and ready: "ready v' = ready v"
    and disk: "bm_disk sec s' v' = fold mark [unat (start_cluster run)..<run_end run] (bm_view sec (al_bitmap a) v)"
    and rl': "add_run run (case allocated_runs a f of Some rl \<Rightarrow> rl | None \<Rightarrow> RunList_new) = Ok rl'"
  shows "took ready sec f run a v (a\<lparr>allocated_runs := (allocated_runs a)(f \<mapsto> rl'), al_bitmap := s'\<rparr>) v'"
proof -
  let ?s = "al_bitmap a" and ?b = "bm_view sec (al_bitmap a) v"
  let ?T = "unat (bm_total_clusters ?s)"
  have wfb: "bm_wf ?s" and own: "own_inv (allocated_runs a) ?b ?T" and rd: "ready v (bm_drive ?s)"
    using inv by (auto simp: al_inv_def)
  have len: "?T \<le> 8 * length ?b" "length ?b = unat (bitmap_size_sectors ?s) * 512"
    using wfb length_bm_view [OF wfb] by (auto simp: bm_wf_def)
  have T: "?T < 2 ^ 64" using unat_bound [of "bm_total_clusters ?s"] by simp
  from own_inv_add_run [OF own wf T len(1) free, of f] rl'
  have o: "clusters (runs rl') = owned (allocated_runs a) f \<union> run_set run"
    "own_inv ((allocated_runs a)(f \<mapsto> rl')) (fold mark [unat (start_cluster run)..<run_end run] ?b) ?T"
    by auto
  have view: "bm_view sec s' v' = fold mark [unat (start_cluster run)..<run_end run] ?b"
    by (simp add: s' bm_view_def)
  have in_run: "free_in ?b ?T c" if "c \<in> run_set run" for c
    using that free by (auto simp: run_set_def run_end_def intro: free_run_hits)
  have "c div 8 < length ?b" if "c \<in> set [unat (start_cluster run)..<run_end run]" for c
    using that len(1) free_in_less [OF in_run, of c] by (auto simp: run_set_def)
  then have used: "free_in (fold mark [unat (start_cluster run)..<run_end run] ?b) ?T x \<longleftrightarrow>
      free_in ?b ?T x \<and> x \<notin> run_set run" for x
    by (subst free_in_fold_mark) (auto simp: run_set_def)
  have "bm_wf s'" using wfb len(2) by (auto simp: s' bm_wf_def)
  moreover have "bm_total_clusters s' = bm_total_clusters ?s" "bm_drive s' = bm_drive ?s"
    by (simp_all add: s')
  ultimately show ?thesis
    using o rd ready in_run used disk view
    by (auto simp: took_def al_inv_def al_free_def owned_upd fun_eq_iff)
qed

text \<open>The end of every allocation: with a free run marked in the cache, record it for the file and flush.\<close>

lemma wp_record_run:
  assumes inv: "al_inv ready sec a (dev w)" and wf: "wf_run run"
    and free: "free_run (bm_view sec (al_bitmap a) (dev w)) (unat (bm_total_clusters (al_bitmap a)))
                 (unat (start_cluster run)) (unat (cluster_count run))"
    and rl': "add_run run (case allocated_runs a f of Some rl \<Rightarrow> rl | None \<Rightarrow> RunList_new) = Ok rl'"
    and s2: "s2 = (bm_loaded (al_bitmap a) b)\<lparr>cached_bitmap :=
               Some (fold mark [unat (start_cluster run)..<run_end run] (bm_view sec (al_bitmap a) (dev w))),
               bm_dirty := True\<rparr>"
    and v: "ready v = ready (dev w)"
    and ok: "\<And>a' v'. took ready sec f run a (dev w) a' v' \<Longrightarrow> Q (Ok run) (a', w\<lparr>dev := v'\<rparr>)"
  shows "wp (bnd (modify (\<lambda>s. s\<lparr>allocated_runs := (allocated_runs a)(f \<mapsto> rl')\<rparr>)) (\<lambda>_.
             bnd (on_bitmap (flush_bitmap B)) (\<lambda>_. ret run))) (a\<lparr>al_bitmap := s2\<rparr>, w\<lparr>dev := v\<rparr>) Q"
proof -
  let ?a = "\<lambda>s. a\<lparr>allocated_runs := (allocated_runs a)(f \<mapsto> rl'), al_bitmap := s\<rparr>"
  have wfb: "bm_wf (al_bitmap a)" and rd: "ready (dev w) (bm_drive (al_bitmap a))"
    using inv by (auto simp: al_inv_def)
  have wf2: "bm_wf s2" using wfb length_bm_view [OF wfb] by (auto simp: s2 bm_wf_def)
  have "wp (flush_bitmap B) (s2, w\<lparr>dev := v\<rparr>) (\<lambda>r t. case r of
      Ok x \<Rightarrow> Q (Ok run) (?a (fst t), snd t) | Err e \<Rightarrow> Q (Err e) (?a (fst t), snd t)
    | Panic \<Rightarrow> Q Panic (?a (fst t), snd t))"
  proof (rule wp_flush_bitmap [OF wf2])
    fix v'
    assume "ready v' = ready (dev (w\<lparr>dev := v\<rparr>))" and "bm_disk sec s2 v' =
        fold mark [unat (start_cluster run)..<run_end run] (bm_view sec (al_bitmap a) (dev w))"
    then have "took ready sec f run a (dev w) (?a (s2\<lparr>bm_dirty := False\<rparr>)) v'"
      using v s2 by (intro tookI [OF inv wf free _ _ _ rl']) (auto simp: bm_disk_def)
    then show "case Ok () of
        Ok x \<Rightarrow> Q (Ok run) (?a (fst (s2\<lparr>bm_dirty := False\<rparr>, w\<lparr>dev := v, dev := v'\<rparr>)), snd (s2\<lparr>bm_dirty := False\<rparr>, w\<lparr>dev := v, dev := v'\<rparr>))
      | Err e \<Rightarrow> Q (Err e) (?a (fst (s2\<lparr>bm_dirty := False\<rparr>, w\<lparr>dev := v, dev := v'\<rparr>)), snd (s2\<lparr>bm_dirty := False\<rparr>, w\<lparr>dev := v, dev := v'\<rparr>))
      | Panic \<Rightarrow> Q Panic (?a (fst (s2\<lparr>bm_dirty := False\<rparr>, w\<lparr>dev := v, dev := v'\<rparr>)), snd (s2\<lparr>bm_dirty := False\<rparr>, w\<lparr>dev := v, dev := v'\<rparr>))"
      by (simp add: ok)
  qed (use rd v s2 in simp_all)
  then show ?thesis by (simp add: wp_bnd wp_modify wp_on_bitmap wp_ret cong: res.case_cong)
qed

lemma al_inv_loaded:
  assumes "al_inv ready sec a v" and "ready v' = ready v"
  defines "a' \<equiv> a\<lparr>al_bitmap := bm_loaded (al_bitmap a) (bm_view sec (al_bitmap a) v)\<rparr>"
  shows "al_inv ready sec a' v'" and "al_free sec a' v' = al_free sec a v"
    and "allocated_runs a' = allocated_runs a"
proof -
  let ?s = "al_bitmap a"
  have "bm_view sec (bm_loaded ?s (bm_view sec ?s v)) v' = bm_view sec ?s v"
    by (simp add: bm_view_def [of _ "bm_loaded ?s (bm_view sec ?s v)"])
  moreover have "bm_wf (bm_loaded ?s (bm_view sec ?s v))"
    using assms(1) length_bm_view [of ?s v] by (auto simp: bm_wf_def al_inv_def)
  ultimately show "al_inv ready sec a' v'" and "al_free sec a' v' = al_free sec a v"
    and "allocated_runs a' = allocated_runs a"
    using assms by (simp_all add: al_inv_def al_free_def)
qed

lemma wp_allocate_clusters:
  assumes inv: "al_inv ready sec a (dev w)" and n: "0 < n"
    and ok: "\<And>run a' v'. took ready sec f run a (dev w) a' v' \<Longrightarrow> cluster_count run = n
      \<Longrightarrow> Q (Ok run) (a', w\<lparr>dev := v'\<rparr>)"
    and full: "\<And>a' v'. al_inv ready sec a' v' \<Longrightarrow> allocated_runs a' = allocated_runs a \<Longrightarrow>
      al_free sec a' v' = al_free sec a (dev w) \<Longrightarrow>
      (\<And>s. \<not> (\<forall>k<unat n. al_free sec a (dev w) (s + k)))
      \<Longrightarrow> Q (Err InsufficientSpace) (a', w\<lparr>dev := v'\<rparr>)"
  shows "wp (allocate_clusters B f n) (a, w) Q"
proof -
  let ?s = "al_bitmap a" and ?b = "bm_view sec (al_bitmap a) (dev w)"
  let ?T = "unat (bm_total_clusters ?s)" and ?s1 = "bm_loaded (al_bitmap a) (bm_view sec (al_bitmap a) (dev w))"
  have wfb: "bm_wf ?s" and own: "own_inv (allocated_runs a) ?b ?T" and rd: "ready (dev w) (bm_drive ?s)"
    using inv by (auto simp: al_inv_def)
  have len: "?T \<le> 8 * length ?b" using wfb length_bm_view [OF wfb] by (auto simp: bm_wf_def)
  have T: "?T < 2 ^ 64" using unat_bound [of "bm_total_clusters ?s"] by simp
  show ?thesis
    unfolding allocate_clusters_def wp_bnd [of "gets _"] wp_gets res.case wp_bnd [of "on_bitmap (find_free_clusters _ _ _)"]
      wp_on_bitmap
  proof (rule wp_find_free_clusters [OF wfb rd], unfold fst_conv snd_conv)
    fix v
    assume v: "sec v = sec (dev w)" "ready v = ready (dev w)"
    from fit_of.fit_total [of ?s1 ?b "al_strategy a" n]
    obtain found where found: "fit_of (al_strategy a) n ?s1 = Ok found" by auto
    let ?rest = "\<lambda>x. case x of
        Some run \<Rightarrow> bnd (on_bitmap (mark_run_used B run)) (\<lambda>_. bnd (gets allocated_runs) (\<lambda>m.
          bnd (lift_res (add_run run (case m f of Some rl \<Rightarrow> rl | None \<Rightarrow> RunList_new))) (\<lambda>rl.
          bnd (modify (\<lambda>s. s\<lparr>allocated_runs := m(f \<mapsto> rl)\<rparr>)) (\<lambda>_.
          bnd (on_bitmap (flush_bitmap B)) (\<lambda>_. ret run)))))
      | None \<Rightarrow> fail InsufficientSpace"
    have "wp (?rest found) (a\<lparr>al_bitmap := ?s1\<rparr>, w\<lparr>dev := v\<rparr>) Q"
    proof (cases found)
      case None
      have "Q (Err InsufficientSpace) (a\<lparr>al_bitmap := ?s1\<rparr>, w\<lparr>dev := v\<rparr>)"
      proof (rule full)
        fix s
        from fit_of.fit_none [of ?s1 ?b n "al_strategy a" s] found None n
        show "\<not> (\<forall>k<unat n. al_free sec a (dev w) (s + k))" by (simp add: free_run_def al_free_def)
      qed (use al_inv_loaded [OF inv v(2)] in auto)
      with None show ?thesis by (simp add: wp_simps)
    next
      case (Some run)
      from fit_of.fit_some [of ?s1 ?b n "al_strategy a" run] fit_of.fit_wf_run [of ?s1 ?b n "al_strategy a" run]
        found Some n
      have run: "cluster_count run = n" "free_run ?b ?T (unat (start_cluster run)) (unat (cluster_count run))"
        "wf_run run" "run_end run \<le> ?T" by auto
      from own_inv_add_run [OF own run(3) T len run(2), of f] obtain rl' where
        rl': "add_run run (case allocated_runs a f of Some rl \<Rightarrow> rl | None \<Rightarrow> RunList_new) = Ok rl'" by blast
      note mark = mark_run_cached(1) [of ?s1 ?b run B "w\<lparr>dev := v\<rparr>"]
      have "wp (bnd (modify (\<lambda>s. s\<lparr>allocated_runs := (allocated_runs a)(f \<mapsto> rl')\<rparr>)) (\<lambda>_.
             bnd (on_bitmap (flush_bitmap B)) (\<lambda>_. ret run)))
          (a\<lparr>al_bitmap := ?s1\<lparr>cached_bitmap := Some (fold mark [unat (start_cluster run)..<run_end run] ?b),
             bm_dirty := True\<rparr>\<rparr>, w\<lparr>dev := v\<rparr>) Q"
        using ok run(1) by (intro wp_record_run [OF inv run(3,2) rl' refl v(2)]) auto
      with mark run len rl' Some show ?thesis
        by (simp add: wp_bnd [of "on_bitmap (mark_run_used _ _)"] wp_on_bitmap wp_eq [of "mark_run_used B run"]
            wp_bnd [of "gets _"] wp_gets wp_bnd [of "lift_res _"] wp_lift_res)
    qed
    with found show "case fit_of (al_strategy a) n ?s1 of
        Ok x \<Rightarrow> wp (?rest x) (a\<lparr>al_bitmap := ?s1\<rparr>, w\<lparr>dev := v\<rparr>) Q
      | Err e \<Rightarrow> Q (Err e) (a\<lparr>al_bitmap := ?s1\<rparr>, w\<lparr>dev := v\<rparr>)
      | Panic \<Rightarrow> Q Panic (a\<lparr>al_bitmap := ?s1\<rparr>, w\<lparr>dev := v\<rparr>)" by simp
  qed
qed

lemma took_same_start:
  assumes "took ready sec f run a1 v1 a' v'" and "al_free sec a1 v1 = al_free sec a v"
    and "allocated_runs a1 = allocated_runs a"
  shows "took ready sec f run a v a' v'"
  using assms by (simp add: took_def)

definition same_region :: "ClusterBitmap \<Rightarrow> ClusterBitmap \<Rightarrow> bool" where
  "same_region s s' \<longleftrightarrow> bm_drive s' = bm_drive s \<and> bitmap_start_sector s' = bitmap_start_sector s
     \<and> bitmap_size_sectors s' = bitmap_size_sectors s \<and> bm_total_clusters s' = bm_total_clusters s"

lemma wp_mark_runs_free:
  assumes "bm_wf s" and "ready (dev w) (bm_drive s)"
    and "\<forall>r\<in>set rs. wf_run r \<and> run_end r \<le> unat (bm_total_clusters s)"
    and "\<And>s' v. bm_wf s' \<Longrightarrow> same_region s s' \<Longrightarrow> sec v = sec (dev w) \<Longrightarrow> ready v = ready (dev w)
      \<Longrightarrow> bm_view sec s' v = fold unmark (expand rs) (bm_view sec s (dev w)) \<Longrightarrow> Q (Ok ()) (s', w\<lparr>dev := v\<rparr>)"
  shows "wp (for_each (mark_run_free B) rs) (s, w) Q"
  using assms
proof (induction rs arbitrary: s w)
  case Nil
  have "Q (Ok ()) (s, w\<lparr>dev := dev w\<rparr>)"
    using Nil.prems by (intro Nil.prems(4)) (simp_all add: same_region_def expand_def)
  then show ?case by (simp add: wp_def)
next
  case (Cons r rs)
  let ?b = "bm_view sec s (dev w)"
  let ?b' = "fold unmark [unat (start_cluster r)..<run_end r] ?b"
  let ?s' = "(bm_loaded s ?b)\<lparr>cached_bitmap := Some ?b', bm_dirty := True\<rparr>"
  have wf': "bm_wf ?s'" using Cons.prems(1) length_bm_view [OF Cons.prems(1)] by (auto simp: bm_wf_def)
  have reg: "same_region s s2" if "same_region ?s' s2" for s2 using that by (simp add: same_region_def)
  have ex: "fold unmark (expand (r # rs)) ?b = fold unmark (expand rs) ?b'" by (simp add: expand_def)
  show ?case
    unfolding for_each.simps wp_bnd
  proof (rule wp_mark_run_free [OF Cons.prems(1,2)], simp_all add: Cons.prems(3))
    fix v
    assume v: "sec v = sec (dev w)" "ready v = ready (dev w)"
    show "wp (for_each (mark_run_free B) rs) (?s', w\<lparr>dev := v\<rparr>) Q"
    proof (rule Cons.IH [OF wf'])
      fix s2 v2
      assume "bm_wf s2" "same_region ?s' s2" "sec v2 = sec (dev (w\<lparr>dev := v\<rparr>))"
        "ready v2 = ready (dev (w\<lparr>dev := v\<rparr>))"
        "bm_view sec s2 v2 = fold unmark (expand rs) (bm_view sec ?s' (dev (w\<lparr>dev := v\<rparr>)))"
      then have "Q (Ok ()) (s2, w\<lparr>dev := v2\<rparr>)"
        using v ex reg by (intro Cons.prems(4)) (simp_all add: bm_view_def [of _ ?s'])
      then show "Q (Ok ()) (s2, w\<lparr>dev := v, dev := v2\<rparr>)" by simp
    qed (use Cons.prems v in simp_all)
  qed
qed

lemma wp_deallocate_all_clusters:
  assumes inv: "al_inv ready sec a (dev w)"
    and ok: "\<And>a' v'. al_inv ready sec a' v' \<Longrightarrow>
      owned (allocated_runs a') = (owned (allocated_runs a))(f := {}) \<Longrightarrow>
      (\<And>c. al_free sec a' v' c \<longleftrightarrow> al_free sec a (dev w) c \<or> c \<in> owned (allocated_runs a) f) \<Longrightarrow>
      Q (Ok ()) (a', w\<lparr>dev := v'\<rparr>)"
  shows "wp (deallocate_all_clusters B f) (a, w) Q"
proof (cases "allocated_runs a f")
  case None
  then have "owned (allocated_runs a) f = {}" by (simp add: owned_def)
  then have "Q (Ok ()) (a, w\<lparr>dev := dev w\<rparr>)" using inv by (intro ok) (auto simp: fun_eq_iff)
  with None show ?thesis by (simp add: deallocate_all_clusters_def wp_simps)
next
  case (Some rl)
  let ?s = "al_bitmap a" and ?b = "bm_view sec (al_bitmap a) (dev w)" and ?m = "(allocated_runs a)(f := None)"
  let ?T = "unat (bm_total_clusters ?s)"
  have wfb: "bm_wf ?s" and own: "own_inv (allocated_runs a) ?b ?T" and rd: "ready (dev w) (bm_drive ?s)"
    using inv by (auto simp: al_inv_def)
  have len: "?T \<le> 8 * length ?b" using wfb length_bm_view [OF wfb] by (auto simp: bm_wf_def)
  have mine: "owned (allocated_runs a) f = set (expand (runs rl))"
    using Some by (simp add: owned_def set_expand)
  have small: "c div 8 < length ?b" if "c \<in> set (expand (runs rl))" for c
    using own_inv_owned [OF own, of c f] that mine len by (auto simp: less_mult_imp_div_less)
  note ends = own_inv_runs [OF own Some]
  have free: "free_in (fold unmark (expand (runs rl)) ?b) ?T x \<longleftrightarrow>
      free_in ?b ?T x \<or> x \<in> owned (allocated_runs a) f" for x
    using small mine own_inv_owned [OF own, of x f]
    by (subst free_in_fold_unmark) (auto dest: free_in_less)
  have own': "own_inv ?m (fold unmark (expand (runs rl)) ?b) ?T"
    using own len mine by (intro own_inv_release) auto
  have "wp (for_each (mark_run_free B) (runs rl)) (?s, w) (\<lambda>r t. case r of
      Ok x \<Rightarrow> wp (flush_bitmap B) t (\<lambda>r t. Q r (a\<lparr>allocated_runs := ?m, al_bitmap := fst t\<rparr>, snd t))
    | Err e \<Rightarrow> Q (Err e) (a\<lparr>allocated_runs := ?m, al_bitmap := fst t\<rparr>, snd t)
    | Panic \<Rightarrow> Q Panic (a\<lparr>allocated_runs := ?m, al_bitmap := fst t\<rparr>, snd t))"
  proof (rule wp_mark_runs_free [OF wfb rd ends], simp)
    fix s' v
    assume s': "bm_wf s'" "same_region ?s s'" "bm_view sec s' v = fold unmark (expand (runs rl)) ?b"
      and v: "ready v = ready (dev w)"
    show "wp (flush_bitmap B) (s', w\<lparr>dev := v\<rparr>) (\<lambda>r t. Q r (a\<lparr>allocated_runs := ?m, al_bitmap := fst t\<rparr>, snd t))"
    proof (rule wp_flush_any [OF s'(1)], simp_all)
      show "ready v (bm_drive s')" using rd v s'(2) by (simp add: same_region_def)
      fix v' d
      assume v': "ready v' = ready v" "bm_view sec (s'\<lparr>bm_dirty := d\<rparr>) v' = bm_view sec s' v"
      show "Q (Ok ()) (a\<lparr>allocated_runs := ?m, al_bitmap := s'\<lparr>bm_dirty := d\<rparr>\<rparr>, w\<lparr>dev := v'\<rparr>)"
      proof (rule ok)
        have "bm_wf (s'\<lparr>bm_dirty := d\<rparr>)" using s'(1) by (simp add: bm_wf_def)
        then show "al_inv ready sec (a\<lparr>allocated_runs := ?m, al_bitmap := s'\<lparr>bm_dirty := d\<rparr>\<rparr>) v'"
          using s' v v' rd own' by (simp add: al_inv_def same_region_def)
      qed (use s' v' free in \<open>auto simp: al_free_def same_region_def owned_del\<close>)
    qed
  qed
  with Some show ?thesis
    by (simp add: deallocate_all_clusters_def wp_bnd wp_gets wp_modify wp_for_each_on_bitmap wp_on_bitmap
        cong: res.case_cong)
qed

lemma wp_take_run:
  assumes inv: "al_inv ready sec a (dev w)" and wf: "wf_run run"
    and free: "free_run (bm_view sec (al_bitmap a) (dev w)) (unat (bm_total_clusters (al_bitmap a)))
                 (unat (start_cluster run)) (unat (cluster_count run))"
    and ok: "\<And>a' v'. took ready sec f run a (dev w) a' v' \<Longrightarrow> Q (Ok run) (a', w\<lparr>dev := v'\<rparr>)"
  shows "wp (bnd (on_bitmap (mark_run_used B run)) (\<lambda>_.
     bnd (lift_res (add_run run (case allocated_runs a f of Some rl \<Rightarrow> rl | None \<Rightarrow> RunList_new))) (\<lambda>rl'.
     bnd (modify (\<lambda>s. s\<lparr>allocated_runs := (allocated_runs a)(f \<mapsto> rl')\<rparr>)) (\<lambda>_.
     bnd (on_bitmap (flush_bitmap B)) (\<lambda>_. ret run))))) (a, w) Q"
proof -
  let ?s = "al_bitmap a" and ?b = "bm_view sec (al_bitmap a) (dev w)"
  let ?T = "unat (bm_total_clusters ?s)"
  have wfb: "bm_wf ?s" and own: "own_inv (allocated_runs a) ?b ?T" and rd: "ready (dev w) (bm_drive ?s)"
    using inv by (auto simp: al_inv_def)
  have len: "?T \<le> 8 * length ?b" using wfb length_bm_view [OF wfb] by (auto simp: bm_wf_def)
  have T: "?T < 2 ^ 64" using unat_bound [of "bm_total_clusters ?s"] by simp
  have le: "run_end run \<le> ?T"
    using free_run_bound [OF free] wf by (simp add: run_end_def wf_run_def word_less_nat_alt)
  from own_inv_add_run [OF own wf T len free, of f] obtain rl' where
    rl': "add_run run (case allocated_runs a f of Some rl \<Rightarrow> rl | None \<Rightarrow> RunList_new) = Ok rl'" by blast
  show ?thesis
    unfolding wp_bnd [of "on_bitmap (mark_run_used B run)"] wp_on_bitmap
  proof (rule wp_mark_run_used [OF wfb rd wf le], unfold res.case fst_conv snd_conv wp_bnd [of "lift_res _"] wp_lift_res rl')
    fix v assume "sec v = sec (dev w)" "ready v = ready (dev w)"
    then show "wp (bnd (modify (\<lambda>s. s\<lparr>allocated_runs := (allocated_runs a)(f \<mapsto> rl')\<rparr>)) (\<lambda>_.
         bnd (on_bitmap (flush_bitmap B)) (\<lambda>_. ret run)))
       (a\<lparr>al_bitmap := (bm_loaded ?s ?b)\<lparr>cached_bitmap := Some (fold mark [unat (start_cluster run)..<run_end run] ?b),
          bm_dirty := True\<rparr>\<rparr>, w\<lparr>dev := v\<rparr>) Q"
      using ok by (intro wp_record_run [OF inv wf free rl' refl]) auto
  qed
qed

lemma wp_can_extend:
  assumes "al_inv ready sec a (dev w)"
    and "\<And>a' v'. al_inv ready sec a' v' \<Longrightarrow> allocated_runs a' = allocated_runs a \<Longrightarrow>
      al_free sec a' v' = al_free sec a (dev w) \<Longrightarrow> bm_total_clusters (al_bitmap a') = bm_total_clusters (al_bitmap a)
      \<Longrightarrow> Q (Ok (\<forall>c\<in>set cs. al_free sec a (dev w) (unat c))) (a', w\<lparr>dev := v'\<rparr>)"
  shows "wp (can_extend B cs) (a, w) Q"
  using assms
proof (induction cs arbitrary: a w)
  case Nil
  then have "Q (Ok True) (a, w\<lparr>dev := dev w\<rparr>)" by fastforce
  then show ?case by (simp add: wp_def)
next
  case (Cons c cs)
  have wfb: "bm_wf (al_bitmap a)" and rd: "ready (dev w) (bm_drive (al_bitmap a))"
    using Cons.prems(1) by (auto simp: al_inv_def)
  show ?case
    unfolding can_extend.simps wp_bnd wp_on_bitmap
  proof (rule wp_is_cluster_free [OF wfb rd], simp flip: al_free_def, intro conjI impI)
    fix s' v
    assume s': "s' = al_bitmap a \<or> s' = bm_loaded (al_bitmap a) (bm_view sec (al_bitmap a) (dev w))"
      and v: "sec v = sec (dev w)" "ready v = ready (dev w)"
    let ?a = "a\<lparr>al_bitmap := s'\<rparr>"
    have "bm_view sec (al_bitmap a) v = bm_view sec (al_bitmap a) (dev w)"
      using v by (simp add: bm_view_def bm_disk_def split: option.split)
    then have l: "al_inv ready sec ?a v" "al_free sec ?a v = al_free sec a (dev w)"
        "bm_total_clusters (al_bitmap ?a) = bm_total_clusters (al_bitmap a)"
      using s' v al_inv_loaded [OF Cons.prems(1) v(2)] Cons.prems(1)
      by (auto simp: al_inv_def al_free_def)
    show "wp (ret False) (?a, w\<lparr>dev := v\<rparr>) Q" if "\<not> al_free sec a (dev w) (unat c)"
      using that Cons.prems(2) [of ?a v] l by (simp add: wp_def)
    show "wp (can_extend B cs) (?a, w\<lparr>dev := v\<rparr>) Q" if "al_free sec a (dev w) (unat c)"
    proof (rule Cons.IH)
      fix a' v'
      assume "al_inv ready sec a' v'" "allocated_runs a' = allocated_runs ?a"
        "al_free sec a' v' = al_free sec ?a (dev (w\<lparr>dev := v\<rparr>))"
        "bm_total_clusters (al_bitmap a') = bm_total_clusters (al_bitmap ?a)"
      with Cons.prems(2) [of a' v'] that l
      show "Q (Ok (\<forall>c\<in>set cs. al_free sec ?a (dev (w\<lparr>dev := v\<rparr>)) (unat c))) (a', w\<lparr>dev := v, dev := v'\<rparr>)"
        by simp
    qed (use l in simp)
  qed
qed

lemma took_extends:
  assumes inv: "al_inv ready sec a v" and rl: "allocated_runs a f = Some rl"
  shows "wf_run (last (runs rl))" and "run_end (last (runs rl)) \<le> unat (bm_total_clusters (al_bitmap a))"
    and "runs rl \<noteq> []"
proof -
  from assms have own: "own_inv (allocated_runs a) (bm_view sec (al_bitmap a) v) (unat (bm_total_clusters (al_bitmap a)))"
    by (simp add: al_inv_def)
  then show "runs rl \<noteq> []" using rl by (auto simp: own_inv_def)
  with own_inv_runs [OF own rl] show "wf_run (last (runs rl))"
    and "run_end (last (runs rl)) \<le> unat (bm_total_clusters (al_bitmap a))" by auto
qed

lemma wp_extend_allocation:
  assumes inv: "al_inv ready sec a (dev w)" and n: "0 < n"
    and fits: "unat (bm_total_clusters (al_bitmap a)) + unat n < 2 ^ 64"
    and ok: "\<And>run a' v'. took ready sec f run a (dev w) a' v' \<Longrightarrow> cluster_count run = n
      \<Longrightarrow> Q (Ok run) (a', w\<lparr>dev := v'\<rparr>)"
    and full: "\<And>a' v'. al_inv ready sec a' v' \<Longrightarrow> allocated_runs a' = allocated_runs a \<Longrightarrow>
      al_free sec a' v' = al_free sec a (dev w) \<Longrightarrow>
      (\<And>s. \<not> (\<forall>k<unat n. al_free sec a (dev w) (s + k)))
      \<Longrightarrow> Q (Err InsufficientSpace) (a', w\<lparr>dev := v'\<rparr>)"
  shows "wp (extend_allocation B f n) (a, w) Q"
proof (cases "allocated_runs a f")
  case None
  then have "extend_allocation B f n (a, w) = allocate_clusters B f n (a, w)"
    by (simp add: extend_allocation_def)
  moreover have "wp (allocate_clusters B f n) (a, w) Q"
    using ok full by (intro wp_allocate_clusters [OF inv n]) auto
  ultimately show ?thesis by (simp add: wp_def)
next
  case (Some rl)
  note last = took_extends [OF inv Some]
  obtain e where e: "end_cluster (last (runs rl)) = Ok e" using end_cluster_ok [OF last(1)] by blast
  obtain nxt where nxt: "add_ck e 1 = (Ok nxt :: (fs_error, u64) res)" "unat nxt = run_end (last (runs rl))"
    using end_plus_one_ok [OF last(1) e] by blast
  let ?run = "ClusterRun_new nxt n"
  have run: "wf_run ?run" "start_cluster ?run = nxt" "cluster_count ?run = n"
    using nxt(2) last(2) fits n by (simp_all add: wf_run_def run_end_def ClusterRun_new_def)
  note range = u64_range_run [OF run(1), unfolded run(2,3)]
  define rest where "rest = (\<lambda>ok. if ok then
      bnd (on_bitmap (mark_run_used B ?run)) (\<lambda>_. bnd (lift_res (add_run ?run rl)) (\<lambda>rl'.
      bnd (modify (\<lambda>s. s\<lparr>allocated_runs := (allocated_runs a)(f \<mapsto> rl')\<rparr>)) (\<lambda>_.
      bnd (on_bitmap (flush_bitmap B)) (\<lambda>_. ret ?run))))
    else allocate_clusters B f n)"
  have prog: "extend_allocation B f n (a, w) = bnd (can_extend B (u64_range nxt (nxt + n))) rest (a, w)"
    using Some last(3) e nxt(1) range(2) by (simp add: extend_allocation_def rest_def Let_def cong: if_cong)
  have "wp (bnd (can_extend B (u64_range nxt (nxt + n))) rest) (a, w) Q"
    unfolding wp_bnd
  proof (rule wp_can_extend [OF inv], simp)
    fix a1 v1
    assume inv1: "al_inv ready sec a1 v1" and m1: "allocated_runs a1 = allocated_runs a"
      and free1: "al_free sec a1 v1 = al_free sec a (dev w)"
      and T1: "bm_total_clusters (al_bitmap a1) = bm_total_clusters (al_bitmap a)"
    let ?w1 = "w\<lparr>dev := v1\<rparr>" and ?ok = "\<forall>c\<in>set (u64_range nxt (nxt + n)). al_free sec a (dev w) (unat c)"
    have took: "took ready sec f run a (dev w) a' v'" if "took ready sec f run a1 v1 a' v'" for run a' v'
      using that free1 m1 by (rule took_same_start)
    show "wp (rest ?ok) (a1, ?w1) Q"
    proof (cases ?ok)
      case False
      then have "rest ?ok = allocate_clusters B f n" unfolding rest_def by (rule if_not_P)
      moreover have "wp (allocate_clusters B f n) (a1, ?w1) Q"
        using took ok full m1 free1 inv1 by (intro wp_allocate_clusters [OF _ n]) auto
      ultimately show ?thesis by simp
    next
      case True
      have "al_free sec a (dev w) c" if "c \<in> set (map unat (u64_range nxt (nxt + n)))" for c
        using True that by auto
      then have "al_free sec a1 v1 (unat nxt + k)" if "k < unat n" for k
        unfolding range(1) free1 using that run by (simp add: run_end_def)
      then have fr: "free_run (bm_view sec (al_bitmap a1) (dev ?w1)) (unat (bm_total_clusters (al_bitmap a1)))
          (unat (start_cluster ?run)) (unat (cluster_count ?run))"
        by (simp add: free_run_def al_free_def run(2,3))
      have inv1': "al_inv ready sec a1 (dev ?w1)" using inv1 by simp
      from Some m1 have "rest ?ok = bnd (on_bitmap (mark_run_used B ?run)) (\<lambda>_.
          bnd (lift_res (add_run ?run (case allocated_runs a1 f of Some rl \<Rightarrow> rl | None \<Rightarrow> RunList_new))) (\<lambda>rl'.
          bnd (modify (\<lambda>s. s\<lparr>allocated_runs := (allocated_runs a1)(f \<mapsto> rl')\<rparr>)) (\<lambda>_.
          bnd (on_bitmap (flush_bitmap B)) (\<lambda>_. ret ?run))))"
        using True by (simp add: rest_def)
      moreover have "wp (bnd (on_bitmap (mark_run_used B ?run)) (\<lambda>_.
          bnd (lift_res (add_run ?run (case allocated_runs a1 f of Some rl \<Rightarrow> rl | None \<Rightarrow> RunList_new))) (\<lambda>rl'.
          bnd (modify (\<lambda>s. s\<lparr>allocated_runs := (allocated_runs a1)(f \<mapsto> rl')\<rparr>)) (\<lambda>_.
          bnd (on_bitmap (flush_bitmap B)) (\<lambda>_. ret ?run))))) (a1, ?w1) Q"
        using ok [OF took] run(3) by (intro wp_take_run [OF inv1' run(1) fr]) simp
      ultimately show ?thesis by simp
    qed
  qed
  then show ?thesis by (simp add: wp_def prog)
qed

text \<open>Moving a file to one contiguous run.\<close>

lemma own_inv_move:
  assumes own: "own_inv m b T" and T: "T < 2 ^ 64" "T \<le> 8 * length b" and wf: "wf_run run"
    and free: "free_run b T (unat (start_cluster run)) (unat (cluster_count run))"
    and rl: "m f = Some rl"
  defines "b' \<equiv> fold unmark (expand (runs rl)) (fold mark [unat (start_cluster run)..<run_end run] b)"
  shows "\<exists>rl'. add_run run RunList_new = Ok rl' \<and> clusters (runs rl') = run_set run
     \<and> own_inv (m(f \<mapsto> rl')) b' T"
    and "\<And>c. free_in b' T c \<longleftrightarrow> free_in b T c \<and> c \<notin> run_set run \<or> c \<in> owned m f"
proof -
  let ?old = "expand (runs rl)" and ?new = "[unat (start_cluster run)..<run_end run]"
  have old: "owned m f = set ?old" using rl by (simp add: owned_def set_expand)
  have new: "set ?new = run_set run" by (simp add: run_set_def)
  have in_run: "free_in b T c" if "c \<in> run_set run" for c
    using that free by (auto simp: run_set_def run_end_def intro: free_run_hits)
  have small: "c div 8 < length b" if "c < T" for c using that T(2) by (simp add: less_mult_imp_div_less)
  have so: "\<And>c. c \<in> set ?old \<Longrightarrow> c < T \<and> \<not> free_in b T c" using own_inv_owned [OF own] old by blast
  have sn: "\<And>c. c \<in> set ?new \<Longrightarrow> c < T" using in_run new free_in_less by blast
  have f': "free_in b' T c \<longleftrightarrow> free_in b T c \<and> c \<notin> run_set run \<or> c \<in> owned m f" for c
    unfolding b'_def old new [symmetric]
    using so sn small by (subst free_in_fold_unmark, simp, subst free_in_fold_mark) (auto dest: free_in_less)
  then show "\<And>c. free_in b' T c \<longleftrightarrow> free_in b T c \<and> c \<notin> run_set run \<or> c \<in> owned m f" .
  let ?b1 = "fold unmark ?old b"
  have f1: "free_in ?b1 T c \<longleftrightarrow> free_in b T c \<or> c \<in> owned m f" for c
    unfolding old using so small by (subst free_in_fold_unmark) (auto dest: free_in_less)
  have own1: "own_inv (m(f := None)) ?b1 T"
    using own T(2) old by (intro own_inv_release) auto
  have "free_run ?b1 T (unat (start_cluster run)) (unat (cluster_count run))"
    using free f1 by (simp add: free_run_def)
  from own_inv_add_run [OF own1 wf T(1) _ this, of f] T(2) obtain rl' where
    rl': "add_run run RunList_new = Ok rl'" "clusters (runs rl') = run_set run"
      "own_inv (m(f \<mapsto> rl')) (fold mark ?new ?b1) T"
    by (auto simp: owned_del)
  have "free_in (fold mark ?new ?b1) T c \<longleftrightarrow> free_in b' T c" for c
  proof -
    have "free_in (fold mark ?new ?b1) T c \<longleftrightarrow> free_in ?b1 T c \<and> c \<notin> set ?new"
      using sn small by (intro free_in_fold_mark) (simp del: set_upt)
    then show ?thesis unfolding f' f1 new using in_run so old by blast
  qed
  then have "own_inv (m(f \<mapsto> rl')) b' T" using rl'(3) own_inv_cong by blast
  with rl' show "\<exists>rl'. add_run run RunList_new = Ok rl' \<and> clusters (runs rl') = run_set run
     \<and> own_inv (m(f \<mapsto> rl')) b' T" by blast
qed

lemma wp_move_run:
  assumes inv: "al_inv ready sec a (dev w)" and Some: "allocated_runs a f = Some rl" and wf: "wf_run run"
    and free: "free_run (bm_view sec (al_bitmap a) (dev w)) (unat (bm_total_clusters (al_bitmap a)))
                 (unat (start_cluster run)) (unat (cluster_count run))"
    and ok: "\<And>a' v'. al_inv ready sec a' v' \<Longrightarrow>
      owned (allocated_runs a') = (owned (allocated_runs a))(f := run_set run) \<Longrightarrow> Q (Ok ()) (a', w\<lparr>dev := v'\<rparr>)"
  shows "wp (bnd (on_bitmap (mark_run_used B run)) (\<lambda>_.
     bnd (for_each (\<lambda>old_run. on_bitmap (mark_run_free B old_run)) (runs rl)) (\<lambda>_.
     bnd (lift_res (add_run run RunList_new)) (\<lambda>l.
     bnd (modify (\<lambda>s. s\<lparr>allocated_runs := (allocated_runs a)(f \<mapsto> l)\<rparr>)) (\<lambda>_.
       on_bitmap (flush_bitmap B)))))) (a, w) Q"
proof -
  let ?s = "al_bitmap a" and ?b = "bm_view sec (al_bitmap a) (dev w)"
  let ?T = "unat (bm_total_clusters ?s)" and ?b2 = "fold mark [unat (start_cluster run)..<run_end run]
    (bm_view sec (al_bitmap a) (dev w))"
  let ?s2 = "(bm_loaded ?s ?b)\<lparr>cached_bitmap := Some ?b2, bm_dirty := True\<rparr>"
  have wfb: "bm_wf ?s" and own: "own_inv (allocated_runs a) ?b ?T" and rd: "ready (dev w) (bm_drive ?s)"
    using inv by (auto simp: al_inv_def)
  have len: "?T \<le> 8 * length ?b" using wfb length_bm_view [OF wfb] by (auto simp: bm_wf_def)
  have T: "?T < 2 ^ 64" using unat_bound [of "bm_total_clusters ?s"] by simp
  have le: "run_end run \<le> ?T"
    using free_run_bound [OF free] wf by (simp add: run_end_def wf_run_def word_less_nat_alt)
  from own_inv_move(1) [OF own T len wf free Some] obtain rl' where
    rl': "add_run run RunList_new = Ok rl'" "clusters (runs rl') = run_set run"
      "own_inv ((allocated_runs a)(f \<mapsto> rl')) (fold unmark (expand (runs rl)) ?b2) ?T" by blast
  let ?a = "\<lambda>s. a\<lparr>allocated_runs := (allocated_runs a)(f \<mapsto> rl'), al_bitmap := s\<rparr>"
  have wf2: "bm_wf ?s2" using wfb length_bm_view [OF wfb] by (auto simp: bm_wf_def)
  have flush: "wp (flush_bitmap B) (s3, w\<lparr>dev := v3\<rparr>) (\<lambda>r u. Q r (?a (fst u), snd u))"
    if s3: "bm_wf s3" "same_region ?s2 s3" "bm_view sec s3 v3 = fold unmark (expand (runs rl)) ?b2"
      and v3: "ready v3 = ready (dev w)" for s3 v3
  proof (rule wp_flush_any [OF s3(1)], simp_all)
    show "ready v3 (bm_drive s3)" using rd v3 s3(2) by (simp add: same_region_def)
    fix v' d
    assume v': "ready v' = ready v3" "bm_view sec (s3\<lparr>bm_dirty := d\<rparr>) v' = bm_view sec s3 v3"
    have "bm_wf (s3\<lparr>bm_dirty := d\<rparr>)" using s3(1) by (simp add: bm_wf_def)
    then show "Q (Ok ()) (?a (s3\<lparr>bm_dirty := d\<rparr>), w\<lparr>dev := v'\<rparr>)"
      using s3 v3 v' rd rl' by (intro ok) (auto simp: al_inv_def same_region_def owned_upd fun_eq_iff)
  qed
  have free_old: "wp (for_each (mark_run_free B) (runs rl)) (?s2, w\<lparr>dev := v\<rparr>) (\<lambda>r t. case r of
      Ok x \<Rightarrow> wp (flush_bitmap B) t (\<lambda>r u. Q r (?a (fst u), snd u))
    | Err e \<Rightarrow> Q (Err e) (a\<lparr>al_bitmap := fst t\<rparr>, snd t) | Panic \<Rightarrow> Q Panic (a\<lparr>al_bitmap := fst t\<rparr>, snd t))"
    if v: "ready v = ready (dev w)" for v
  proof (rule wp_mark_runs_free [OF wf2], simp_all add: rd v own_inv_runs [OF own Some])
    fix s3 v3
    assume "bm_wf s3" "same_region ?s2 s3" "bm_view sec s3 v3 = fold unmark (expand (runs rl)) (bm_view sec ?s2 v)"
      "ready v3 = ready (dev w)"
    then show "wp (flush_bitmap B) (s3, w\<lparr>dev := v3\<rparr>) (\<lambda>r u. Q r (?a (fst u), snd u))"
      by (intro flush) (simp_all add: bm_view_def [of _ ?s2])
  qed
  show ?thesis
    unfolding wp_bnd [of "on_bitmap (mark_run_used B run)"] wp_on_bitmap
  proof (rule wp_mark_run_used [OF wfb rd wf le], unfold res.case fst_conv snd_conv)
    fix v assume "ready v = ready (dev w)"
    from free_old [OF this] rl'(1)
    show "wp (bnd (for_each (\<lambda>old_run. on_bitmap (mark_run_free B old_run)) (runs rl)) (\<lambda>_.
         bnd (lift_res (add_run run RunList_new)) (\<lambda>l.
         bnd (modify (\<lambda>s. s\<lparr>allocated_runs := (allocated_runs a)(f \<mapsto> l)\<rparr>)) (\<lambda>_.
           on_bitmap (flush_bitmap B))))) (a\<lparr>al_bitmap := ?s2\<rparr>, w\<lparr>dev := v\<rparr>) Q"
      by (simp add: wp_bnd wp_on_bitmap wp_for_each_on_bitmap wp_lift_res wp_modify cong: res.case_cong)
  qed
qed

lemma wp_defragment_file:
  assumes inv: "al_inv ready sec a (dev w)"
    and ok: "\<And>a' v' S. al_inv ready sec a' v' \<Longrightarrow>
      owned (allocated_runs a') = (owned (allocated_runs a))(f := S) \<Longrightarrow> card S = card (owned (allocated_runs a) f) \<Longrightarrow>
      Q (Ok ()) (a', w\<lparr>dev := v'\<rparr>)"
  shows "wp (defragment_file B f) (a, w) Q"
proof (cases "allocated_runs a f")
  case None
  have "Q (Ok ()) (a, w\<lparr>dev := dev w\<rparr>)" using inv by (intro ok [where S = "owned (allocated_runs a) f"]) auto
  with None show ?thesis by (simp add: defragment_file_def wp_simps)
next
  case (Some rl)
  let ?s = "al_bitmap a" and ?b = "bm_view sec (al_bitmap a) (dev w)"
  let ?s1 = "bm_loaded ?s ?b" and ?n = "rl_total_clusters rl"
  have wfb: "bm_wf ?s" and own: "own_inv (allocated_runs a) ?b (unat (bm_total_clusters ?s))"
    and rd: "ready (dev w) (bm_drive ?s)"
    using inv by (auto simp: al_inv_def)
  have rl: "rl_inv rl" "runs rl \<noteq> []" using own Some by (auto simp: own_inv_def)
  have card: "card (owned (allocated_runs a) f) = unat ?n"
    using rl Some card_clusters by (simp add: owned_def rl_inv_def)
  have "0 < cluster_sum (runs rl)"
    using rl by (cases "runs rl") (auto simp: rl_inv_def wf_run_def word_less_nat_alt)
  then have n: "0 < ?n" using rl by (simp add: rl_inv_def word_less_nat_alt)
  define rest where "rest = (\<lambda>found. case found of
      Some new_run \<Rightarrow>
        bnd (on_bitmap (mark_run_used B new_run)) (\<lambda>_.
        bnd (for_each (\<lambda>old_run. on_bitmap (mark_run_free B old_run)) (runs rl)) (\<lambda>_.
        bnd (lift_res (add_run new_run RunList_new)) (\<lambda>new_run_list.
        bnd (modify (\<lambda>s. s\<lparr>allocated_runs := (allocated_runs a)(f \<mapsto> new_run_list)\<rparr>)) (\<lambda>_.
          on_bitmap (flush_bitmap B)))))
    | None \<Rightarrow> ret ())"
  have prog: "defragment_file B f (a, w) = bnd (on_bitmap (find_free_clusters B ?n FirstFit)) rest (a, w)"
    using Some by (simp add: defragment_file_def rest_def)
  have step: "wp (rest found) (a\<lparr>al_bitmap := ?s1\<rparr>, w\<lparr>dev := v\<rparr>) Q"
    if v: "sec v = sec (dev w)" "ready v = ready (dev w)" and found: "fit_of FirstFit ?n ?s1 = Ok found" for v found
  proof (cases found)
    case None
    have "Q (Ok ()) (a\<lparr>al_bitmap := ?s1\<rparr>, w\<lparr>dev := v\<rparr>)"
      using al_inv_loaded [OF inv v(2)] by (intro ok [where S = "owned (allocated_runs a) f"]) auto
    with None show ?thesis by (simp add: rest_def wp_def)
  next
    case (Some run)
    let ?a1 = "a\<lparr>al_bitmap := ?s1\<rparr>" and ?w1 = "w\<lparr>dev := v\<rparr>"
    from fit_of.fit_some [of ?s1 ?b ?n FirstFit run] fit_of.fit_wf_run [of ?s1 ?b ?n FirstFit run] found Some n
    have run: "cluster_count run = ?n" "wf_run run"
      "free_run (bm_view sec (al_bitmap ?a1) (dev ?w1)) (unat (bm_total_clusters (al_bitmap ?a1)))
         (unat (start_cluster run)) (unat (cluster_count run))"
      by (auto simp: bm_view_def [of _ ?s1])
    have inv1: "al_inv ready sec ?a1 (dev ?w1)" using al_inv_loaded(1) [OF inv v(2)] by simp
    have rest1: "rest found = bnd (on_bitmap (mark_run_used B run)) (\<lambda>_.
        bnd (for_each (\<lambda>old_run. on_bitmap (mark_run_free B old_run)) (runs rl)) (\<lambda>_.
        bnd (lift_res (add_run run RunList_new)) (\<lambda>l.
        bnd (modify (\<lambda>s. s\<lparr>allocated_runs := (allocated_runs ?a1)(f \<mapsto> l)\<rparr>)) (\<lambda>_.
          on_bitmap (flush_bitmap B)))))"
      using Some by (simp add: rest_def)
    show ?thesis
      unfolding rest1
      by (rule wp_move_run [OF inv1 _ run(2,3)])
        (use \<open>allocated_runs a f = Some rl\<close> ok [where S = "run_set run"] card run(1) in \<open>simp_all add: card_run_set\<close>)
  qed
  from fit_of.fit_total [of ?s1 ?b FirstFit ?n]
  obtain found where found: "fit_of FirstFit ?n ?s1 = Ok found" by auto
  have "wp (bnd (on_bitmap (find_free_clusters B ?n FirstFit)) rest) (a, w) Q"
    unfolding wp_bnd wp_on_bitmap
    by (rule wp_find_free_clusters [OF wfb rd]) (use found step in simp)
  then show ?thesis by (simp add: wp_def prog)
qed

text \<open>Giving back one recorded run.\<close>

lemma own_inv_remove:
  assumes own: "own_inv m b T" and len: "T \<le> 8 * length b" and Some: "m f = Some rl" and run: "run \<in> set (runs rl)"
  defines "b' \<equiv> fold unmark [unat (start_cluster run)..<run_end run] b"
  shows "\<exists>rl'. remove_run run rl = Ok (True, rl')
     \<and> (let m' = if runs rl' = [] then m(f := None) else m(f \<mapsto> rl') in
          owned m' = (owned m)(f := owned m f - run_set run) \<and> own_inv m' b' T)"
    and "\<And>c. free_in b' T c \<longleftrightarrow> free_in b T c \<or> c \<in> run_set run"
proof -
  have "rl_inv rl" using own Some by (auto simp: own_inv_def)
  from remove_run_ok [OF this run] obtain rl' where
    rl': "remove_run run rl = Ok (True, rl')" "rl_inv rl'" "clusters (runs rl') = clusters (runs rl) - run_set run"
    by blast
  let ?m = "if runs rl' = [] then m(f := None) else m(f \<mapsto> rl')"
  have sub: "run_set run \<subseteq> owned m f" using run Some by (auto simp: owned_def clusters_def)
  have in_run: "c < T \<and> \<not> free_in b T c" if "c \<in> run_set run" for c
    using own_inv_owned [OF own] sub that by blast
  have "c div 8 < length b" if "c \<in> set [unat (start_cluster run)..<run_end run]" for c
    using in_run [of c] that len by (auto simp: run_set_def less_mult_imp_div_less)
  then have f': "free_in b' T c \<longleftrightarrow> free_in b T c \<or> c \<in> run_set run" for c
    unfolding b'_def using in_run
    by (subst free_in_fold_unmark) (auto simp: run_set_def dest: free_in_less)
  then show "\<And>c. free_in b' T c \<longleftrightarrow> free_in b T c \<or> c \<in> run_set run" .
  have o: "owned ?m = (owned m)(f := owned m f - run_set run)"
    using rl'(3) Some by (auto simp: owned_def fun_eq_iff)
  have "own_inv ?m b' T"
    unfolding own_inv_def o f'
  proof (intro conjI allI impI ballI)
    show "rl_inv r" "runs r \<noteq> []" if "?m g = Some r" for g r
      using that own rl'(2) by (auto simp: own_inv_def split: if_splits)
    show "c < T" "\<not> (free_in b T c \<or> c \<in> run_set run)"
      if "c \<in> ((owned m)(f := owned m f - run_set run)) g" for c g
      using that own_inv_owned [OF own, of c] own_inv_disjoint [OF own, of f g] sub
      by (auto split: if_splits)
    show "((owned m)(f := owned m f - run_set run)) g \<inter> ((owned m)(f := owned m f - run_set run)) h = {}"
      if "g \<noteq> h" for g h
      using that own_inv_disjoint [OF own, of g h] by auto
  qed
  with rl' o show "\<exists>rl'. remove_run run rl = Ok (True, rl')
     \<and> (let m' = if runs rl' = [] then m(f := None) else m(f \<mapsto> rl') in
          owned m' = (owned m)(f := owned m f - run_set run) \<and> own_inv m' b' T)"
    unfolding Let_def by blast
qed

lemma wp_deallocate_clusters:
  assumes inv: "al_inv ready sec a (dev w)" and Some: "allocated_runs a f = Some rl" and run: "run \<in> set (runs rl)"
    and ok: "\<And>a' v'. al_inv ready sec a' v' \<Longrightarrow>
      owned (allocated_runs a') = (owned (allocated_runs a))(f := owned (allocated_runs a) f - run_set run) \<Longrightarrow>
      (\<And>c. al_free sec a' v' c \<longleftrightarrow> al_free sec a (dev w) c \<or> c \<in> run_set run) \<Longrightarrow> Q (Ok ()) (a', w\<lparr>dev := v'\<rparr>)"
  shows "wp (deallocate_clusters B f run) (a, w) Q"
proof -
  let ?s = "al_bitmap a" and ?b = "bm_view sec (al_bitmap a) (dev w)"
  let ?T = "unat (bm_total_clusters ?s)" and ?b2 = "fold unmark [unat (start_cluster run)..<run_end run]
    (bm_view sec (al_bitmap a) (dev w))"
  let ?s2 = "(bm_loaded ?s ?b)\<lparr>cached_bitmap := Some ?b2, bm_dirty := True\<rparr>"
  have wfb: "bm_wf ?s" and own: "own_inv (allocated_runs a) ?b ?T" and rd: "ready (dev w) (bm_drive ?s)"
    using inv by (auto simp: al_inv_def)
  have len: "?T \<le> 8 * length ?b" using wfb length_bm_view [OF wfb] by (auto simp: bm_wf_def)
  have wf: "wf_run run" "run_end run \<le> ?T" using own_inv_runs [OF own Some] run by auto
  note rem = own_inv_remove [OF own len Some run]
  from rem(1) obtain rl' m' where rl': "remove_run run rl = Ok (True, rl')"
      "m' = (if runs rl' = [] then (allocated_runs a)(f := None) else (allocated_runs a)(f \<mapsto> rl'))"
      "owned m' = (owned (allocated_runs a))(f := owned (allocated_runs a) f - run_set run)"
      "own_inv m' ?b2 ?T"
    unfolding Let_def by blast
  have wf2: "bm_wf ?s2" using wfb length_bm_view [OF wfb] by (auto simp: bm_wf_def)
  have flush: "wp (flush_bitmap B) (?s2, w\<lparr>dev := v\<rparr>)
      (\<lambda>r u. Q r (a\<lparr>allocated_runs := m', al_bitmap := fst u\<rparr>, snd u))"
    if v: "ready v = ready (dev w)" for v
  proof (rule wp_flush_bitmap [OF wf2], simp_all add: rd v)
    fix v' assume v': "ready v' = ready (dev w)"
    let ?s3 = "(bm_loaded ?s ?b)\<lparr>cached_bitmap := Some ?b2, bm_dirty := False\<rparr>"
    have "bm_wf ?s3" using wf2 by (simp add: bm_wf_def)
    moreover have "bm_view sec ?s3 v' = ?b2" by (simp add: bm_view_def [of _ ?s3])
    ultimately show "Q (Ok ()) (a\<lparr>allocated_runs := m', al_bitmap := ?s3\<rparr>, w\<lparr>dev := v'\<rparr>)"
      using rl'(3,4) rd v' rem(2) by (intro ok) (simp_all add: al_inv_def al_free_def)
  qed
  show ?thesis
    unfolding deallocate_clusters_def wp_bnd [of "on_bitmap (mark_run_free B run)"] wp_on_bitmap
  proof (rule wp_mark_run_free [OF wfb rd wf], unfold res.case fst_conv snd_conv)
    fix v assume "ready v = ready (dev w)"
    from flush [OF this]
    show "wp (bnd (gets allocated_runs) (\<lambda>m. bnd (case m f of
          Some rl \<Rightarrow> bnd (lift_res (remove_run run rl)) (\<lambda>(_, rl'). modify (\<lambda>s. s\<lparr>allocated_runs :=
            (if runs rl' = [] then m(f := None) else m(f \<mapsto> rl'))\<rparr>))
        | None \<Rightarrow> ret ()) (\<lambda>_. on_bitmap (flush_bitmap B)))) (a\<lparr>al_bitmap := ?s2\<rparr>, w\<lparr>dev := v\<rparr>) Q"
      by (simp add: wp_bnd wp_gets Some rl'(1,2) wp_lift_res wp_modify wp_on_bitmap)
  qed
qed

end


section \<open>Any sequence of calls\<close>

text \<open>
  The calls a client makes, as steps on the allocator and the world. A run that is given back is one
  the allocator has on record.
\<close>

inductive al_step :: "'v bdev \<Rightarrow> ClusterAllocator \<times> 'v world \<Rightarrow> ClusterAllocator \<times> 'v world \<Rightarrow> bool"
  for B :: "'v bdev" where
  allocate: "0 < n \<Longrightarrow> allocate_clusters B f n s = (r, s') \<Longrightarrow> al_step B s s'"
| extend: "0 < n \<Longrightarrow> unat (bm_total_clusters (al_bitmap (fst s))) + unat n < 2 ^ 64 \<Longrightarrow>
    extend_allocation B f n s = (r, s') \<Longrightarrow> al_step B s s'"
| release: "allocated_runs (fst s) f = Some rl \<Longrightarrow> run \<in> set (runs rl) \<Longrightarrow>
    deallocate_clusters B f run s = (r, s') \<Longrightarrow> al_step B s s'"
| release_all: "deallocate_all_clusters B f s = (r, s') \<Longrightarrow> al_step B s s'"
| defragment: "defragment_file B f s = (r, s') \<Longrightarrow> al_step B s s'"

context block_device
begin

lemma al_step_inv:
  assumes "al_step B s s'" and "al_inv ready sec (fst s) (dev (snd s))"
  shows "al_inv ready sec (fst s') (dev (snd s'))"
proof -
  obtain a w where s: "s = (a, w)" by (cases s)
  let ?I = "\<lambda>_ s'. al_inv ready sec (fst s') (dev (snd s'))"
  from assms have inv: "al_inv ready sec a (dev w)" by (simp add: s)
  from assms(1) show ?thesis
  proof cases
    case (allocate n f r)
    have "wp (allocate_clusters B f n) (a, w) ?I"
      by (rule wp_allocate_clusters [OF inv allocate(1)]) (simp_all add: took_def)
    with allocate(2) show ?thesis by (simp add: s wp_def)
  next
    case (extend n f r)
    have "wp (extend_allocation B f n) (a, w) ?I"
      by (rule wp_extend_allocation [OF inv extend(1)]) (use extend(2) in \<open>simp_all add: s took_def\<close>)
    with extend(3) show ?thesis by (simp add: s wp_def)
  next
    case (release f rl run r)
    have "wp (deallocate_clusters B f run) (a, w) ?I"
      by (rule wp_deallocate_clusters [OF inv _ release(2)]) (use release(1) in \<open>simp_all add: s\<close>)
    with release(3) show ?thesis by (simp add: s wp_def)
  next
    case (release_all f r)
    have "wp (deallocate_all_clusters B f) (a, w) ?I"
      by (rule wp_deallocate_all_clusters [OF inv]) simp
    with release_all show ?thesis by (simp add: s wp_def)
  next
    case (defragment f r)
    have "wp (defragment_file B f) (a, w) ?I"
      by (rule wp_defragment_file [OF inv]) simp
    with defragment show ?thesis by (simp add: s wp_def)
  qed
qed

lemma al_steps_inv:
  "(al_step B)\<^sup>*\<^sup>* s s' \<Longrightarrow> al_inv ready sec (fst s) (dev (snd s)) \<Longrightarrow> al_inv ready sec (fst s') (dev (snd s'))"
  by (induction rule: rtranclp_induct) (auto intro: al_step_inv)

end


section \<open>Properties\<close>

text \<open>A bitmap of 100 clusters at sector 10 of a blank disk.\<close>

definition demo_bitmap :: ClusterBitmap where
  "demo_bitmap = \<lparr>bm_drive = 0, bitmap_start_sector = 10, bitmap_size_sectors = 1, bm_total_clusters = 100,
     clusters_per_sector = 4096, cached_bitmap = None, bm_dirty = False\<rparr>"

definition demo_alloc :: ClusterAllocator where
  "demo_alloc = ClusterAllocator_new demo_bitmap FirstFit"

lemma demo_bitmap_new: "ClusterBitmap_new 0 10 100 = Ok demo_bitmap"
  by (simp add: ClusterBitmap_new_def demo_bitmap_def add_ck_def)

lemma demo_alloc_inv: "al_inv ram_ready ram_sec demo_alloc (dev (blank_world 2000))"
  by (simp add: al_inv_def demo_alloc_def ClusterAllocator_new_def demo_bitmap_def bm_wf_def own_inv_new)

text \<open>
  C20: \<^verbatim>\<open>allocate_clusters\<close> never panics on an allocator in its invariant. When it returns a run, the
  run has the requested length, all its clusters were free and no file owned them, they are now
  used and owned by the file, no other cluster changes hands, and the bitmap on disk is up to date.
  It reports \<^verbatim>\<open>InsufficientSpace\<close> only when no free run of that length exists, and then changes
  nothing a caller can see. This holds for every strategy.
\<close>

theorem allocate_clusters_correct:
  assumes "block_device B ready sec" and "al_inv ready sec a (dev w)" and "0 < n"
  shows "case allocate_clusters B f n (a, w) of (r, a', w') \<Rightarrow>
     al_inv ready sec a' (dev w') \<and>
     (case r of
        Ok run \<Rightarrow> cluster_count run = n
          \<and> (\<forall>c\<in>run_set run. al_free sec a (dev w) c \<and> (\<forall>g. c \<notin> owned (allocated_runs a) g))
          \<and> (\<forall>c. al_free sec a' (dev w') c \<longleftrightarrow> al_free sec a (dev w) c \<and> c \<notin> run_set run)
          \<and> owned (allocated_runs a') = (owned (allocated_runs a))(f := owned (allocated_runs a) f \<union> run_set run)
          \<and> bm_disk sec (al_bitmap a') (dev w') = bm_view sec (al_bitmap a') (dev w')
      | Err e \<Rightarrow> e = InsufficientSpace \<and> (\<nexists>s. \<forall>k<unat n. al_free sec a (dev w) (s + k))
          \<and> al_free sec a' (dev w') = al_free sec a (dev w) \<and> allocated_runs a' = allocated_runs a
      | Panic \<Rightarrow> False)"
proof -
  have unowned: "c \<notin> owned (allocated_runs a) g" if "al_free sec a (dev w) c" for c g
    using assms(2) that own_inv_owned unfolding al_inv_def al_free_def by blast
  have "wp (allocate_clusters B f n) (a, w) (\<lambda>r (a', w'). al_inv ready sec a' (dev w') \<and> (case r of
        Ok run \<Rightarrow> cluster_count run = n \<and> took ready sec f run a (dev w) a' (dev w')
      | Err e \<Rightarrow> e = InsufficientSpace \<and> (\<nexists>s. \<forall>k<unat n. al_free sec a (dev w) (s + k))
          \<and> al_free sec a' (dev w') = al_free sec a (dev w) \<and> allocated_runs a' = allocated_runs a
      | Panic \<Rightarrow> False))"
    by (rule block_device.wp_allocate_clusters [OF assms]) (auto simp: took_def)
  then show ?thesis
    using unowned by (auto simp: wp_def took_def split: prod.splits res.splits)
qed

text \<open>The first allocation of three clusters on a blank disk.\<close>

theorem allocate_clusters_correct_witness:
  "case allocate_clusters ram_bdev 5 3 (demo_alloc, blank_world 2000) of (r, a', w') \<Rightarrow>
     al_inv ram_ready ram_sec a' (dev w') \<and> r \<noteq> Panic"
  using allocate_clusters_correct [OF ram.block_device_axioms demo_alloc_inv, of 3 5]
  by (auto split: prod.splits)



section \<open>A run list that outlives its clusters\<close>

lemma allocate_clusters_cached:
  assumes "cached_bitmap (al_bitmap a) = Some b" and "fit_of (al_strategy a) n (al_bitmap a) = Ok (Some run)"
    and "wf_run run" and "run_end run \<le> unat (bm_total_clusters (al_bitmap a))" and "run_end run \<le> 8 * length b"
    and "add_run run (case allocated_runs a f of Some rl \<Rightarrow> rl | None \<Rightarrow> RunList_new) = Ok rl'"
    and "b' = fold mark [unat (start_cluster run)..<run_end run] b"
    and "dwrite B (bm_drive (al_bitmap a)) (as_u8 (bitmap_size_sectors (al_bitmap a)))
           (as_u32 (bitmap_start_sector (al_bitmap a))) b' w = (Ok (), w')"
  shows "allocate_clusters B f n (a, w) = (Ok run,
     a\<lparr>allocated_runs := (allocated_runs a)(f \<mapsto> rl'),
       al_bitmap := (al_bitmap a)\<lparr>cached_bitmap := Some b', bm_dirty := False\<rparr>\<rparr>, w')"
proof -
  have fit: "(case al_strategy a of FirstFit \<Rightarrow> find_first_fit n (al_bitmap a) | BestFit \<Rightarrow> find_best_fit n (al_bitmap a)
      | NextFit \<Rightarrow> find_next_fit n (al_bitmap a)) = Ok (Some run)"
    using assms(2) by (simp add: fit_of_def split: AllocationStrategy.splits)
  have "wp (allocate_clusters B f n) (a, w) (\<lambda>r s. (r, s) = (Ok run,
     a\<lparr>allocated_runs := (allocated_runs a)(f \<mapsto> rl'),
       al_bitmap := (al_bitmap a)\<lparr>cached_bitmap := Some b', bm_dirty := False\<rparr>\<rparr>, w'))"
    using assms(1,6) fit mark_run_cached(1) [OF assms(1,3-5), of B w] assms(8)
    by (simp add: allocate_clusters_def find_free_clusters_def wp_bnd wp_gets wp_on_bitmap wp_lift_res
        wp_eq [of "load_bitmap B"] wp_eq [of "mark_run_used B run"] wp_modify flush_bitmap_def wp_io
        wp_eq [of "dwrite B (bm_drive (al_bitmap a)) _ _ _"] wp_ret flip: assms(7))
  then show ?thesis by (auto simp: wp_def split: prod.splits)
qed

lemma deallocate_clusters_cached:
  assumes "cached_bitmap (al_bitmap a) = Some b"
    and "wf_run run" and "run_end run \<le> unat (bm_total_clusters (al_bitmap a))" and "run_end run \<le> 8 * length b"
    and "allocated_runs a f = Some rl" and "run \<notin> set (runs rl)" and "runs rl \<noteq> []"
    and "b' = fold unmark [unat (start_cluster run)..<run_end run] b"
    and "dwrite B (bm_drive (al_bitmap a)) (as_u8 (bitmap_size_sectors (al_bitmap a)))
           (as_u32 (bitmap_start_sector (al_bitmap a))) b' w = (Ok (), w')"
  shows "deallocate_clusters B f run (a, w) = (Ok (),
     a\<lparr>allocated_runs := allocated_runs a,
       al_bitmap := (al_bitmap a)\<lparr>cached_bitmap := Some b', bm_dirty := False\<rparr>\<rparr>, w')"
proof -
  have same: "(allocated_runs a)(f \<mapsto> rl) = allocated_runs a" using assms(5) by auto
  have "wp (deallocate_clusters B f run) (a, w) (\<lambda>r s. (r, s) = (Ok (),
     a\<lparr>allocated_runs := allocated_runs a,
       al_bitmap := (al_bitmap a)\<lparr>cached_bitmap := Some b', bm_dirty := False\<rparr>\<rparr>, w'))"
    using assms(1,5-7) mark_run_cached(2) [OF assms(1-4), of B w] assms(9)
    by (simp add: deallocate_clusters_def wp_bnd wp_gets wp_on_bitmap wp_lift_res remove_run_def same
        wp_eq [of "mark_run_free B run"] wp_modify flush_bitmap_def wp_io
        wp_eq [of "dwrite B (bm_drive (al_bitmap a)) _ _ _"] wp_ret flip: assms(8))
  then show ?thesis by (auto simp: wp_def split: prod.splits)
qed

lemma ram_dwrite1:
  assumes "ram_ready (dev w) d" and "length buf = 512"
  obtains w' where "dwrite ram_bdev d 1 10 buf w = (Ok (), w')" and "ram_ready (dev w') d"
proof -
  have "wp (dwrite ram_bdev d 1 10 buf) w (\<lambda>r w'. r = Ok () \<and> ram_ready (dev w') d)"
    using assms by (intro ram.wp_dwrite1) auto
  then show thesis using that by (auto simp: wp_def split: prod.splits)
qed

definition small_alloc :: "u8 \<Rightarrow> (u64 \<rightharpoonup> RunList) \<Rightarrow> ClusterAllocator" where
  "small_alloc x m = \<lparr>al_bitmap = demo_bitmap\<lparr>bm_total_clusters := 8, cached_bitmap := Some (x # replicate 511 0)\<rparr>,
     al_strategy = FirstFit, allocated_runs = m\<rparr>"

lemma range8: "u64_range 0 8 = [0,1,2,3,4,5,6,7]"
  by (simp add: u64_range_def upt_rec)

lemma small_alloc_allocate:
  assumes "ram_ready (dev w) 0"
    and "first_fit_loop (x # replicate 511 0) 2 [0,1,2,3,4,5,6,7] None 0 = Some (ClusterRun_new s 2)" and "unat s \<le> 6"
    and "add_run (ClusterRun_new s 2) (case m f of Some rl \<Rightarrow> rl | None \<Rightarrow> RunList_new) = Ok rl'"
    and "y = x OR push_bit (unat s) 1 OR push_bit (Suc (unat s)) 1"
  obtains w' where "allocate_clusters ram_bdev f 2 (small_alloc x m, w) =
      (Ok (ClusterRun_new s 2), small_alloc y (m(f \<mapsto> rl')), w')" and "ram_ready (dev w') 0"
proof -
  have run: "wf_run (ClusterRun_new s 2)" "run_end (ClusterRun_new s 2) = unat s + 2"
     "[unat s..<run_end (ClusterRun_new s 2)] = [unat s, Suc (unat s)]"
    using assms(3) by (simp_all add: wf_run_def run_end_def ClusterRun_new_def upt_rec)
  have b': "fold mark [unat s..<run_end (ClusterRun_new s 2)] (x # replicate 511 0) = y # replicate 511 0"
    using assms(3,5) by (simp add: run(3) mark_def or.assoc)
  obtain w' where "dwrite ram_bdev 0 1 10 (y # replicate 511 0) w = (Ok (), w')" "ram_ready (dev w') 0"
    using ram_dwrite1 [OF assms(1), of "y # replicate 511 0"] by auto
  then show thesis
    using allocate_clusters_cached [of "small_alloc x m" "x # replicate 511 0" 2 "ClusterRun_new s 2" f rl'
        "y # replicate 511 0" ram_bdev w w'] assms(2-4) run(1,2) b'
    by (intro that) (simp_all add: small_alloc_def fit_of_def find_first_fit_def demo_bitmap_def range8 ClusterRun_new_def)
qed

text \<open>
  C26: giving back a run that the run list has merged with its neighbour leaves the tracking behind.
  File 1 is given clusters 0 and 1, then 2 and 3 (recorded as one run of four), and returns the
  second run: the bitmap frees clusters 2 and 3 but the record keeps all four, so the next
  allocation hands clusters 2 and 3 to file 2 as well and both files own them.
\<close>

theorem deallocate_merged_run_double_owner:
  "case bnd (allocate_clusters ram_bdev 1 2) (\<lambda>_.
        bnd (allocate_clusters ram_bdev 1 2) (\<lambda>second.
        bnd (deallocate_clusters ram_bdev 1 second) (\<lambda>_.
          allocate_clusters ram_bdev 2 2))) (small_alloc 0 Map.empty, blank_world 2000) of
     (r, a, w) \<Rightarrow> r = Ok (ClusterRun_new 2 2)
      \<and> get_file_runs 1 a = Some \<lparr>runs = [ClusterRun_new 0 4], rl_total_clusters = 4\<rparr>
      \<and> get_file_runs 2 a = Some \<lparr>runs = [ClusterRun_new 2 2], rl_total_clusters = 2\<rparr>"
proof -
  let ?one = "\<lparr>runs = [ClusterRun_new 0 2], rl_total_clusters = 2\<rparr>"
  let ?both = "\<lparr>runs = [ClusterRun_new 0 4], rl_total_clusters = 4\<rparr>"
  let ?two = "\<lparr>runs = [ClusterRun_new 2 2], rl_total_clusters = 2\<rparr>"
  have adds: "add_run (ClusterRun_new 0 2) RunList_new = Ok ?one" "add_run (ClusterRun_new 2 2) ?one = Ok ?both"
    "add_run (ClusterRun_new 2 2) RunList_new = Ok ?two"
    by (simp_all add: add_run_def add_ck_def sub_ck_def sort_and_merge_def RunList_new_def merge_def
        can_merge_def end_cluster_def ClusterRun_new_def)
  have fits: "first_fit_loop (0 # replicate 511 0) 2 [0,1,2,3,4,5,6,7] None 0 = Some (ClusterRun_new 0 2)"
    "first_fit_loop (3 # replicate 511 0) 2 [0,1,2,3,4,5,6,7] None 0 = Some (ClusterRun_new 2 2)"
    by (simp_all add: bit_clear_def)
  obtain w1 where 1: "allocate_clusters ram_bdev 1 2 (small_alloc 0 Map.empty, blank_world 2000) =
      (Ok (ClusterRun_new 0 2), small_alloc 3 [1 \<mapsto> ?one], w1)" "ram_ready (dev w1) 0"
    by (rule small_alloc_allocate [of "blank_world 2000" 0 0 Map.empty 1 ?one 3, OF _ fits(1)]) (simp_all add: adds)
  obtain w2 where 2: "allocate_clusters ram_bdev 1 2 (small_alloc 3 [1 \<mapsto> ?one], w1) =
      (Ok (ClusterRun_new 2 2), small_alloc 15 [1 \<mapsto> ?both], w2)" "ram_ready (dev w2) 0"
    by (rule small_alloc_allocate [of w1 3 2 "[1 \<mapsto> ?one]" 1 ?both 15, OF _ fits(2)]) (simp_all add: adds 1)
  obtain w3 where 3: "dwrite ram_bdev 0 1 10 (3 # replicate 511 0) w2 = (Ok (), w3)" "ram_ready (dev w3) 0"
    using ram_dwrite1 [OF 2(2), of "3 # replicate 511 0"] by auto
  have d: "deallocate_clusters ram_bdev 1 (ClusterRun_new 2 2) (small_alloc 15 [1 \<mapsto> ?both], w2) =
      (Ok (), small_alloc 3 [1 \<mapsto> ?both], w3)"
    using deallocate_clusters_cached [of "small_alloc 15 [1 \<mapsto> ?both]" "15 # replicate 511 0" "ClusterRun_new 2 2"
        1 ?both "3 # replicate 511 0" ram_bdev w2 w3] 3(1)
    by (simp add: small_alloc_def demo_bitmap_def wf_run_def run_end_def ClusterRun_new_def unmark_def upt_rec)
  obtain w4 where 4: "allocate_clusters ram_bdev 2 2 (small_alloc 3 [1 \<mapsto> ?both], w3) =
      (Ok (ClusterRun_new 2 2), small_alloc 15 [1 \<mapsto> ?both, 2 \<mapsto> ?two], w4)"
    by (rule small_alloc_allocate [of w3 3 2 "[1 \<mapsto> ?both]" 2 ?two 15, OF _ fits(2)]) (simp_all add: adds 3)
  show ?thesis by (simp add: 1 2 d 4 get_file_runs_def) (simp add: small_alloc_def)
qed

end
