(* ===== verification/Mft.thy ===== *)
theory Mft
  imports Cluster_Runs
begin

text \<open>
  The master file table, \<^verbatim>\<open>crates/galleon2/src/mft.rs\<close>: records of 1024 bytes with a header and a
  list of attributes, their byte format, and the manager that reads and writes a record inside its
  cluster.
\<close>

type_synonym FileRecordNumber = u64

definition MFT_RECORD_SIZE :: nat where "MFT_RECORD_SIZE = 1024"
definition MFT_RECORD_MFT :: FileRecordNumber where "MFT_RECORD_MFT = 0"
definition MFT_RECORD_MIRROR :: FileRecordNumber where "MFT_RECORD_MIRROR = 1"
definition MFT_RECORD_LOG :: FileRecordNumber where "MFT_RECORD_LOG = 2"
definition MFT_RECORD_ROOT :: FileRecordNumber where "MFT_RECORD_ROOT = 5"
definition MFT_RECORD_BITMAP :: FileRecordNumber where "MFT_RECORD_BITMAP = 6"


section \<open>Record flags and header\<close>

record RecordFlags =
  in_use :: bool
  is_directory :: bool
  has_view_index :: bool

definition RecordFlags_new :: RecordFlags where
  "RecordFlags_new = \<lparr>in_use = False, is_directory = False, has_view_index = False\<rparr>"

definition RecordFlags_to_u16 :: "RecordFlags \<Rightarrow> u16" where
  "RecordFlags_to_u16 self =
     (let flags = 0;
          flags = (if in_use self then flags OR 0x0001 else flags);
          flags = (if is_directory self then flags OR 0x0002 else flags);
          flags = (if has_view_index self then flags OR 0x0004 else flags)
      in flags)"

definition RecordFlags_from_u16 :: "u16 \<Rightarrow> RecordFlags" where
  "RecordFlags_from_u16 v =
     \<lparr>in_use = (v AND 0x0001 \<noteq> 0), is_directory = (v AND 0x0002 \<noteq> 0), has_view_index = (v AND 0x0004 \<noteq> 0)\<rparr>"

record MftRecordHeader =
  mh_signature :: bytes
  mh_update_sequence_offset :: u16
  mh_update_sequence_size :: u16
  mh_log_file_sequence_number :: u64
  mh_sequence_number :: u16
  mh_hard_link_count :: u16
  mh_first_attribute_offset :: u16
  mh_flags :: u16
  mh_bytes_in_use :: u32
  mh_bytes_allocated :: u32
  mh_base_file_record :: u64
  mh_next_attribute_id :: u16

text \<open>The bytes of \<^verbatim>\<open>b"FILE"\<close>.\<close>

definition FILE_SIGNATURE :: bytes where "FILE_SIGNATURE = [70, 73, 76, 69]"

definition MftRecordHeader_new :: "FileRecordNumber \<Rightarrow> MftRecordHeader" where
  "MftRecordHeader_new record_number =
     \<lparr>mh_signature = FILE_SIGNATURE, mh_update_sequence_offset = 48, mh_update_sequence_size = 3,
      mh_log_file_sequence_number = 0, mh_sequence_number = 1, mh_hard_link_count = 1,
      mh_first_attribute_offset = 56, mh_flags = RecordFlags_to_u16 RecordFlags_new,
      mh_bytes_in_use = 56, mh_bytes_allocated = of_nat MFT_RECORD_SIZE,
      mh_base_file_record = record_number, mh_next_attribute_id = 0\<rparr>"

definition MftRecordHeader_is_valid :: "MftRecordHeader \<Rightarrow> bool" where
  "MftRecordHeader_is_valid self \<longleftrightarrow> mh_signature self = FILE_SIGNATURE
     \<and> mh_bytes_in_use self \<le> mh_bytes_allocated self
     \<and> mh_bytes_allocated self = of_nat MFT_RECORD_SIZE"

definition get_flags :: "MftRecordHeader \<Rightarrow> RecordFlags" where
  "get_flags self = RecordFlags_from_u16 (mh_flags self)"

definition set_flags :: "RecordFlags \<Rightarrow> MftRecordHeader \<Rightarrow> MftRecordHeader" where
  "set_flags flags self = self\<lparr>mh_flags := RecordFlags_to_u16 flags\<rparr>"


section \<open>Attributes\<close>

datatype AttributeType = StandardInformation | FileName | Data | IndexRoot | IndexAllocation | Bitmap

fun attr_type_code :: "AttributeType \<Rightarrow> u32" where
  "attr_type_code StandardInformation = 0x10"
| "attr_type_code FileName = 0x30"
| "attr_type_code Data = 0x80"
| "attr_type_code IndexRoot = 0x90"
| "attr_type_code IndexAllocation = 0xA0"
| "attr_type_code Bitmap = 0xB0"

record AttributeHeader =
  ah_attr_type :: u32
  ah_length :: u32
  ah_non_resident :: bool
  ah_name_length :: u8
  ah_name_offset :: u16
  ah_flags :: u16
  ah_attribute_id :: u16

datatype AttributeData =
    Resident bytes
  | NonResident "ClusterRun list" u64 u64 u64

record Attribute =
  at_header :: AttributeHeader
  at_name :: string
  at_data :: AttributeData

definition new_resident :: "AttributeType \<Rightarrow> bytes \<Rightarrow> (fs_error, Attribute) res" where
  "new_resident attr_type data =
     bind_res (add_ck 24 (of_nat (length data) :: u32)) (\<lambda>len.
       Ok \<lparr>at_header = \<lparr>ah_attr_type = attr_type_code attr_type, ah_length = len,
             ah_non_resident = False, ah_name_length = 0, ah_name_offset = 24, ah_flags = 0,
             ah_attribute_id = 0\<rparr>,
           at_name = [], at_data = Resident data\<rparr>)"

fun sum_allocated :: "ClusterRun list \<Rightarrow> u64 \<Rightarrow> (fs_error, u64) res" where
  "sum_allocated [] acc = Ok acc"
| "sum_allocated (r # rs) acc =
     bind_res (mul_ck (cluster_count r) 4096) (\<lambda>n. bind_res (add_ck acc n) (sum_allocated rs))"

definition new_non_resident :: "AttributeType \<Rightarrow> ClusterRun list \<Rightarrow> u64 \<Rightarrow> (fs_error, Attribute) res" where
  "new_non_resident attr_type rs real_size =
     bind_res (sum_allocated rs 0) (\<lambda>allocated_size.
       Ok \<lparr>at_header = \<lparr>ah_attr_type = attr_type_code attr_type, ah_length = 64,
             ah_non_resident = True, ah_name_length = 0, ah_name_offset = 64, ah_flags = 0,
             ah_attribute_id = 0\<rparr>,
           at_name = [], at_data = NonResident rs allocated_size real_size real_size\<rparr>)"

definition get_size :: "Attribute \<Rightarrow> u32" where
  "get_size self = ah_length (at_header self)"

definition attribute_header_bytes :: "AttributeHeader \<Rightarrow> bytes" where
  "attribute_header_bytes h =
     to_le_bytes (ah_attr_type h) @ to_le_bytes (ah_length h) @ [if ah_non_resident h then 1 else 0]
     @ [ah_name_length h] @ to_le_bytes (ah_name_offset h) @ to_le_bytes (ah_flags h)
     @ to_le_bytes (ah_attribute_id h)"

fun attribute_run_bytes :: "ClusterRun list \<Rightarrow> bytes" where
  "attribute_run_bytes [] = []"
| "attribute_run_bytes (r # rs) =
     to_le_bytes (cluster_count r) @ to_le_bytes (start_cluster r) @ attribute_run_bytes rs"

definition Attribute_serialize :: "Attribute \<Rightarrow> bytes" where
  "Attribute_serialize self = pad8 (attribute_header_bytes (at_header self) @ (case at_data self of
     Resident content \<Rightarrow>
       to_le_bytes (of_nat (length content) :: u32) @ to_le_bytes (24 :: u16) @ to_le_bytes (0 :: u16) @ content
   | NonResident rs allocated_size real_size initialized_size \<Rightarrow>
       to_le_bytes (0 :: u64) @ to_le_bytes (0 :: u64) @ to_le_bytes (40 :: u16) @ to_le_bytes (0 :: u16)
       @ to_le_bytes (0 :: u32) @ to_le_bytes allocated_size @ to_le_bytes real_size
       @ to_le_bytes initialized_size @ attribute_run_bytes rs @ [0]))"

definition Attribute_deserialize :: "bytes \<Rightarrow> (fs_error, Attribute) res" where
  "Attribute_deserialize data =
     (if length data < 16 then Err InvalidParameter
      else
        let non_resident = (data ! 8 \<noteq> 0);
            header = \<lparr>ah_attr_type = get_le 0 data, ah_length = get_le 4 data,
              ah_non_resident = non_resident, ah_name_length = data ! 9,
              ah_name_offset = get_le 10 data, ah_flags = get_le 12 data, ah_attribute_id = get_le 14 data\<rparr>
        in bind_res
             (if non_resident then
                bind_res (get_le_ck 32 data) (\<lambda>allocated_size.
                bind_res (get_le_ck 40 data) (\<lambda>real_size.
                bind_res (get_le_ck 48 data) (\<lambda>initialized_size.
                  Ok (NonResident [] allocated_size real_size initialized_size))))
              else
                bind_res (get_le_ck 16 data) (\<lambda>content_size :: u32.
                bind_res (get_le_ck 20 data) (\<lambda>data_offset :: u16.
                bind_res (slice data (unat data_offset) (unat data_offset + unat content_size)) (\<lambda>content.
                  Ok (Resident content)))))
             (\<lambda>attr_data. Ok \<lparr>at_header = header, at_name = [], at_data = attr_data\<rparr>))"


section \<open>Records\<close>

record MftRecord =
  mr_header :: MftRecordHeader
  mr_attributes :: "Attribute list"
  mr_record_number :: FileRecordNumber

definition MftRecord_new :: "FileRecordNumber \<Rightarrow> MftRecord" where
  "MftRecord_new record_number =
     \<lparr>mr_header = MftRecordHeader_new record_number, mr_attributes = [], mr_record_number = record_number\<rparr>"

fun add_sizes :: "Attribute list \<Rightarrow> u32 \<Rightarrow> (fs_error, u32) res" where
  "add_sizes [] tot = Ok tot"
| "add_sizes (a # as) tot = bind_res (add_ck tot (get_size a)) (add_sizes as)"

definition update_bytes_in_use :: "MftRecord \<Rightarrow> (fs_error, MftRecord) res" where
  "update_bytes_in_use self =
     bind_res (add_sizes (mr_attributes self) (ucast (mh_first_attribute_offset (mr_header self)))) (\<lambda>tot.
     bind_res (add_ck tot 4) (\<lambda>tot.
       Ok (self\<lparr>mr_header := (mr_header self)\<lparr>mh_bytes_in_use := tot\<rparr>\<rparr>)))"

definition add_attribute :: "Attribute \<Rightarrow> MftRecord \<Rightarrow> (fs_error, MftRecord) res" where
  "add_attribute attr self =
     bind_res (add_ck (mh_next_attribute_id (mr_header self)) 1) (\<lambda>i.
       update_bytes_in_use (self\<lparr>mr_attributes := mr_attributes self @ [attr],
         mr_header := (mr_header self)\<lparr>mh_next_attribute_id := i\<rparr>\<rparr>))"

definition header_onto :: "MftRecordHeader \<Rightarrow> bytes \<Rightarrow> bytes" where
  "header_onto h d =
     (let d = splice d 0 (mh_signature h);
          d = splice d 4 (to_le_bytes (mh_update_sequence_offset h));
          d = splice d 6 (to_le_bytes (mh_update_sequence_size h));
          d = splice d 8 (to_le_bytes (mh_log_file_sequence_number h));
          d = splice d 16 (to_le_bytes (mh_sequence_number h));
          d = splice d 18 (to_le_bytes (mh_hard_link_count h));
          d = splice d 20 (to_le_bytes (mh_first_attribute_offset h));
          d = splice d 22 (to_le_bytes (mh_flags h));
          d = splice d 24 (to_le_bytes (mh_bytes_in_use h));
          d = splice d 28 (to_le_bytes (mh_bytes_allocated h));
          d = splice d 32 (to_le_bytes (mh_base_file_record h));
          d = splice d 40 (to_le_bytes (mh_next_attribute_id h))
      in d)"

fun serialize_attrs :: "Attribute list \<Rightarrow> nat \<Rightarrow> bytes \<Rightarrow> (fs_error, bytes \<times> nat) res" where
  "serialize_attrs [] offset d = Ok (d, offset)"
| "serialize_attrs (a # as) offset d =
     (let attr_data = Attribute_serialize a in
      bind_res (put d offset attr_data) (\<lambda>d. serialize_attrs as (offset + length attr_data) d))"

definition MftRecord_serialize :: "MftRecord \<Rightarrow> (fs_error, bytes) res" where
  "MftRecord_serialize self =
     (let d = header_onto (mr_header self) (replicate MFT_RECORD_SIZE 0);
          offset = unat (mh_first_attribute_offset (mr_header self))
      in bind_res (serialize_attrs (mr_attributes self) offset d) (\<lambda>(d, offset).
           put d offset (to_le_bytes (0xFFFFFFFF :: u32))))"

text \<open>
  The attribute loop of \<^verbatim>\<open>MftRecord::deserialize\<close>. An attribute whose length field is 0 does not
  advance the offset: the loop pushes the same attribute until the allocation of the vector fails,
  which panics.
\<close>

function parse_attrs :: "bytes \<Rightarrow> nat \<Rightarrow> nat \<Rightarrow> Attribute list \<Rightarrow> (fs_error, Attribute list) res" where
  "parse_attrs data bytes_in_use offset attributes =
     (if offset < bytes_in_use then
        bind_res (get_le_ck offset data) (\<lambda>attr_type :: u32.
          if attr_type = 0xFFFFFFFF then Ok attributes
          else
            bind_res (Attribute_deserialize (drop offset data)) (\<lambda>attr.
              if get_size attr = 0 then Panic
              else parse_attrs data bytes_in_use (offset + unat (get_size attr)) (attributes @ [attr])))
      else Ok attributes)"
  by pat_completeness auto
termination
proof (relation "measure (\<lambda>(d, n, i, as). n - i)", goal_cases)
  case (2 data n i as x attr)
  then have "0 < unat (get_size attr)" by (simp add: unat_gt_0)
  with 2 show ?case by simp
qed simp

declare parse_attrs.simps [simp del]

definition header_of_bytes :: "bytes \<Rightarrow> MftRecordHeader" where
  "header_of_bytes data =
     \<lparr>mh_signature = window 4 0 data, mh_update_sequence_offset = get_le 4 data,
      mh_update_sequence_size = get_le 6 data, mh_log_file_sequence_number = get_le 8 data,
      mh_sequence_number = get_le 16 data, mh_hard_link_count = get_le 18 data,
      mh_first_attribute_offset = get_le 20 data, mh_flags = get_le 22 data,
      mh_bytes_in_use = get_le 24 data, mh_bytes_allocated = get_le 28 data,
      mh_base_file_record = get_le 32 data, mh_next_attribute_id = get_le 40 data\<rparr>"

definition MftRecord_deserialize :: "bytes \<Rightarrow> FileRecordNumber \<Rightarrow> (fs_error, MftRecord) res" where
  "MftRecord_deserialize data record_number =
     (if length data < MFT_RECORD_SIZE then Err InvalidParameter
      else
        let header = header_of_bytes data in
        if \<not> MftRecordHeader_is_valid header then Err InvalidParameter
        else bind_res (parse_attrs data (unat (mh_bytes_in_use header))
                         (unat (mh_first_attribute_offset header)) []) (\<lambda>attributes.
               Ok \<lparr>mr_header = header, mr_attributes = attributes, mr_record_number = record_number\<rparr>))"


section \<open>The manager\<close>

record MftManager =
  mm_drive :: u8
  mft_start_cluster :: u64
  mm_cluster_size :: u32

definition MftManager_new :: "u8 \<Rightarrow> u64 \<Rightarrow> u32 \<Rightarrow> MftManager" where
  "MftManager_new drive start sz = \<lparr>mm_drive = drive, mft_start_cluster = start, mm_cluster_size = sz\<rparr>"

text \<open>Where a record lives: the sectors per cluster, the first sector of its cluster, its offset there.\<close>

definition record_location :: "MftManager \<Rightarrow> FileRecordNumber \<Rightarrow> (fs_error, u64 \<times> u64 \<times> nat) res" where
  "record_location self record_number =
     (let records_per_cluster = unat (mm_cluster_size self) div MFT_RECORD_SIZE in
      if records_per_cluster = 0 then Err InvalidParameter
      else
        let cluster_offset = record_number div of_nat records_per_cluster;
            record_offset = unat (record_number mod of_nat records_per_cluster) * MFT_RECORD_SIZE;
            sectors_per_cluster = as_u64 (max (mm_cluster_size self div 512) 1)
        in bind_res (add_ck (mft_start_cluster self) cluster_offset) (\<lambda>c.
           bind_res (mul_ck c sectors_per_cluster) (\<lambda>cluster_sector.
             Ok (sectors_per_cluster, cluster_sector, record_offset))))"

definition read_record :: "'v bdev \<Rightarrow> MftManager \<Rightarrow> FileRecordNumber \<Rightarrow> ('v, MftRecord) fs" where
  "read_record B self record_number =
     bnd (lift_res (record_location self record_number)) (\<lambda>(sectors_per_cluster, cluster_sector, record_offset).
     bnd (lift_res (slice (replicate 4096 0) 0 (unat (mm_cluster_size self)))) (\<lambda>buf.
     bnd (dread B (mm_drive self) (as_u8 sectors_per_cluster) (as_u32 cluster_sector) buf) (\<lambda>buf.
     let cluster_data = splice (replicate 4096 0) 0 buf in
     bnd (lift_res (slice cluster_data record_offset (record_offset + MFT_RECORD_SIZE))) (\<lambda>record_data.
       lift_res (MftRecord_deserialize record_data record_number)))))"

definition write_record :: "'v bdev \<Rightarrow> MftManager \<Rightarrow> MftRecord \<Rightarrow> ('v, unit) fs" where
  "write_record B self rec =
     bnd (lift_res (record_location self (mr_record_number rec))) (\<lambda>(sectors_per_cluster, cluster_sector, record_offset).
     bnd (lift_res (slice (replicate 4096 0) 0 (unat (mm_cluster_size self)))) (\<lambda>buf.
     bnd (dread B (mm_drive self) (as_u8 sectors_per_cluster) (as_u32 cluster_sector) buf) (\<lambda>buf.
     let cluster_data = splice (replicate 4096 0) 0 buf in
     bnd (lift_res (MftRecord_serialize rec)) (\<lambda>record_data.
     bnd (lift_res (put cluster_data record_offset record_data)) (\<lambda>cluster_data.
     bnd (lift_res (slice cluster_data 0 (unat (mm_cluster_size self)))) (\<lambda>out.
       dwrite B (mm_drive self) (as_u8 sectors_per_cluster) (as_u32 cluster_sector) out))))))"

definition allocate_record :: "MftManager \<Rightarrow> ('v, FileRecordNumber) fs" where
  "allocate_record self = (\<lambda>w.
     case add_ck (NEXT_RECORD w) 1 of
       Ok n \<Rightarrow> (Ok (NEXT_RECORD w), w\<lparr>NEXT_RECORD := n\<rparr>)
     | Err e \<Rightarrow> (Err e, w)
     | Panic \<Rightarrow> (Panic, w))"


section \<open>Round trips\<close>

lemma RecordFlags_from_to: "RecordFlags_from_u16 (RecordFlags_to_u16 f) = f"
  by (cases f) (simp add: RecordFlags_from_u16_def RecordFlags_to_u16_def)

lemma get_le_Cons [simp]: "0 < j \<Longrightarrow> get_le j (x # xs) = get_le (j - 1) xs"
  by (cases j) (simp_all add: get_le_def window_def)

lemma window_Cons [simp]: "0 < j \<Longrightarrow> window n j (x # xs) = window n (j - 1) xs"
  by (cases j) (simp_all add: window_def)

lemma length_attribute_header_bytes [simp]: "length (attribute_header_bytes h) = 16"
  by (simp add: attribute_header_bytes_def)

text \<open>A resident attribute as the constructor makes it, for contents that fit the length field.\<close>

definition resident_ok :: "Attribute \<Rightarrow> bool" where
  "resident_ok a \<longleftrightarrow> (\<exists>content. at_data a = Resident content \<and> length content + 24 < 2 ^ 32
     \<and> unat (ah_length (at_header a)) = 24 + length content)
     \<and> \<not> ah_non_resident (at_header a) \<and> at_name a = []"

lemma new_resident_ok:
  assumes "length content + 24 < 2 ^ 32"
  shows "\<exists>a. new_resident ty content = Ok a \<and> resident_ok a \<and> at_data a = Resident content
     \<and> ah_attr_type (at_header a) = attr_type_code ty"
proof -
  have l: "unat (of_nat (length content) :: u32) = length content"
    using assms by (simp add: unat_of_nat)
  have b: "unat (24 :: u32) + unat (of_nat (length content) :: u32) < 2 ^ LENGTH(32)"
    using assms l by simp
  from unat_add_no_wrap [OF b] l have "unat ((24 :: u32) + of_nat (length content)) = 24 + length content"
    by simp
  then show ?thesis
    using b assms by (simp add: new_resident_def add_ck_def resident_ok_def)
qed

lemma Attribute_roundtrip:
  assumes "resident_ok a"
  shows "Attribute_deserialize (Attribute_serialize a @ rest) = Ok a"
proof -
  from assms obtain content where c: "at_data a = Resident content" "length content + 24 < 2 ^ 32"
    and h: "\<not> ah_non_resident (at_header a)" "at_name a = []"
    by (auto simp: resident_ok_def)
  define tail where "tail = replicate ((8 - (24 + length content) mod 8) mod 8) 0 @ rest"
  have d: "Attribute_serialize a @ rest = attribute_header_bytes (at_header a)
      @ to_le_bytes (of_nat (length content) :: u32) @ to_le_bytes (24 :: u16) @ to_le_bytes (0 :: u16)
      @ content @ tail"
    by (simp add: Attribute_serialize_def c pad8_eq tail_def)
  have n: "unat (of_nat (length content) :: u32) = length content"
    using c(2) by (simp add: unat_of_nat)
  show ?thesis
    unfolding d Attribute_deserialize_def
    using h c n by (simp add: attribute_header_bytes_def nth_append Let_def)
qed

lemma length_Attribute_serialize:
  assumes "resident_ok a" and "8 dvd unat (get_size a)"
  shows "length (Attribute_serialize a) = unat (get_size a)"
proof -
  from assms obtain content where "at_data a = Resident content" "unat (get_size a) = 24 + length content"
    by (auto simp: resident_ok_def get_size_def)
  moreover from this assms(2) have "length content mod 8 = 0" by presburger
  ultimately show ?thesis
    by (simp add: Attribute_serialize_def length_pad8) presburger
qed

definition attr_sum :: "Attribute list \<Rightarrow> nat" where
  "attr_sum as = sum_list (map (\<lambda>a. unat (get_size a)) as)"

definition attr_ok :: "Attribute \<Rightarrow> bool" where
  "attr_ok a \<longleftrightarrow> resident_ok a \<and> 8 dvd unat (get_size a) \<and> ah_attr_type (at_header a) \<noteq> 0xFFFFFFFF"

text \<open>A record the format can hold: resident attributes of aligned length that fit the 1024 bytes.\<close>

definition record_ok :: "MftRecord \<Rightarrow> bool" where
  "record_ok r \<longleftrightarrow> mh_signature (mr_header r) = FILE_SIGNATURE
     \<and> mh_first_attribute_offset (mr_header r) = 56
     \<and> mh_bytes_allocated (mr_header r) = of_nat MFT_RECORD_SIZE
     \<and> unat (mh_bytes_in_use (mr_header r)) = 60 + attr_sum (mr_attributes r)
     \<and> 60 + attr_sum (mr_attributes r) \<le> MFT_RECORD_SIZE
     \<and> (\<forall>a\<in>set (mr_attributes r). attr_ok a)"

lemma attr_sum_simps [simp]:
  "attr_sum [] = 0" "attr_sum (a # as) = unat (get_size a) + attr_sum as"
  "attr_sum (as @ bs) = attr_sum as + attr_sum bs"
  by (simp_all add: attr_sum_def)

lemma length_attrs: "\<forall>a\<in>set as. attr_ok a \<Longrightarrow> length (concat (map Attribute_serialize as)) = attr_sum as"
  by (induction as) (auto simp: attr_ok_def length_Attribute_serialize)

lemma attr_size_pos: "attr_ok a \<Longrightarrow> 24 \<le> unat (get_size a)"
  by (auto simp: attr_ok_def resident_ok_def get_size_def)

lemma splice_zeros:
  "length A = i \<Longrightarrow> length xs \<le> n \<Longrightarrow> splice (A @ replicate n 0) i xs = A @ xs @ replicate (n - length xs) 0"
  by (simp add: splice_def)

lemma serialize_attrs_ok:
  assumes "\<forall>a\<in>set as. attr_ok a" and "length A = offset" and "attr_sum as \<le> n"
  shows "serialize_attrs as offset (A @ replicate n 0) =
     Ok (A @ concat (map Attribute_serialize as) @ replicate (n - attr_sum as) 0, offset + attr_sum as)"
  using assms
proof (induction as arbitrary: A offset n)
  case (Cons a as)
  have l: "length (Attribute_serialize a) = unat (get_size a)"
    using Cons.prems(1) by (simp add: attr_ok_def length_Attribute_serialize)
  have "serialize_attrs as (offset + unat (get_size a))
      ((A @ Attribute_serialize a) @ replicate (n - unat (get_size a)) 0) =
     Ok ((A @ Attribute_serialize a) @ concat (map Attribute_serialize as)
           @ replicate (n - unat (get_size a) - attr_sum as) 0, offset + unat (get_size a) + attr_sum as)"
    using Cons.prems l by (intro Cons.IH) simp_all
  then show ?case
    using Cons.prems l by (simp add: splice_zeros Let_def add.assoc)
qed simp

definition record_header_bytes :: "MftRecordHeader \<Rightarrow> bytes" where
  "record_header_bytes h = mh_signature h @ to_le_bytes (mh_update_sequence_offset h)
     @ to_le_bytes (mh_update_sequence_size h) @ to_le_bytes (mh_log_file_sequence_number h)
     @ to_le_bytes (mh_sequence_number h) @ to_le_bytes (mh_hard_link_count h)
     @ to_le_bytes (mh_first_attribute_offset h) @ to_le_bytes (mh_flags h)
     @ to_le_bytes (mh_bytes_in_use h) @ to_le_bytes (mh_bytes_allocated h)
     @ to_le_bytes (mh_base_file_record h) @ to_le_bytes (mh_next_attribute_id h)"

lemma splice_zeros' :
  "length A + length xs \<le> length A + n \<Longrightarrow> splice (A @ replicate n 0) (length A) xs = (A @ xs) @ replicate (n - length xs) 0"
  by (simp add: splice_zeros)

lemma header_onto_zeros:
  assumes "length (mh_signature h) = 4" and "42 \<le> n"
  shows "header_onto h (replicate n 0) = record_header_bytes h @ replicate (n - 42) 0"
  unfolding header_onto_def record_header_bytes_def Let_def
  using assms by (simp add: splice_def)

lemma header_of_record_bytes:
  assumes "length (mh_signature h) = 4"
  shows "header_of_bytes (record_header_bytes h @ rest) = h"
  using assms by (simp add: header_of_bytes_def record_header_bytes_def)

lemma length_record_header_bytes [simp]:
  "length (mh_signature h) = 4 \<Longrightarrow> length (record_header_bytes h) = 42"
  by (simp add: record_header_bytes_def)

lemma MftRecord_serialize_ok:
  assumes "record_ok r"
  shows "MftRecord_serialize r = Ok (record_header_bytes (mr_header r) @ replicate 14 0
     @ concat (map Attribute_serialize (mr_attributes r)) @ to_le_bytes (0xFFFFFFFF :: u32)
     @ replicate (964 - attr_sum (mr_attributes r)) 0)"
proof -
  let ?h = "mr_header r" and ?as = "mr_attributes r"
  have sig: "length (mh_signature ?h) = 4" using assms by (simp add: record_ok_def FILE_SIGNATURE_def)
  have fit: "60 + attr_sum ?as \<le> 1024" and ok: "\<forall>a\<in>set ?as. attr_ok a" and fao: "mh_first_attribute_offset ?h = 56"
    using assms by (auto simp: record_ok_def MFT_RECORD_SIZE_def)
  have "header_onto ?h (replicate MFT_RECORD_SIZE 0)
      = (record_header_bytes ?h @ replicate 14 0) @ replicate 968 0"
    using sig by (simp add: header_onto_zeros MFT_RECORD_SIZE_def flip: replicate_add)
  moreover have "serialize_attrs ?as 56 ((record_header_bytes ?h @ replicate 14 0) @ replicate 968 0) =
      Ok ((record_header_bytes ?h @ replicate 14 0) @ concat (map Attribute_serialize ?as)
          @ replicate (968 - attr_sum ?as) 0, 56 + attr_sum ?as)"
    using ok fit sig by (intro serialize_attrs_ok) simp_all
  ultimately show ?thesis
    using fao fit sig length_attrs [OF ok]
    by (simp add: MftRecord_serialize_def Let_def put_def splice_def)
qed

lemma attr_type_front: "get_le 0 (Attribute_serialize a @ rest) = ah_attr_type (at_header a)"
  by (simp add: Attribute_serialize_def pad8_eq attribute_header_bytes_def)

lemma parse_attrs_ok:
  assumes "\<forall>a\<in>set as. attr_ok a"
    and "drop offset data = concat (map Attribute_serialize as) @ to_le_bytes (0xFFFFFFFF :: u32) @ rest"
    and "n = offset + attr_sum as + 4"
  shows "parse_attrs data n offset acc = Ok (acc @ as)"
  using assms
proof (induction as arbitrary: offset acc)
  case Nil
  have "offset + 4 \<le> length data" using arg_cong [OF Nil.prems(2), of length] by simp
  moreover have "(get_le offset data :: u32) = 0xFFFFFFFF"
    using Nil.prems(2) get_le_drop [of 0 offset data, where 'a = 32] by simp
  ultimately show ?case using Nil.prems by (subst parse_attrs.simps) simp
next
  case (Cons a as)
  let ?tail = "concat (map Attribute_serialize as) @ to_le_bytes (0xFFFFFFFF :: u32) @ rest"
  have d: "drop offset data = Attribute_serialize a @ ?tail" using Cons.prems(2) by simp
  have l: "length (Attribute_serialize a) = unat (get_size a)" and ok: "resident_ok a"
    using Cons.prems(1) by (auto simp: attr_ok_def length_Attribute_serialize)
  have pos: "24 \<le> unat (get_size a)" using Cons.prems(1) attr_size_pos by simp
  have "offset + 4 \<le> length data" using arg_cong [OF d, of length] l pos by simp
  then have "get_le_ck offset data = (Ok (get_le offset data) :: (fs_error, u32) res)" by simp
  moreover have "(get_le offset data :: u32) = ah_attr_type (at_header a)"
    using get_le_drop [of 0 offset data, where 'a = 32] d attr_type_front by simp
  moreover have "Attribute_deserialize (drop offset data) = Ok a"
    unfolding d using ok by (rule Attribute_roundtrip)
  moreover have "get_size a \<noteq> 0" using pos by auto
  moreover have "drop (offset + unat (get_size a)) data = ?tail"
    using d l by (metis add.commute append_eq_conv_conj drop_drop)
  then have "parse_attrs data n (offset + unat (get_size a)) (acc @ [a]) = Ok ((acc @ [a]) @ as)"
    using Cons.prems by (intro Cons.IH) simp_all
  ultimately show ?case
    using Cons.prems(1,3) by (subst parse_attrs.simps) (simp add: attr_ok_def)
qed

lemma MftRecord_roundtrip_bytes:
  assumes "record_ok r"
  shows "\<exists>d. MftRecord_serialize r = Ok d \<and> length d = MFT_RECORD_SIZE
     \<and> MftRecord_deserialize d (mr_record_number r) = Ok r"
proof -
  let ?h = "mr_header r" and ?as = "mr_attributes r"
  let ?d = "record_header_bytes ?h @ replicate 14 0 @ concat (map Attribute_serialize ?as)
     @ to_le_bytes (0xFFFFFFFF :: u32) @ replicate (964 - attr_sum ?as) 0"
  have sig: "length (mh_signature ?h) = 4" using assms by (simp add: record_ok_def FILE_SIGNATURE_def)
  have ok: "\<forall>a\<in>set ?as. attr_ok a" and fao: "mh_first_attribute_offset ?h = 56"
    and n: "unat (mh_bytes_in_use ?h) = 60 + attr_sum ?as" and le: "60 + attr_sum ?as \<le> 1024"
    and al: "mh_bytes_allocated ?h = 1024"
    using assms by (auto simp: record_ok_def MFT_RECORD_SIZE_def)
  have len: "length ?d = 1024" using sig le length_attrs [OF ok] by simp
  have hdr: "header_of_bytes ?d = ?h" using sig by (rule header_of_record_bytes)
  have "parse_attrs ?d (unat (mh_bytes_in_use ?h)) 56 [] = Ok ([] @ ?as)"
    using sig n by (intro parse_attrs_ok [OF ok]) simp_all
  moreover have "MftRecordHeader_is_valid ?h"
    using assms n le by (auto simp: MftRecordHeader_is_valid_def record_ok_def word_le_nat_alt MFT_RECORD_SIZE_def)
  ultimately show ?thesis
    using MftRecord_serialize_ok [OF assms] len hdr fao
    by (simp add: MftRecord_deserialize_def Let_def MFT_RECORD_SIZE_def)
qed


section \<open>Records on disk\<close>

definition rec_sector :: "MftManager \<Rightarrow> FileRecordNumber \<Rightarrow> nat" where
  "rec_sector mm rn = (unat (mft_start_cluster mm) + unat rn div 4) * 8"

definition rec_offset :: "FileRecordNumber \<Rightarrow> nat" where
  "rec_offset rn = unat rn mod 4 * 1024"

text \<open>The cluster size the filesystem uses, and a record inside the LBA28 space.\<close>

definition mm_ok :: "MftManager \<Rightarrow> FileRecordNumber \<Rightarrow> bool" where
  "mm_ok mm rn \<longleftrightarrow> mm_cluster_size mm = 4096 \<and> rec_sector mm rn + 8 \<le> 2 ^ 28"

definition disk_record :: "('v \<Rightarrow> u8 \<Rightarrow> store) \<Rightarrow> MftManager \<Rightarrow> FileRecordNumber \<Rightarrow> 'v \<Rightarrow> bytes" where
  "disk_record sec mm rn v = window 1024 (rec_offset rn) (read_sectors (sec v (mm_drive mm)) (rec_sector mm rn) 8)"

lemma rec_offset_le: "rec_offset rn + 1024 \<le> 4096"
proof -
  have "unat rn mod 4 \<le> 3" by (rule Suc_le_eq [THEN iffD1, THEN less_Suc_eq_le [THEN iffD1]]) simp
  then show ?thesis by (simp add: rec_offset_def)
qed

lemma record_location_ok:
  assumes "mm_ok mm rn"
  obtains s where "record_location mm rn = Ok (8, s, rec_offset rn)"
    and "unat (as_u32 s) = rec_sector mm rn" and "unat (as_u8 (8 :: u64)) = 8"
proof -
  from assms have cs: "mm_cluster_size mm = 4096" and b: "rec_sector mm rn + 8 \<le> 2 ^ 28"
    by (auto simp: mm_ok_def)
  have small: "unat (mft_start_cluster mm) + unat rn div 4 < 2 ^ 28"
    using b by (simp add: rec_sector_def)
  then obtain c where c: "add_ck (mft_start_cluster mm) (rn div 4) = (Ok c :: (fs_error, u64) res)"
    "unat c = unat (mft_start_cluster mm) + unat rn div 4"
    by (simp add: add_ck_def unat_add_no_wrap unat_div)
  then have s: "mul_ck c 8 = (Ok (c * 8) :: (fs_error, u64) res)" "unat (c * 8) = rec_sector mm rn"
    using small by (simp_all add: mul_ck_def unat_mult_no_wrap rec_sector_def)
  have "record_location mm rn = Ok (8, c * 8, rec_offset rn)"
    using c s
    by (simp add: record_location_def cs MFT_RECORD_SIZE_def Let_def max_def word_le_nat_alt rec_offset_def unat_mod)
  moreover have "unat (as_u32 (c * 8)) = rec_sector mm rn"
    using s(2) b by (simp add: ucast_small)
  ultimately show thesis by (intro that) simp_all
qed

lemma splice_all: "length buf = length d \<Longrightarrow> splice d 0 buf = buf"
  by (simp add: splice_def)

lemma sectors_disjoint:
  "rec_sector mm rn \<noteq> rec_sector mm rn' \<Longrightarrow>
     rec_sector mm rn + 8 \<le> rec_sector mm rn' \<or> rec_sector mm rn' + 8 \<le> rec_sector mm rn"
  by (auto simp: rec_sector_def)

lemma same_cluster_offset:
  "rec_sector mm rn = rec_sector mm rn' \<Longrightarrow> rn \<noteq> rn' \<Longrightarrow> rec_offset rn \<noteq> rec_offset rn'"
  by (auto simp: rec_sector_def rec_offset_def word_unat_eq_iff) (metis div_mult_mod_eq)

context block_device
begin

lemma wp_read_record:
  assumes "mm_ok mm rn" and "ready (dev w) (mm_drive mm)"
    and "\<And>v. sec v = sec (dev w) \<Longrightarrow> ready v = ready (dev w) \<Longrightarrow>
      Q (MftRecord_deserialize (disk_record sec mm rn (dev w)) rn) (w\<lparr>dev := v\<rparr>)"
  shows "wp (read_record B mm rn) w Q"
proof -
  from assms(1) obtain s where loc: "record_location mm rn = Ok (8, s, rec_offset rn)"
    and s: "unat (as_u32 s) = rec_sector mm rn" and n: "unat (as_u8 (8 :: u64)) = 8"
    by (rule record_location_ok)
  have cs: "unat (mm_cluster_size mm) = 4096" using assms(1) by (simp add: mm_ok_def)
  let ?c = "read_sectors (sec (dev w) (mm_drive mm)) (rec_sector mm rn) 8"
  have len: "length ?c = 4096" using sec_sectored by simp
  define rest where "rest = (\<lambda>buf. let cluster_data = splice (replicate 4096 0) 0 buf in
     bnd (lift_res (slice cluster_data (rec_offset rn) (rec_offset rn + MFT_RECORD_SIZE))) (\<lambda>record_data.
       (lift_res (MftRecord_deserialize record_data rn) :: ('v, MftRecord) fs)))"
  have rest: "wp (rest ?c) w' Q \<longleftrightarrow> Q (MftRecord_deserialize (disk_record sec mm rn (dev w)) rn) w'" for w'
    using len rec_offset_le [of rn]
    by (simp add: rest_def splice_all wp_bnd wp_lift_res MFT_RECORD_SIZE_def disk_record_def Let_def)
  have "wp (dread B (mm_drive mm) (as_u8 (8 :: u64)) (as_u32 s) (replicate 4096 0)) w (\<lambda>r w'. case r of
      Ok buf \<Rightarrow> wp (rest buf) w' Q | Err e \<Rightarrow> Q (Err e) w' | Panic \<Rightarrow> Q Panic w')"
    by (rule wp_dread) (use assms s n rest in \<open>simp_all add: mm_ok_def\<close>)
  then show ?thesis
    by (simp add: read_record_def loc cs wp_bnd wp_lift_res rest_def cong: res.case_cong)
qed

lemma wp_write_record:
  assumes "mm_ok mm (mr_record_number r)" and "ready (dev w) (mm_drive mm)"
    and "MftRecord_serialize r = Ok d" and "length d = MFT_RECORD_SIZE"
    and "\<And>v. ready v = ready (dev w) \<Longrightarrow> disk_record sec mm (mr_record_number r) v = d \<Longrightarrow>
      (\<And>rn. rn \<noteq> mr_record_number r \<Longrightarrow> disk_record sec mm rn v = disk_record sec mm rn (dev w)) \<Longrightarrow>
      (\<And>e k. e \<noteq> mm_drive mm \<or> k < rec_sector mm (mr_record_number r) \<or> rec_sector mm (mr_record_number r) + 8 \<le> k
         \<Longrightarrow> sec v e k = sec (dev w) e k) \<Longrightarrow> Q (Ok ()) (w\<lparr>dev := v\<rparr>)"
  shows "wp (write_record B mm r) w Q"
proof -
  let ?rn = "mr_record_number r" and ?d = "mm_drive mm"
  from assms(1) obtain s where loc: "record_location mm ?rn = Ok (8, s, rec_offset ?rn)"
    and s: "unat (as_u32 s) = rec_sector mm ?rn" and n: "unat (as_u8 (8 :: u64)) = 8"
    by (rule record_location_ok)
  have cs: "unat (mm_cluster_size mm) = 4096" using assms(1) by (simp add: mm_ok_def)
  let ?c = "read_sectors (sec (dev w) ?d) (rec_sector mm ?rn) 8"
  let ?c' = "splice ?c (rec_offset ?rn) d"
  have len: "length ?c = 4096" using sec_sectored by simp
  have ld: "length d = 1024" using assms(4) by (simp add: MFT_RECORD_SIZE_def)
  have off: "rec_offset ?rn + 1024 \<le> 4096" by (rule rec_offset_le)
  have len': "length ?c' = 4096" using len ld off by simp
  define rest where "rest = (\<lambda>buf. let cluster_data = splice (replicate 4096 0) 0 buf in
     bnd (lift_res (MftRecord_serialize r)) (\<lambda>record_data.
     bnd (lift_res (put cluster_data (rec_offset ?rn) record_data)) (\<lambda>cluster_data.
     bnd (lift_res (slice cluster_data 0 (unat (mm_cluster_size mm)))) (\<lambda>out.
       dwrite B ?d (as_u8 (8 :: u64)) (as_u32 s) out))))"
  have "wp (dwrite B ?d (as_u8 (8 :: u64)) (as_u32 s) ?c') (w\<lparr>dev := v\<rparr>) Q"
    if v: "sec v = sec (dev w)" "ready v = ready (dev w)" for v
  proof (rule wp_dwrite)
    fix v'
    assume v': "sec v' = (sec (dev (w\<lparr>dev := v\<rparr>)))(?d := write_sectors (sec (dev (w\<lparr>dev := v\<rparr>)) ?d)
        (unat (as_u32 s)) (unat (as_u8 (8 :: u64))) ?c')" and rdy: "ready v' = ready (dev (w\<lparr>dev := v\<rparr>))"
    have sec': "sec v' = (sec (dev w))(?d := write_sectors (sec (dev w) ?d) (rec_sector mm ?rn) 8 ?c')"
      using v v' s n by simp
    have same: "read_sectors (sec v' ?d) (rec_sector mm ?rn) 8 = ?c'"
      using len' by (simp add: sec' read_write_sectors_same)
    have "disk_record sec mm rn v' = disk_record sec mm rn (dev w)" if "rn \<noteq> ?rn" for rn
    proof (cases "rec_sector mm rn = rec_sector mm ?rn")
      case False
      with sectors_disjoint [of mm rn ?rn] show ?thesis
        by (auto simp: disk_record_def sec' intro!: arg_cong [where f = "window 1024 (rec_offset rn)"]
            read_write_sectors_other)
    next
      case True
      then have "rec_offset rn \<noteq> rec_offset ?rn" using same_cluster_offset that by metis
      then have "rec_offset rn + 1024 \<le> rec_offset ?rn \<or> rec_offset ?rn + 1024 \<le> rec_offset rn"
        by (auto simp: rec_offset_def)
      then show ?thesis
        using True same len ld off by (auto simp: disk_record_def)
    qed
    moreover have "disk_record sec mm ?rn v' = d"
      using same len ld off by (simp add: disk_record_def)
    ultimately have "Q (Ok ()) (w\<lparr>dev := v'\<rparr>)"
      using rdy v sec' by (intro assms(5)) auto
    then show "Q (Ok ()) (w\<lparr>dev := v, dev := v'\<rparr>)" by simp
  qed (use assms(1,2) s n len' v in \<open>simp_all add: mm_ok_def\<close>)
  then have step: "wp (rest ?c) (w\<lparr>dev := v\<rparr>) Q" if "sec v = sec (dev w)" "ready v = ready (dev w)" for v
    using that len ld off len' assms(3)
    by (simp add: rest_def splice_all wp_bnd wp_lift_res cs Let_def)
  have "wp (dread B ?d (as_u8 (8 :: u64)) (as_u32 s) (replicate 4096 0)) w (\<lambda>r w'. case r of
      Ok buf \<Rightarrow> wp (rest buf) w' Q | Err e \<Rightarrow> Q (Err e) w' | Panic \<Rightarrow> Q Panic w')"
    by (rule wp_dread) (use assms(1,2) s n step in \<open>simp_all add: mm_ok_def\<close>)
  then show ?thesis
    by (simp add: write_record_def loc cs wp_bnd wp_lift_res rest_def cong: res.case_cong)
qed

end


section \<open>Properties\<close>

text \<open>
  C27: A record that the format can hold, once written through the manager, is read back unchanged
  from its number. The write touches only the eight sectors of the record's cluster, and every
  other record, those in the same cluster included, reads as before.
\<close>

theorem write_then_read_record:
  assumes "block_device B ready sec" and "record_ok r" and "mm_ok mm (mr_record_number r)"
    and "ready (dev w) (mm_drive mm)"
  shows "case write_record B mm r w of (res, w') \<Rightarrow> res = Ok ()
     \<and> fst (read_record B mm (mr_record_number r) w') = Ok r
     \<and> (\<forall>rn. rn \<noteq> mr_record_number r \<and> mm_ok mm rn
          \<longrightarrow> fst (read_record B mm rn w') = fst (read_record B mm rn w))
     \<and> (\<forall>k. k < rec_sector mm (mr_record_number r) \<or> rec_sector mm (mr_record_number r) + 8 \<le> k
          \<longrightarrow> sec (dev w') (mm_drive mm) k = sec (dev w) (mm_drive mm) k)"
proof -
  from MftRecord_roundtrip_bytes [OF assms(2)] obtain d where
    d: "MftRecord_serialize r = Ok d" "length d = MFT_RECORD_SIZE"
      "MftRecord_deserialize d (mr_record_number r) = Ok r" by blast
  have read: "fst (read_record B mm rn w') = MftRecord_deserialize (disk_record sec mm rn (dev w')) rn"
    if "mm_ok mm rn" "ready (dev w') (mm_drive mm)" for rn w'
    using block_device.wp_read_record [OF assms(1), where mm = mm and rn = rn and w = w'
        and Q = "\<lambda>r u. r = MftRecord_deserialize (disk_record sec mm rn (dev w')) rn"] that
    by (auto simp: wp_def split: prod.splits)
  have "wp (write_record B mm r) w (\<lambda>res w'. res = Ok ()
     \<and> fst (read_record B mm (mr_record_number r) w') = Ok r
     \<and> (\<forall>rn. rn \<noteq> mr_record_number r \<and> mm_ok mm rn
          \<longrightarrow> fst (read_record B mm rn w') = fst (read_record B mm rn w))
     \<and> (\<forall>k. k < rec_sector mm (mr_record_number r) \<or> rec_sector mm (mr_record_number r) + 8 \<le> k
          \<longrightarrow> sec (dev w') (mm_drive mm) k = sec (dev w) (mm_drive mm) k))"
    by (rule block_device.wp_write_record [OF assms(1,3,4) d(1,2)])
      (use read d(3) assms(3,4) in auto)
  then show ?thesis by (simp add: wp_def)
qed

definition demo_record :: MftRecord where
  "demo_record = \<lparr>mr_header = (MftRecordHeader_new 17)\<lparr>mh_bytes_in_use := 92\<rparr>,
     mr_attributes = [\<lparr>at_header = \<lparr>ah_attr_type = attr_type_code Data, ah_length = 32,
         ah_non_resident = False, ah_name_length = 0, ah_name_offset = 0, ah_flags = 0,
         ah_attribute_id = 0\<rparr>,
       at_name = [], at_data = Resident [1, 2, 3, 4, 5, 6, 7, 8]\<rparr>],
     mr_record_number = 17\<rparr>"

theorem write_then_read_record_witness:
  "fst (bnd (write_record ram_bdev (MftManager_new 0 4 4096) demo_record)
       (\<lambda>_. read_record ram_bdev (MftManager_new 0 4 4096) 17) (blank_world 2000)) = Ok demo_record"
proof -
  have "record_ok demo_record"
    by (simp add: record_ok_def demo_record_def MftRecordHeader_new_def MFT_RECORD_SIZE_def attr_ok_def
        resident_ok_def get_size_def)
  moreover have "mm_ok (MftManager_new 0 4 4096) (mr_record_number demo_record)"
    by (simp add: mm_ok_def rec_sector_def MftManager_new_def demo_record_def)
  ultimately show ?thesis
    using write_then_read_record [where ready = ram_ready and sec = ram_sec and w = "blank_world 2000"
        and mm = "MftManager_new 0 4 4096" and r = demo_record, OF ram.block_device_axioms]
    by (auto simp: bnd_def MftManager_new_def demo_record_def split: prod.splits)
qed

end
