(* ===== verification/Journal.thy ===== *)
theory Journal
  imports Block_Device
begin

text \<open>
  The transaction journal, \<^verbatim>\<open>crates/galleon2/src/journal.rs\<close>: log records with a checksum and their
  byte format, transactions, and the manager that appends records to a circular area of the disk.
\<close>

section \<open>Log records\<close>

datatype OperationType =
    CreateFile | DeleteFile | WriteData | UpdateMetadata
  | CreateDirectory | DeleteDirectory | MoveFile | SetAttribute

fun op_code :: "OperationType \<Rightarrow> u32" where
  "op_code CreateFile = 1"
| "op_code DeleteFile = 2"
| "op_code WriteData = 3"
| "op_code UpdateMetadata = 4"
| "op_code CreateDirectory = 5"
| "op_code DeleteDirectory = 6"
| "op_code MoveFile = 7"
| "op_code SetAttribute = 8"

definition op_of_code :: "u32 \<Rightarrow> (fs_error, OperationType) res" where
  "op_of_code c =
     (if c = 1 then Ok CreateFile else if c = 2 then Ok DeleteFile else if c = 3 then Ok WriteData
      else if c = 4 then Ok UpdateMetadata else if c = 5 then Ok CreateDirectory
      else if c = 6 then Ok DeleteDirectory else if c = 7 then Ok MoveFile
      else if c = 8 then Ok SetAttribute else Err InvalidParameter)"

record LogRecord =
  lr_sequence_number :: u64
  lr_operation_type :: OperationType
  lr_target_file_record :: u64
  lr_undo_data :: bytes
  lr_redo_data :: bytes
  lr_checksum :: u32
  lr_timestamp :: u64

definition calculate_checksum :: "LogRecord \<Rightarrow> u32" where
  "calculate_checksum self =
     (let checksum = 0;
          checksum = checksum XOR as_u32 (lr_sequence_number self);
          checksum = checksum XOR as_u32 (drop_bit 32 (lr_sequence_number self));
          checksum = checksum XOR op_code (lr_operation_type self);
          checksum = checksum XOR as_u32 (lr_target_file_record self);
          checksum = checksum XOR as_u32 (drop_bit 32 (lr_target_file_record self));
          checksum = fold (\<lambda>byte c. c XOR as_u32 byte) (lr_undo_data self) checksum;
          checksum = fold (\<lambda>byte c. c XOR as_u32 byte) (lr_redo_data self) checksum
      in checksum)"

definition verify_checksum :: "LogRecord \<Rightarrow> bool" where
  "verify_checksum self \<longleftrightarrow> lr_checksum self = calculate_checksum self"

definition get_timestamp :: "('v, u64) fs" where
  "get_timestamp = (\<lambda>w. case add_ck (COUNTER w) 1 of
     Ok n \<Rightarrow> (Ok n, w\<lparr>COUNTER := n\<rparr>) | Err e \<Rightarrow> (Err e, w) | Panic \<Rightarrow> (Panic, w))"

definition LogRecord_new :: "u64 \<Rightarrow> OperationType \<Rightarrow> u64 \<Rightarrow> bytes \<Rightarrow> bytes \<Rightarrow> ('v, LogRecord) fs" where
  "LogRecord_new sequence_number operation_type target undo_data redo_data =
     bnd get_timestamp (\<lambda>timestamp.
       let rec = \<lparr>lr_sequence_number = sequence_number, lr_operation_type = operation_type,
             lr_target_file_record = target, lr_undo_data = undo_data, lr_redo_data = redo_data,
             lr_checksum = 0, lr_timestamp = timestamp\<rparr>
       in ret (rec\<lparr>lr_checksum := calculate_checksum rec\<rparr>))"

text \<open>The bytes of \<^verbatim>\<open>b"JRNL"\<close>, \<^verbatim>\<open>b"COMMIT"\<close> and \<^verbatim>\<open>b"ABORT"\<close>.\<close>

definition JRNL :: bytes where "JRNL = [74, 82, 78, 76]"
definition COMMIT :: bytes where "COMMIT = [67, 79, 77, 77, 73, 84]"
definition ABORT :: bytes where "ABORT = [65, 66, 79, 82, 84]"

definition LogRecord_serialize :: "bytes \<Rightarrow> LogRecord \<Rightarrow> bytes" where
  "LogRecord_serialize data self = pad8 (data @ JRNL
     @ to_le_bytes (lr_sequence_number self)
     @ to_le_bytes (op_code (lr_operation_type self))
     @ to_le_bytes (lr_target_file_record self)
     @ to_le_bytes (of_nat (length (lr_undo_data self)) :: u32)
     @ to_le_bytes (of_nat (length (lr_redo_data self)) :: u32)
     @ to_le_bytes (lr_checksum self)
     @ to_le_bytes (lr_timestamp self)
     @ lr_undo_data self
     @ lr_redo_data self)"

definition LogRecord_deserialize :: "bytes \<Rightarrow> (fs_error, LogRecord) res" where
  "LogRecord_deserialize data =
     (if length data < 48 then Err InvalidParameter
      else if window 4 0 data \<noteq> JRNL then Err InvalidParameter
      else bind_res (op_of_code (get_le 12 data)) (\<lambda>operation_type.
        let undo_data_len = unat (get_le 24 data :: u32);
            redo_data_len = unat (get_le 28 data :: u32)
        in if length data < 44 + undo_data_len + redo_data_len then Err InvalidParameter
           else
             let rec = \<lparr>lr_sequence_number = get_le 4 data, lr_operation_type = operation_type,
                   lr_target_file_record = get_le 16 data,
                   lr_undo_data = window undo_data_len 44 data,
                   lr_redo_data = window redo_data_len (44 + undo_data_len) data,
                   lr_checksum = get_le 32 data, lr_timestamp = get_le 36 data\<rparr>
             in if \<not> verify_checksum rec then Err InvalidParameter else Ok rec))"


section \<open>Transactions\<close>

datatype TransactionState = Active | Committed | Aborted

record Transaction =
  tx_id :: u64
  tx_state :: TransactionState
  tx_records :: "LogRecord list"
  tx_start_sequence :: u64

definition Transaction_new :: "u64 \<Rightarrow> u64 \<Rightarrow> Transaction" where
  "Transaction_new i start = \<lparr>tx_id = i, tx_state = Active, tx_records = [], tx_start_sequence = start\<rparr>"

definition add_record :: "LogRecord \<Rightarrow> Transaction \<Rightarrow> Transaction" where
  "add_record rec self = (if tx_state self = Active then self\<lparr>tx_records := tx_records self @ [rec]\<rparr> else self)"

definition tx_commit :: "Transaction \<Rightarrow> Transaction" where
  "tx_commit self = self\<lparr>tx_state := Committed\<rparr>"

definition tx_abort :: "Transaction \<Rightarrow> Transaction" where
  "tx_abort self = self\<lparr>tx_state := Aborted\<rparr>"

record JournalManager =
  jm_drive :: u8
  journal_start_sector :: u64
  journal_size_sectors :: u64
  current_sequence :: u64
  active_transactions :: "Transaction list"
  next_transaction_id :: u64

definition JournalManager_new :: "u8 \<Rightarrow> u64 \<Rightarrow> u64 \<Rightarrow> JournalManager" where
  "JournalManager_new drive start sz =
     \<lparr>jm_drive = drive, journal_start_sector = start, journal_size_sectors = sz,
      current_sequence = 1, active_transactions = [], next_transaction_id = 1\<rparr>"

text \<open>\<^verbatim>\<open>iter_mut().find(p)\<close> followed by an update of the element found.\<close>

fun update_first :: "('a \<Rightarrow> bool) \<Rightarrow> ('a \<Rightarrow> 'a) \<Rightarrow> 'a list \<Rightarrow> 'a list" where
  "update_first p f [] = []"
| "update_first p f (x # xs) = (if p x then f x # xs else x # update_first p f xs)"

definition begin_transaction :: "(JournalManager, 'v, u64) meth" where
  "begin_transaction =
     bnd (gets id) (\<lambda>self.
     bnd (lift_res (add_ck (next_transaction_id self) 1)) (\<lambda>n.
     bnd (modify (\<lambda>s. s\<lparr>next_transaction_id := n,
            active_transactions := active_transactions s
              @ [Transaction_new (next_transaction_id self) (current_sequence s)]\<rparr>)) (\<lambda>_.
       ret (next_transaction_id self))))"

definition write_log_record :: "'v bdev \<Rightarrow> JournalManager \<Rightarrow> LogRecord \<Rightarrow> ('v, unit) fs" where
  "write_log_record B self rec =
     (let serialized = LogRecord_serialize [] rec in
      if serialized = [] then fail InvalidParameter
      else
        let sectors_needed = (length serialized + 511 + 511) div 512;
            record_size = of_nat (max (length serialized) 64) :: u64
        in bnd (lift_res (mul_ck (journal_size_sectors self) 512)) (\<lambda>journal_bytes.
           let max_records_in_journal = journal_bytes div record_size in
           bnd (lift_res (if max_records_in_journal > 0
                          then bind_res (mul_ck (lr_sequence_number rec mod max_records_in_journal) record_size)
                                 (\<lambda>p. Ok (p div 512))
                          else Ok 0)) (\<lambda>journal_offset.
           bnd (lift_res (add_ck (journal_start_sector self) journal_offset)) (\<lambda>write_sector.
             let sector_data = splice (replicate (sectors_needed * 512) 0) 0 serialized in
             dwrite B (jm_drive self) (of_nat sectors_needed) (as_u32 write_sector) sector_data))))"

definition bump_sequence :: "(JournalManager, 'v, unit) meth" where
  "bump_sequence =
     bnd (gets current_sequence) (\<lambda>c. bnd (lift_res (add_ck c 1)) (\<lambda>n. modify (\<lambda>s. s\<lparr>current_sequence := n\<rparr>)))"

definition log_operation :: "'v bdev \<Rightarrow> u64 \<Rightarrow> OperationType \<Rightarrow> u64 \<Rightarrow> bytes \<Rightarrow> bytes \<Rightarrow> (JournalManager, 'v, unit) meth" where
  "log_operation B transaction_id operation_type target undo_data redo_data =
     bnd (gets id) (\<lambda>self.
     bnd (io (LogRecord_new (current_sequence self) operation_type target undo_data redo_data)) (\<lambda>rec.
     let open_tx = (\<lambda>t. tx_id t = transaction_id \<and> tx_state t = Active) in
     if \<exists>t \<in> set (active_transactions self). open_tx t then
       bnd (modify (\<lambda>s. s\<lparr>active_transactions := update_first open_tx (add_record rec) (active_transactions s)\<rparr>)) (\<lambda>_.
       bnd (gets id) (\<lambda>self.
       bnd (io (write_log_record B self rec)) (\<lambda>_.
         bump_sequence)))
     else fail InvalidParameter))"

definition commit_transaction :: "'v bdev \<Rightarrow> u64 \<Rightarrow> (JournalManager, 'v, unit) meth" where
  "commit_transaction B transaction_id =
     bnd (gets id) (\<lambda>self.
     if \<exists>t \<in> set (active_transactions self). tx_id t = transaction_id then
       bnd (modify (\<lambda>s. s\<lparr>active_transactions :=
              update_first (\<lambda>t. tx_id t = transaction_id) tx_commit (active_transactions s)\<rparr>)) (\<lambda>_.
       bnd (io (LogRecord_new (current_sequence self) UpdateMetadata transaction_id [] COMMIT)) (\<lambda>commit_record.
       bnd (gets id) (\<lambda>self.
       bnd (io (write_log_record B self commit_record)) (\<lambda>_.
         bump_sequence))))
     else fail InvalidParameter)"

definition apply_undo :: "LogRecord \<Rightarrow> (fs_error, unit) res" where
  "apply_undo rec = Ok ()"

fun apply_undo_all :: "LogRecord list \<Rightarrow> (fs_error, unit) res" where
  "apply_undo_all [] = Ok ()"
| "apply_undo_all (r # rs) = bind_res (apply_undo r) (\<lambda>_. apply_undo_all rs)"

definition abort_transaction :: "'v bdev \<Rightarrow> u64 \<Rightarrow> (JournalManager, 'v, unit) meth" where
  "abort_transaction B transaction_id =
     bnd (gets id) (\<lambda>self.
     case find (\<lambda>t. tx_id t = transaction_id) (active_transactions self) of
       None \<Rightarrow> fail InvalidParameter
     | Some t \<Rightarrow>
         bnd (lift_res (apply_undo_all (rev (tx_records t)))) (\<lambda>_.
         bnd (modify (\<lambda>s. s\<lparr>active_transactions :=
                update_first (\<lambda>t. tx_id t = transaction_id) tx_abort (active_transactions s)\<rparr>)) (\<lambda>_.
         bnd (io (LogRecord_new (current_sequence self) UpdateMetadata transaction_id [] ABORT)) (\<lambda>abort_record.
         bnd (gets id) (\<lambda>self.
         bnd (io (write_log_record B self abort_record)) (\<lambda>_.
           bump_sequence))))))"

definition is_transaction_committed :: "JournalManager \<Rightarrow> u64 \<Rightarrow> bool" where
  "is_transaction_committed self transaction_id = True"

definition cleanup_completed_transactions :: "JournalManager \<Rightarrow> JournalManager" where
  "cleanup_completed_transactions self =
     self\<lparr>active_transactions := filter (\<lambda>t. tx_state t = Active) (active_transactions self)\<rparr>"


section \<open>Recovery\<close>

definition read_journal_sector :: "'v bdev \<Rightarrow> JournalManager \<Rightarrow> u64 \<Rightarrow> ('v, bytes) fs" where
  "read_journal_sector B self sector_offset =
     bnd (lift_res (add_ck (journal_start_sector self) sector_offset)) (\<lambda>s.
       dread B (jm_drive self) 1 (as_u32 s) (replicate 512 0))"

lemma length_LogRecord_serialize: "48 \<le> length (LogRecord_serialize [] r)"
  by (simp add: LogRecord_serialize_def length_pad8 JRNL_def)

function scan_sector :: "JournalManager \<Rightarrow> bytes \<Rightarrow> nat \<Rightarrow> (fs_error, unit) res" where
  "scan_sector self sector_data offset =
     (if offset + 48 \<le> length sector_data then
        if window 4 offset sector_data = JRNL then
          (case LogRecord_deserialize (drop offset sector_data) of
             Ok rec \<Rightarrow>
               bind_res (if \<not> is_transaction_committed self (lr_target_file_record rec)
                         then apply_undo rec else Ok ()) (\<lambda>_.
                 scan_sector self sector_data (offset + length (LogRecord_serialize [] rec)))
           | _ \<Rightarrow> Ok ())
        else Ok ()
      else Ok ())"
  by pat_completeness auto
termination
proof (relation "measure (\<lambda>(j, d, i). length d - i)", goal_cases)
  case (2 self d i rec u)
  then show ?case using length_LogRecord_serialize [of rec] by simp
qed simp

declare scan_sector.simps [simp del]

fun recover_loop :: "'v bdev \<Rightarrow> JournalManager \<Rightarrow> u64 list \<Rightarrow> ('v, unit) fs" where
  "recover_loop B self [] = ret ()"
| "recover_loop B self (s # ss) =
     bnd (read_journal_sector B self s) (\<lambda>sector_data.
     bnd (lift_res (scan_sector self sector_data 0)) (\<lambda>_.
       recover_loop B self ss))"

definition recover :: "'v bdev \<Rightarrow> JournalManager \<Rightarrow> ('v, unit) fs" where
  "recover B self = recover_loop B self (map of_nat [0..<unat (journal_size_sectors self)])"


section \<open>The record format\<close>

lemma op_of_code_op_code [simp]: "op_of_code (op_code t) = Ok t"
  by (cases t) (simp_all add: op_of_code_def)

lemma LogRecord_reread:
  assumes "length (lr_undo_data r) < 2 ^ 32" and "length (lr_redo_data r) < 2 ^ 32"
  shows "LogRecord_deserialize (LogRecord_serialize [] r @ rest) =
     (if verify_checksum r then Ok r else Err InvalidParameter)"
proof -
  let ?u = "lr_undo_data r" and ?v = "lr_redo_data r"
  define tail where "tail = replicate ((8 - (44 + length ?u + length ?v) mod 8) mod 8) 0 @ rest"
  have d: "LogRecord_serialize [] r @ rest = JRNL @ to_le_bytes (lr_sequence_number r)
      @ to_le_bytes (op_code (lr_operation_type r)) @ to_le_bytes (lr_target_file_record r)
      @ to_le_bytes (of_nat (length ?u) :: u32) @ to_le_bytes (of_nat (length ?v) :: u32)
      @ to_le_bytes (lr_checksum r) @ to_le_bytes (lr_timestamp r) @ ?u @ ?v @ tail"
    by (simp add: LogRecord_serialize_def pad8_eq tail_def JRNL_def add.assoc)
  have n: "unat (of_nat (length ?u) :: u32) = length ?u" "unat (of_nat (length ?v) :: u32) = length ?v"
    using assms by (simp_all add: unat_of_nat)
  have j: "length JRNL = 4" by (simp add: JRNL_def)
  have "48 \<le> length (LogRecord_serialize [] r @ rest)"
    using length_LogRecord_serialize [of r] by simp
  then have "\<not> length (JRNL @ to_le_bytes (lr_sequence_number r)
      @ to_le_bytes (op_code (lr_operation_type r)) @ to_le_bytes (lr_target_file_record r)
      @ to_le_bytes (of_nat (length ?u) :: u32) @ to_le_bytes (of_nat (length ?v) :: u32)
      @ to_le_bytes (lr_checksum r) @ to_le_bytes (lr_timestamp r) @ ?u @ ?v @ tail) < 48"
    unfolding d by simp
  then show ?thesis
    unfolding d LogRecord_deserialize_def
    using n j by (simp add: Let_def verify_checksum_def calculate_checksum_def)
qed

lemma LogRecord_roundtrip:
  "verify_checksum r \<Longrightarrow> length (lr_undo_data r) < 2 ^ 32 \<Longrightarrow> length (lr_redo_data r) < 2 ^ 32 \<Longrightarrow>
     LogRecord_deserialize (LogRecord_serialize [] r @ rest) = Ok r"
  by (simp add: LogRecord_reread)

text \<open>The checksum is the exclusive or of the header words and of every byte of the data.\<close>

lemma fold_xor: "fold (\<lambda>b c. c XOR as_u32 b) xs c = c XOR fold (\<lambda>b c. c XOR as_u32 b) xs 0" for xs :: bytes
proof (induction xs arbitrary: c)
  case (Cons x xs)
  show ?case by (simp add: Cons.IH [of "c XOR as_u32 x"] Cons.IH [of "as_u32 x"] xor.assoc)
qed simp

lemma fold_xor_update:
  fixes xs :: bytes and b :: u8
  assumes "i < length xs"
  shows "fold (\<lambda>b c. c XOR as_u32 b) (xs[i := b]) c
       = fold (\<lambda>b c. c XOR as_u32 b) xs c XOR as_u32 (xs ! i) XOR as_u32 b"
  using assms
proof (induction xs arbitrary: i c)
  case (Cons x xs)
  show ?case
  proof (cases i)
    case 0
    then show ?thesis
      by (simp add: fold_xor [of xs "c XOR as_u32 b"] fold_xor [of xs "c XOR as_u32 x"]) (simp add: ac_simps)
  next
    case (Suc j)
    then show ?thesis using Cons by simp
  qed
qed simp

lemma xor_cancel: "a XOR x XOR y = a \<longleftrightarrow> x = y" for a x y :: "'l::len word"
  by (metis xor.assoc xor.comm_neutral xor.commute xor_self_eq)

lemma ucast_u8_inj: "as_u32 x = as_u32 y \<longleftrightarrow> x = y" for x y :: u8
proof
  assume "as_u32 x = as_u32 y"
  then have "unat (as_u32 x) = unat (as_u32 y)" by simp
  then show "x = y" using unat_bound [of x] unat_bound [of y] by (simp add: ucast_small word_unat_eq_iff)
qed simp


text \<open>A record with byte \<open>i\<close> of its data replaced.\<close>

definition poke_data :: "nat \<Rightarrow> u8 \<Rightarrow> LogRecord \<Rightarrow> LogRecord" where
  "poke_data i b r = (if i < length (lr_undo_data r) then r\<lparr>lr_undo_data := (lr_undo_data r)[i := b]\<rparr>
     else r\<lparr>lr_redo_data := (lr_redo_data r)[i - length (lr_undo_data r) := b]\<rparr>)"

lemma poke_data_bytes:
  assumes "i < length (lr_undo_data r @ lr_redo_data r)"
  shows "(LogRecord_serialize [] r @ rest)[44 + i := b] = LogRecord_serialize [] (poke_data i b r) @ rest"
proof -
  let ?u = "lr_undo_data r" and ?v = "lr_redo_data r"
  define hd where "hd = JRNL @ to_le_bytes (lr_sequence_number r)
      @ to_le_bytes (op_code (lr_operation_type r)) @ to_le_bytes (lr_target_file_record r)
      @ to_le_bytes (of_nat (length ?u) :: u32) @ to_le_bytes (of_nat (length ?v) :: u32)
      @ to_le_bytes (lr_checksum r) @ to_le_bytes (lr_timestamp r)"
  define tail where "tail = replicate ((8 - (44 + length ?u + length ?v) mod 8) mod 8) 0 @ rest"
  have hl: "length hd = 44" by (simp add: hd_def JRNL_def)
  have "LogRecord_serialize [] r @ rest = hd @ ?u @ ?v @ tail"
    by (simp add: LogRecord_serialize_def pad8_eq tail_def JRNL_def hd_def add.assoc)
  moreover have "LogRecord_serialize [] (poke_data i b r) @ rest = hd @ (?u @ ?v)[i := b] @ tail"
    by (simp add: LogRecord_serialize_def pad8_eq tail_def JRNL_def hd_def add.assoc poke_data_def
        list_update_append)
  ultimately show ?thesis
    using assms by (auto simp: hl list_update_append)
qed

lemma poke_data_checksum:
  assumes "i < length (lr_undo_data r @ lr_redo_data r)"
  shows "calculate_checksum (poke_data i b r) =
     calculate_checksum r XOR as_u32 ((lr_undo_data r @ lr_redo_data r) ! i) XOR as_u32 b"
proof (cases "i < length (lr_undo_data r)")
  case True
  let ?f = "\<lambda>xs c. fold (\<lambda>b c. c XOR as_u32 b) xs c"
  have "?f ys (x XOR y XOR z) = ?f ys x XOR y XOR z" for ys :: bytes and x y z
    by (simp add: fold_xor [of ys "x XOR y XOR z"] fold_xor [of ys x]) (simp add: ac_simps)
  with True show ?thesis
    by (simp add: calculate_checksum_def poke_data_def fold_xor_update nth_append)
next
  case False
  with assms show ?thesis
    by (simp add: calculate_checksum_def poke_data_def fold_xor_update nth_append)
qed

lemma LogRecord_new_verifies:
  "LogRecord_new s op target undo redo w = (Ok r, w') \<Longrightarrow> verify_checksum r \<and> lr_sequence_number r = s
     \<and> lr_operation_type r = op \<and> lr_target_file_record r = target \<and> lr_undo_data r = undo
     \<and> lr_redo_data r = redo \<and> dev w' = dev w"
  by (auto simp: LogRecord_new_def get_timestamp_def bnd_def verify_checksum_def calculate_checksum_def
      Let_def split: res.splits prod.splits)


section \<open>Where records go\<close>

definition lr_size :: "LogRecord \<Rightarrow> nat" where
  "lr_size r = 8 * ((44 + length (lr_undo_data r) + length (lr_redo_data r) + 7) div 8)"

lemma length_serialized: "length (LogRecord_serialize [] r) = lr_size r"
  by (simp add: LogRecord_serialize_def length_pad8 lr_size_def JRNL_def add.assoc)

lemma lr_size_ge: "48 \<le> lr_size r"
  using length_LogRecord_serialize [of r] by (simp add: length_serialized)

text \<open>The number of sectors a record is written to, and the first of them within the journal.\<close>

definition lr_sectors :: "LogRecord \<Rightarrow> nat" where
  "lr_sectors r = (lr_size r + 1022) div 512"

definition lr_slot :: "JournalManager \<Rightarrow> LogRecord \<Rightarrow> nat" where
  "lr_slot j r = (unat (lr_sequence_number r) mod (unat (journal_size_sectors j) * 512 div max (lr_size r) 64))
      * max (lr_size r) 64 div 512"

text \<open>The journal lies in the LBA28 space, and a record fits it and the 8-bit sector count.\<close>

definition jm_ok :: "JournalManager \<Rightarrow> bool" where
  "jm_ok j \<longleftrightarrow> unat (journal_start_sector j) + unat (journal_size_sectors j) + 1 \<le> 2 ^ 28"

definition lr_fits :: "JournalManager \<Rightarrow> LogRecord \<Rightarrow> bool" where
  "lr_fits j r \<longleftrightarrow> max (lr_size r) 64 \<le> unat (journal_size_sectors j) * 512 \<and> lr_sectors r < 256"

lemma slot_bound:
  assumes "lr_fits j r"
  shows "lr_slot j r + lr_sectors r \<le> unat (journal_size_sectors j) + 1"
proof -
  define S where "S = unat (journal_size_sectors j) * 512"
  define rs where "rs = max (lr_size r) 64"
  define q where "q = unat (lr_sequence_number r) mod (S div rs)"
  have rs: "64 \<le> rs" "rs \<le> S" "lr_size r \<le> rs" using assms by (auto simp: lr_fits_def rs_def S_def)
  then have "0 < S div rs" by (simp add: div_greater_zero_iff)
  then have "q + 1 \<le> S div rs" using mod_less_divisor [of "S div rs"] by (simp add: q_def Suc_le_eq)
  then have "(q + 1) * rs \<le> S div rs * rs" by (rule mult_le_mono1)
  also have "\<dots> \<le> S" by simp
  finally have "q * rs + rs \<le> S" by simp
  moreover have "q * rs div 512 * 512 \<le> q * rs" by simp
  moreover have "(lr_size r + 1022) div 512 * 512 \<le> lr_size r + 1022" by simp
  moreover have "lr_slot j r = q * rs div 512" by (simp add: lr_slot_def q_def rs_def S_def)
  ultimately show ?thesis using rs(3) unfolding lr_sectors_def S_def by linarith
qed

text \<open>The disk after a record was written: its bytes, padded with zeros, in the sectors from its slot on.\<close>

definition logged :: "('v \<Rightarrow> u8 \<Rightarrow> store) \<Rightarrow> JournalManager \<Rightarrow> LogRecord \<Rightarrow> 'v \<Rightarrow> 'v \<Rightarrow> bool" where
  "logged sec j r v v' \<longleftrightarrow> sec v' = (sec v)(jm_drive j :=
     write_sectors (sec v (jm_drive j)) (unat (journal_start_sector j) + lr_slot j r) (lr_sectors r)
       (LogRecord_serialize [] r @ replicate (lr_sectors r * 512 - lr_size r) 0))"

context block_device
begin

lemma wp_write_log_record:
  assumes "ready (dev w) (jm_drive j)" "jm_ok j" "lr_fits j r"
    and "\<And>v. ready v = ready (dev w) \<Longrightarrow> logged sec j r (dev w) v \<Longrightarrow> Q (Ok ()) (w\<lparr>dev := v\<rparr>)"
  shows "wp (write_log_record B j r) w Q"
proof -
  let ?d = "LogRecord_serialize [] r"
  define rs where "rs = max (lr_size r) 64"
  define jb where "jb = journal_size_sectors j * 512"
  have sz: "unat (journal_size_sectors j) < 2 ^ 28" using assms(2) by (simp add: jm_ok_def)
  then have jb: "mul_ck (journal_size_sectors j) 512 = (Ok jb :: (fs_error, u64) res)"
    and ujb: "unat jb = unat (journal_size_sectors j) * 512"
    by (simp_all add: mul_ck_def jb_def unat_mult_no_wrap)
  have rs: "rs \<le> unat jb" "64 \<le> rs" using assms(3) ujb by (auto simp: lr_fits_def rs_def)
  then have urs: "unat (of_nat rs :: u64) = rs" using ujb sz by (simp add: unat_of_nat)
  define mx where "mx = jb div of_nat rs"
  have umx: "unat mx = unat jb div rs" by (simp add: mx_def unat_div urs)
  then have "0 < unat mx" using rs by (simp add: div_greater_zero_iff)
  then have mx: "0 < mx" by (simp add: word_less_nat_alt)
  define q where "q = lr_sequence_number r mod mx"
  have uq: "unat q = unat (lr_sequence_number r) mod (unat jb div rs)" by (simp add: q_def unat_mod umx)
  have "unat q < unat jb div rs" using \<open>0 < unat mx\<close> umx by (simp add: uq)
  then have "unat q * rs \<le> unat jb div rs * rs" by (intro mult_le_mono1) simp
  also have "\<dots> \<le> unat jb" by simp
  finally have qrs: "unat q * rs \<le> unat jb" .
  then have p: "mul_ck q (of_nat rs) = (Ok (q * of_nat rs) :: (fs_error, u64) res)"
    "unat (q * of_nat rs) = unat q * rs"
    using ujb sz by (simp_all add: mul_ck_def unat_mult_no_wrap urs)
  define off where "off = q * of_nat rs div 512"
  have uoff: "unat off = lr_slot j r"
  proof -
    have "unat off = unat q * rs div 512" by (simp add: off_def unat_div p(2))
    then show ?thesis by (simp add: lr_slot_def uq ujb rs_def)
  qed
  have bound: "lr_slot j r + lr_sectors r \<le> unat (journal_size_sectors j) + 1" using assms(3) by (rule slot_bound)
  define ws where "ws = journal_start_sector j + off"
  have ws: "add_ck (journal_start_sector j) off = (Ok ws :: (fs_error, u64) res)"
    "unat ws = unat (journal_start_sector j) + lr_slot j r"
    using bound assms(2) by (simp_all add: add_ck_def ws_def unat_add_no_wrap uoff jm_ok_def)
  have lba: "unat (as_u32 ws) = unat (journal_start_sector j) + lr_slot j r"
    using ws(2) bound assms(2) by (simp add: ucast_small jm_ok_def)
  have n: "unat (of_nat (lr_sectors r) :: u8) = lr_sectors r" using assms(3) by (simp add: lr_fits_def unat_of_nat)
  have pos: "0 < lr_sectors r" using lr_size_ge [of r] by (simp add: lr_sectors_def div_greater_zero_iff)
  have fit: "lr_size r \<le> lr_sectors r * 512"
    using div_mult_mod_eq [of "lr_size r + 1022" 512] mod_less_divisor [of 512 "lr_size r + 1022"]
    unfolding lr_sectors_def by linarith
  let ?buf = "?d @ replicate (lr_sectors r * 512 - lr_size r) 0"
  have buf: "splice (replicate (lr_sectors r * 512) 0) 0 ?d = ?buf"
    by (simp add: splice_def length_serialized)
  have ne: "?d \<noteq> []" using length_LogRecord_serialize [of r] by auto
  have io: "wp (dwrite B (jm_drive j) (of_nat (lr_sectors r)) (as_u32 ws) ?buf) w Q"
  proof (rule wp_dwrite)
    show "0 < (of_nat (lr_sectors r) :: u8)" unfolding word_less_nat_alt n using pos by simp
    show "unat (of_nat (lr_sectors r) :: u8) * 512 \<le> length ?buf" unfolding n using fit by (simp add: length_serialized)
    show "unat (as_u32 ws) + unat (of_nat (lr_sectors r) :: u8) \<le> 2 ^ 28"
      unfolding n lba using bound assms(2) unfolding jm_ok_def by linarith
  qed (use assms(1,4) in \<open>simp_all only: n lba logged_def\<close>)
  have sn: "(length ?d + 511 + 511) div 512 = lr_sectors r" by (simp add: length_serialized lr_sectors_def)
  have rsd: "max (length ?d) 64 = rs" by (simp add: length_serialized rs_def)
  have step: "bnd (lift_res (Ok x)) f = f x" for x and f :: "'c \<Rightarrow> ('v, 'd) fs"
    by (rule ext) simp
  have eq: "write_log_record B j r = dwrite B (jm_drive j) (of_nat (lr_sectors r)) (as_u32 ws) ?buf"
    unfolding write_log_record_def Let_def sn rsd if_not_P [OF ne] jb step
      mx_def [symmetric] q_def [symmetric] if_P [OF mx] p(1) bind_res.simps off_def [symmetric] ws(1) buf
    by (rule refl)
  show ?thesis unfolding eq by (rule io)
qed

lemma wp_LogRecord_new:
  assumes "unat (COUNTER w) + 1 < 2 ^ 64"
    and "\<And>r. verify_checksum r \<Longrightarrow> lr_sequence_number r = s \<Longrightarrow> lr_operation_type r = op \<Longrightarrow>
      lr_target_file_record r = target \<Longrightarrow> lr_undo_data r = undo \<Longrightarrow> lr_redo_data r = redo \<Longrightarrow>
      Q (Ok r) (w\<lparr>COUNTER := COUNTER w + 1\<rparr>)"
  shows "wp (LogRecord_new s op target undo redo) w Q"
  using assms(1)
  by (simp add: wp_def LogRecord_new_def get_timestamp_def add_ck_def bnd_def Let_def)
    (rule assms(2), simp_all add: verify_checksum_def calculate_checksum_def)

end

text \<open>The effect of a journal call on the disk: the last record of \<open>rs\<close> sits at its slot, nothing
  outside the journal area and the one sector after it has changed.\<close>

definition jframe :: "('v \<Rightarrow> u8 \<Rightarrow> store) \<Rightarrow> JournalManager \<Rightarrow> 'v \<Rightarrow> 'v \<Rightarrow> bool" where
  "jframe sec j v v' \<longleftrightarrow> (\<forall>e k. e \<noteq> jm_drive j \<or> k < unat (journal_start_sector j)
      \<or> unat (journal_start_sector j) + unat (journal_size_sectors j) + 1 \<le> k \<longrightarrow> sec v' e k = sec v e k)"

definition on_journal :: "('v \<Rightarrow> u8 \<Rightarrow> store) \<Rightarrow> JournalManager \<Rightarrow> LogRecord \<Rightarrow> 'v \<Rightarrow> bool" where
  "on_journal sec j r v \<longleftrightarrow> LogRecord_deserialize
     (read_sectors (sec v (jm_drive j)) (unat (journal_start_sector j) + lr_slot j r) (lr_sectors r)) = Ok r"

lemma lr_size_bound: "length (lr_undo_data r) + length (lr_redo_data r) \<le> lr_size r"
  unfolding lr_size_def by simp

lemma lr_sectors_ge: "lr_size r \<le> lr_sectors r * 512"
  using div_mult_mod_eq [of "lr_size r + 1022" 512] mod_less_divisor [of 512 "lr_size r + 1022"]
  unfolding lr_sectors_def by linarith

context block_device
begin

lemma logged_on_journal:
  assumes "logged sec j r v v'" "lr_fits j r" "verify_checksum r"
  shows "on_journal sec j r v'"
proof -
  let ?buf = "LogRecord_serialize [] r @ replicate (lr_sectors r * 512 - lr_size r) 0"
  have len: "length ?buf = lr_sectors r * 512" using lr_sectors_ge [of r] by (simp add: length_serialized)
  have "lr_sectors r < 256" using assms(2) by (simp add: lr_fits_def)
  then have "lr_size r < 2 ^ 32" using lr_sectors_ge [of r] by simp
  then have "length (lr_undo_data r) < 2 ^ 32" "length (lr_redo_data r) < 2 ^ 32"
    using lr_size_bound [of r] by linarith+
  then have "LogRecord_deserialize ?buf = Ok r" by (rule LogRecord_roundtrip [OF assms(3)])
  then show ?thesis
    using len assms(1) by (simp add: on_journal_def logged_def read_write_sectors_same length_serialized)
qed

end

lemma logged_frame: "logged sec j r v v' \<Longrightarrow> lr_fits j r \<Longrightarrow> jframe sec j v v'"
  using slot_bound [of j r] by (auto simp: jframe_def logged_def)

definition data_fits :: "JournalManager \<Rightarrow> nat \<Rightarrow> bool" where
  "data_fits j n \<longleftrightarrow> (let s = 8 * ((44 + n + 7) div 8)
     in max s 64 \<le> unat (journal_size_sectors j) * 512 \<and> (s + 1022) div 512 < 256)"

lemma lr_fits_iff: "lr_fits j r \<longleftrightarrow> data_fits j (length (lr_undo_data r) + length (lr_redo_data r))"
  by (simp add: lr_fits_def data_fits_def lr_size_def lr_sectors_def Let_def add.assoc)

lemma jm_fields [simp]:
  "jm_ok (j\<lparr>active_transactions := ts\<rparr>) = jm_ok j" "jm_ok (j\<lparr>current_sequence := c\<rparr>) = jm_ok j"
  "lr_fits (j\<lparr>active_transactions := ts\<rparr>) r = lr_fits j r"
  "data_fits (j\<lparr>active_transactions := ts\<rparr>) n = data_fits j n" "data_fits (j\<lparr>current_sequence := c\<rparr>) n = data_fits j n"
  "data_fits (j\<lparr>next_transaction_id := i\<rparr>) n = data_fits j n" "jm_ok (j\<lparr>next_transaction_id := i\<rparr>) = jm_ok j"
  "jframe sec (j\<lparr>active_transactions := ts\<rparr>) = jframe sec j" "jframe sec (j\<lparr>current_sequence := c\<rparr>) = jframe sec j"
  "jframe sec (j\<lparr>next_transaction_id := i\<rparr>) = jframe sec j"
  "logged sec (j\<lparr>active_transactions := ts\<rparr>) = logged sec j" "logged sec (j\<lparr>current_sequence := c\<rparr>) = logged sec j"
  "on_journal sec (j\<lparr>active_transactions := ts\<rparr>) = on_journal sec j"
  "on_journal sec (j\<lparr>current_sequence := c\<rparr>) = on_journal sec j"
  by (simp_all add: jm_ok_def lr_fits_def data_fits_def jframe_def on_journal_def logged_def lr_slot_def fun_eq_iff)

lemma wp_self: "wp (bnd (gets id) f) (s, w) Q \<longleftrightarrow> wp (f s) (s, w) Q"
  by (simp add: wp_simps)

lemma wp_bump_sequence:
  "unat (current_sequence j) + 1 < 2 ^ 64 \<Longrightarrow>
     wp bump_sequence (j, w) Q \<longleftrightarrow> Q (Ok ()) (j\<lparr>current_sequence := current_sequence j + 1\<rparr>, w)"
  by (simp add: bump_sequence_def wp_simps add_ck_def)

lemma wp_begin_transaction:
  "unat (next_transaction_id j) + 1 < 2 ^ 64 \<Longrightarrow>
     wp begin_transaction (j, w) Q \<longleftrightarrow> Q (Ok (next_transaction_id j))
       (j\<lparr>next_transaction_id := next_transaction_id j + 1,
          active_transactions := active_transactions j @ [Transaction_new (next_transaction_id j) (current_sequence j)]\<rparr>, w)"
  by (simp add: begin_transaction_def wp_simps add_ck_def)

context block_device
begin

lemma wp_append_record:
  assumes "ready (dev w) (jm_drive j)" "jm_ok j" "data_fits j (length undo + length redo)"
    and "unat (COUNTER w) + 1 < 2 ^ 64" "unat (current_sequence j) + 1 < 2 ^ 64"
    and "\<And>r v. verify_checksum r \<Longrightarrow> lr_sequence_number r = current_sequence j \<Longrightarrow> lr_operation_type r = op \<Longrightarrow>
      lr_target_file_record r = target \<Longrightarrow> lr_undo_data r = undo \<Longrightarrow> lr_redo_data r = redo \<Longrightarrow>
      ready v = ready (dev w) \<Longrightarrow> logged sec j r (dev w) v \<Longrightarrow>
      Q (Ok ()) (f r j\<lparr>current_sequence := current_sequence j + 1\<rparr>, w\<lparr>COUNTER := COUNTER w + 1, dev := v\<rparr>)"
    and "\<And>r. \<exists>ts. f r j = j\<lparr>active_transactions := ts\<rparr>"
  shows "wp (bnd (io (LogRecord_new (current_sequence j) op target undo redo)) (\<lambda>rec.
       bnd (modify (f rec)) (\<lambda>_. bnd (gets id) (\<lambda>self. bnd (io (write_log_record B self rec)) (\<lambda>_. bump_sequence))))) (j, w) Q"
  unfolding wp_bnd wp_io
proof (rule wp_LogRecord_new [OF assms(4)])
  fix r
  let ?w = "w\<lparr>COUNTER := COUNTER w + 1\<rparr>"
  assume r: "verify_checksum r" "lr_sequence_number r = current_sequence j" "lr_operation_type r = op"
    "lr_target_file_record r = target" "lr_undo_data r = undo" "lr_redo_data r = redo"
  obtain ts where ts: "f r j = j\<lparr>active_transactions := ts\<rparr>" using assms(7) by blast
  have "wp (write_log_record B (f r j) r) ?w (\<lambda>r' w'. case r' of Ok x \<Rightarrow> wp bump_sequence (f r j, w') Q
      | Err e \<Rightarrow> Q (Err e) (f r j, w') | Panic \<Rightarrow> Q Panic (f r j, w'))"
    by (rule wp_write_log_record)
      (use assms(1-3,5) r assms(6) [OF r] ts in \<open>simp_all add: lr_fits_iff wp_bump_sequence\<close>)
  then show "case Ok r of Ok x \<Rightarrow> wp (modify (f x)) (j, ?w) (\<lambda>r' w'. case r' of
        Ok y \<Rightarrow> wp (gets id) w' (\<lambda>r' w'. case r' of Ok self \<Rightarrow> wp (io (write_log_record B self x)) w'
            (\<lambda>r' w'. case r' of Ok _ \<Rightarrow> wp bump_sequence w' Q | Err e \<Rightarrow> Q (Err e) w' | Panic \<Rightarrow> Q Panic w')
          | Err e \<Rightarrow> Q (Err e) w' | Panic \<Rightarrow> Q Panic w')
      | Err e \<Rightarrow> Q (Err e) w' | Panic \<Rightarrow> Q Panic w')
    | Err e \<Rightarrow> Q (Err e) (j, ?w) | Panic \<Rightarrow> Q Panic (j, ?w)"
    by (simp add: wp_modify wp_gets wp_io)
qed

lemma wp_log_operation:
  assumes "ready (dev w) (jm_drive j)" "jm_ok j" "data_fits j (length undo + length redo)"
    and "unat (COUNTER w) + 1 < 2 ^ 64" "unat (current_sequence j) + 1 < 2 ^ 64"
    and "\<exists>t\<in>set (active_transactions j). tx_id t = i \<and> tx_state t = Active"
    and "\<And>r v. verify_checksum r \<Longrightarrow> lr_sequence_number r = current_sequence j \<Longrightarrow> lr_operation_type r = op \<Longrightarrow>
      lr_target_file_record r = target \<Longrightarrow> lr_undo_data r = undo \<Longrightarrow> lr_redo_data r = redo \<Longrightarrow>
      ready v = ready (dev w) \<Longrightarrow> logged sec j r (dev w) v \<Longrightarrow>
      Q (Ok ()) (j\<lparr>active_transactions := update_first (\<lambda>t. tx_id t = i \<and> tx_state t = Active) (add_record r) (active_transactions j),
          current_sequence := current_sequence j + 1\<rparr>, w\<lparr>COUNTER := COUNTER w + 1, dev := v\<rparr>)"
  shows "wp (log_operation B i op target undo redo) (j, w) Q"
  unfolding log_operation_def Let_def wp_self if_P [OF assms(6)]
  by (rule wp_append_record [OF assms(1-5)]) (use assms(7) in auto)

lemma modify_id: "bnd (modify (\<lambda>s. s)) f = f ()"
  by (rule ext) (simp add: modify_def split_beta)

lemma wp_append_marker:
  assumes "ready (dev w) (jm_drive j)" "jm_ok j" "data_fits j (length undo + length redo)"
    and "unat (COUNTER w) + 1 < 2 ^ 64" "unat (current_sequence j) + 1 < 2 ^ 64"
    and "\<And>r v. verify_checksum r \<Longrightarrow> lr_sequence_number r = current_sequence j \<Longrightarrow> lr_operation_type r = op \<Longrightarrow>
      lr_target_file_record r = target \<Longrightarrow> lr_undo_data r = undo \<Longrightarrow> lr_redo_data r = redo \<Longrightarrow>
      ready v = ready (dev w) \<Longrightarrow> logged sec j r (dev w) v \<Longrightarrow>
      Q (Ok ()) (j\<lparr>current_sequence := current_sequence j + 1\<rparr>, w\<lparr>COUNTER := COUNTER w + 1, dev := v\<rparr>)"
  shows "wp (bnd (io (LogRecord_new (current_sequence j) op target undo redo)) (\<lambda>rec.
       bnd (gets id) (\<lambda>self. bnd (io (write_log_record B self rec)) (\<lambda>_. bump_sequence)))) (j, w) Q"
proof -
  have "\<exists>ts. (\<lambda>s. s) j = j\<lparr>active_transactions := ts\<rparr>" by (intro exI [of _ "active_transactions j"]) simp
  then show ?thesis
    using wp_append_record [where f = "\<lambda>_ s. s" and Q = Q and j = j, OF assms(1-5)] assms(6)
    by (simp add: modify_id)
qed

lemma wp_commit_transaction:
  assumes "ready (dev w) (jm_drive j)" "jm_ok j" "0 < journal_size_sectors j"
    and "unat (COUNTER w) + 1 < 2 ^ 64" "unat (current_sequence j) + 1 < 2 ^ 64"
    and "\<exists>t\<in>set (active_transactions j). tx_id t = i"
    and "\<And>r v. verify_checksum r \<Longrightarrow> lr_sequence_number r = current_sequence j \<Longrightarrow> lr_operation_type r = UpdateMetadata \<Longrightarrow>
      lr_target_file_record r = i \<Longrightarrow> lr_undo_data r = [] \<Longrightarrow> lr_redo_data r = COMMIT \<Longrightarrow>
      ready v = ready (dev w) \<Longrightarrow> logged sec j r (dev w) v \<Longrightarrow>
      Q (Ok ()) (j\<lparr>active_transactions := update_first (\<lambda>t. tx_id t = i) tx_commit (active_transactions j),
          current_sequence := current_sequence j + 1\<rparr>, w\<lparr>COUNTER := COUNTER w + 1, dev := v\<rparr>)"
  shows "wp (commit_transaction B i) (j, w) Q"
proof -
  let ?j = "j\<lparr>active_transactions := update_first (\<lambda>t. tx_id t = i) tx_commit (active_transactions j)\<rparr>"
  have "1 \<le> unat (journal_size_sectors j)" using assms(3) by (simp add: word_less_nat_alt)
  then have "data_fits j (length ([] :: bytes) + length COMMIT)" by (simp add: data_fits_def COMMIT_def)
  then show ?thesis
    unfolding commit_transaction_def wp_self if_P [OF assms(6)]
      wp_bnd [of "modify _"] wp_modify res.case
    using wp_append_marker [where j = ?j and w = w and undo = "[]" and redo = COMMIT and target = i and Q = Q
        and op = UpdateMetadata] assms(1,2,4,5,7)
    by simp
qed

lemma wp_abort_transaction:
  assumes "ready (dev w) (jm_drive j)" "jm_ok j" "0 < journal_size_sectors j"
    and "unat (COUNTER w) + 1 < 2 ^ 64" "unat (current_sequence j) + 1 < 2 ^ 64"
    and "\<exists>t\<in>set (active_transactions j). tx_id t = i"
    and "\<And>r v. verify_checksum r \<Longrightarrow> lr_sequence_number r = current_sequence j \<Longrightarrow> lr_operation_type r = UpdateMetadata \<Longrightarrow>
      lr_target_file_record r = i \<Longrightarrow> lr_undo_data r = [] \<Longrightarrow> lr_redo_data r = ABORT \<Longrightarrow>
      ready v = ready (dev w) \<Longrightarrow> logged sec j r (dev w) v \<Longrightarrow>
      Q (Ok ()) (j\<lparr>active_transactions := update_first (\<lambda>t. tx_id t = i) tx_abort (active_transactions j),
          current_sequence := current_sequence j + 1\<rparr>, w\<lparr>COUNTER := COUNTER w + 1, dev := v\<rparr>)"
  shows "wp (abort_transaction B i) (j, w) Q"
proof -
  let ?j = "j\<lparr>active_transactions := update_first (\<lambda>t. tx_id t = i) tx_abort (active_transactions j)\<rparr>"
  have "1 \<le> unat (journal_size_sectors j)" using assms(3) by (simp add: word_less_nat_alt)
  then have "data_fits j (length ([] :: bytes) + length ABORT)" by (simp add: data_fits_def ABORT_def)
  moreover have "apply_undo_all rs = Ok ()" for rs by (induction rs) (simp_all add: apply_undo_def)
  moreover obtain t where "find (\<lambda>t. tx_id t = i) (active_transactions j) = Some t"
    using assms(6) by (cases "find (\<lambda>t. tx_id t = i) (active_transactions j)") (auto simp: find_None_iff)
  ultimately show ?thesis
    unfolding abort_transaction_def wp_self
    using wp_append_marker [where j = ?j and w = w and undo = "[]" and redo = ABORT and target = i and Q = Q
        and op = UpdateMetadata] assms(1,2,4,5,7)
    by (simp add: wp_bnd [of "modify _"] wp_modify wp_bnd [of "lift_res _"] wp_lift_res)
qed

end


section \<open>Transactions over time\<close>

lemma write_log_record_snd:
  "io (write_log_record B j r) (j, w) = (Ok (), s') \<Longrightarrow> fst s' = j"
  by (auto simp: io_def split: prod.splits)

lemma bump_sequence_Ok:
  "bump_sequence (j, w) = (Ok (), s') \<Longrightarrow>
     unat (current_sequence j) + 1 < 2 ^ 64 \<and> s' = (j\<lparr>current_sequence := current_sequence j + 1\<rparr>, w)"
  by (auto simp: bump_sequence_def bnd_def gets_def modify_def add_ck_def split: if_splits)

text \<open>What a call that returned \<open>Ok\<close> did to the manager, whatever the device did.\<close>

lemma log_operation_Ok:
  assumes "log_operation B i op target undo redo (j, w) = (Ok (), (j', w'))"
  shows "\<exists>r. verify_checksum r \<and> lr_sequence_number r = current_sequence j
     \<and> (\<exists>t\<in>set (active_transactions j). tx_id t = i \<and> tx_state t = Active)
     \<and> unat (current_sequence j) + 1 < 2 ^ 64
     \<and> j' = j\<lparr>active_transactions := update_first (\<lambda>t. tx_id t = i \<and> tx_state t = Active) (add_record r) (active_transactions j),
          current_sequence := current_sequence j + 1\<rparr>"
  using assms
  by (auto simp: log_operation_def gets_def modify_def Let_def io_def elim!: bnd_OkE
      split: prod.splits if_splits dest!: bump_sequence_Ok LogRecord_new_verifies) blast

lemma commit_transaction_Ok:
  assumes "commit_transaction B i (j, w) = (Ok (), (j', w'))"
  shows "unat (current_sequence j) + 1 < 2 ^ 64
     \<and> j' = j\<lparr>active_transactions := update_first (\<lambda>t. tx_id t = i) tx_commit (active_transactions j),
          current_sequence := current_sequence j + 1\<rparr>"
  using assms
  by (auto simp: commit_transaction_def gets_def modify_def Let_def io_def elim!: bnd_OkE
      split: prod.splits if_splits dest!: bump_sequence_Ok LogRecord_new_verifies)

lemma abort_transaction_Ok:
  assumes "abort_transaction B i (j, w) = (Ok (), (j', w'))"
  shows "unat (current_sequence j) + 1 < 2 ^ 64
     \<and> j' = j\<lparr>active_transactions := update_first (\<lambda>t. tx_id t = i) tx_abort (active_transactions j),
          current_sequence := current_sequence j + 1\<rparr>"
  using assms
  by (auto simp: abort_transaction_def gets_def modify_def Let_def io_def elim!: bnd_OkE
      split: prod.splits if_splits option.splits dest!: bump_sequence_Ok LogRecord_new_verifies)

lemma begin_transaction_Ok:
  assumes "begin_transaction (j, w) = (Ok i, (j', w'))"
  shows "i = next_transaction_id j \<and> unat (next_transaction_id j) + 1 < 2 ^ 64
     \<and> j' = j\<lparr>next_transaction_id := i + 1,
          active_transactions := active_transactions j @ [Transaction_new i (current_sequence j)]\<rparr>"
  using assms
  by (auto simp: begin_transaction_def gets_def modify_def add_ck_def elim!: bnd_OkE split: if_splits)

inductive j_step :: "'v bdev \<Rightarrow> JournalManager \<times> 'v world \<Rightarrow> JournalManager \<times> 'v world \<Rightarrow> bool" for B where
  begins: "begin_transaction s = (Ok i, s') \<Longrightarrow> j_step B s s'"
| logs: "log_operation B i op target undo redo s = (Ok (), s') \<Longrightarrow> j_step B s s'"
| commits: "commit_transaction B i s = (Ok (), s') \<Longrightarrow> j_step B s s'"
| aborts: "abort_transaction B i s = (Ok (), s') \<Longrightarrow> j_step B s s'"
| cleans: "j_step B (j, w) (cleanup_completed_transactions j, w)"

definition seqs :: "Transaction \<Rightarrow> nat list" where
  "seqs t = map (\<lambda>r. unat (lr_sequence_number r)) (tx_records t)"

definition tx_inv :: "u64 \<Rightarrow> Transaction \<Rightarrow> bool" where
  "tx_inv c t \<longleftrightarrow> sorted_wrt (<) (seqs t) \<and> tx_start_sequence t \<le> c
     \<and> (\<forall>r\<in>set (tx_records t). verify_checksum r \<and> tx_start_sequence t \<le> lr_sequence_number r \<and> lr_sequence_number r < c)"

definition j_inv :: "JournalManager \<Rightarrow> bool" where
  "j_inv j \<longleftrightarrow> distinct (map tx_id (active_transactions j))
     \<and> (\<forall>t\<in>set (active_transactions j). tx_id t < next_transaction_id j \<and> tx_inv (current_sequence j) t)
     \<and> distinct (concat (map seqs (active_transactions j)))"

lemma update_first_split:
  assumes "\<exists>x\<in>set xs. p x"
  obtains as x bs where "xs = as @ x # bs" "p x" "\<forall>a\<in>set as. \<not> p a" "update_first p f xs = as @ f x # bs"
  using assms
proof (induction xs arbitrary: thesis)
  case (Cons y ys)
  show ?case
  proof (cases "p y")
    case True
    then show ?thesis by (intro Cons.prems(1) [of "[]" y ys]) simp_all
  next
    case False
    with Cons.prems(2) obtain as x bs where "ys = as @ x # bs" "p x" "\<forall>a\<in>set as. \<not> p a" "update_first p f ys = as @ f x # bs"
      using Cons.IH by auto
    with False show ?thesis by (intro Cons.prems(1) [of "y # as" x bs]) simp_all
  qed
qed simp

lemma update_first_none: "\<not> (\<exists>x\<in>set xs. p x) \<Longrightarrow> update_first p f xs = xs"
  by (induction xs) auto

lemma map_update_first: "(\<And>x. g (f x) = g x) \<Longrightarrow> map g (update_first p f xs) = map g xs"
  by (induction xs) auto

lemma tx_inv_mono: "tx_inv c t \<Longrightarrow> c \<le> c' \<Longrightarrow> tx_inv c' t"
  by (auto simp: tx_inv_def)

lemma update_first_ball:
  "\<forall>x\<in>set xs. P x \<Longrightarrow> (\<And>x. P x \<Longrightarrow> P (f x)) \<Longrightarrow> \<forall>x\<in>set (update_first p f xs). P x"
  by (induction xs) auto

lemma distinct_concat_filter:
  "distinct (concat (map g xs)) \<Longrightarrow> distinct (concat (map g (filter p xs)))"
  by (induction xs) auto

lemma j_inv_new: "j_inv (JournalManager_new d s z)"
  by (simp add: j_inv_def JournalManager_new_def)

lemma word_less_Suc: "unat c + 1 < 2 ^ LENGTH('l) \<Longrightarrow> x < c + 1 \<longleftrightarrow> x \<le> c" for x c :: "'l::len word"
  by (simp add: word_less_nat_alt word_le_nat_alt unat_add_no_wrap less_Suc_eq_le)

lemma j_inv_begin:
  assumes "begin_transaction (j, w) = (Ok i, (j', w'))" and "j_inv j"
  shows "j_inv j'"
proof -
  from begin_transaction_Ok [OF assms(1)] have i: "i = next_transaction_id j" "unat i + 1 < 2 ^ LENGTH(64)"
    and j': "j' = j\<lparr>next_transaction_id := i + 1,
        active_transactions := active_transactions j @ [Transaction_new i (current_sequence j)]\<rparr>" by simp_all
  show ?thesis
    using assms(2) unfolding j_inv_def j'
    by (auto simp: word_less_Suc [OF i(2) [unfolded i(1)]] i(1) Transaction_new_def tx_inv_def seqs_def
        intro: order_less_imp_le)
qed

lemma j_inv_log:
  assumes "log_operation B i op target undo redo (j, w) = (Ok (), (j', w'))" and "j_inv j"
  shows "j_inv j'"
proof -
  let ?p = "\<lambda>t. tx_id t = i \<and> tx_state t = Active"
  from log_operation_Ok [OF assms(1)] obtain r where r: "verify_checksum r" "lr_sequence_number r = current_sequence j"
    and ex: "\<exists>t\<in>set (active_transactions j). ?p t" and c: "unat (current_sequence j) + 1 < 2 ^ LENGTH(64)"
    and j': "j' = j\<lparr>active_transactions := update_first ?p (add_record r) (active_transactions j),
          current_sequence := current_sequence j + 1\<rparr>" by auto
  from ex obtain as x bs where ts: "active_transactions j = as @ x # bs" and x: "?p x"
    and u: "update_first ?p (add_record r) (active_transactions j) = as @ add_record r x # bs"
    by (rule update_first_split)
  have le: "current_sequence j \<le> current_sequence j + 1" using c word_less_Suc [OF c] by (metis order_less_imp_le word_le_less_eq)
  have small: "n < unat (current_sequence j)" if "t \<in> set (active_transactions j)" "n \<in> set (seqs t)" for t n
    using assms(2) that by (auto simp: j_inv_def tx_inv_def seqs_def word_less_nat_alt)
  have sx: "seqs (add_record r x) = seqs x @ [unat (current_sequence j)]"
    using x r by (simp add: add_record_def seqs_def)
  have "tx_inv (current_sequence j) x" using assms(2) ts by (simp add: j_inv_def)
  then have "tx_inv (current_sequence j + 1) (add_record r x)"
    using x r small [of x] ts le word_less_Suc [OF c]
    by (auto simp: tx_inv_def sx sorted_wrt_append) (auto simp: add_record_def intro: order_less_le_trans)
  moreover have "tx_inv (current_sequence j + 1) t" if "t \<in> set as \<union> set bs" for t
    using assms(2) ts that le by (auto simp: j_inv_def intro: tx_inv_mono)
  moreover have "tx_id (add_record r x) = tx_id x" by (simp add: add_record_def)
  moreover have "distinct (concat (map seqs (as @ add_record r x # bs)))"
    using assms(2) small unfolding j_inv_def ts by (auto simp: sx)
  ultimately show ?thesis
    using assms(2) unfolding j_inv_def j' by (auto simp: u [unfolded ts] ts)
qed

lemma j_inv_finish:
  assumes "j_inv j" and "unat (current_sequence j) + 1 < 2 ^ LENGTH(64)" and "f = tx_commit \<or> f = tx_abort"
  shows "j_inv (j\<lparr>active_transactions := update_first p f (active_transactions j),
          current_sequence := current_sequence j + 1\<rparr>)"
proof -
  have f: "tx_id (f t) = tx_id t" "seqs (f t) = seqs t" "tx_inv c (f t) = tx_inv c t" for t c
    using assms(3) by (auto simp: tx_commit_def tx_abort_def seqs_def tx_inv_def)
  have "current_sequence j \<le> current_sequence j + 1"
    using word_less_Suc [OF assms(2)] by (metis order_less_imp_le word_le_less_eq)
  then have "\<forall>t\<in>set (active_transactions j). tx_id t < next_transaction_id j \<and> tx_inv (current_sequence j + 1) t"
    using assms(1) by (auto simp: j_inv_def intro: tx_inv_mono)
  then have "\<forall>t\<in>set (update_first p f (active_transactions j)).
      tx_id t < next_transaction_id j \<and> tx_inv (current_sequence j + 1) t"
    by (rule update_first_ball) (simp add: f)
  then show ?thesis
    using assms(1) by (simp add: j_inv_def map_update_first f)
qed

lemma j_step_inv: "j_step B s s' \<Longrightarrow> j_inv (fst s) \<Longrightarrow> j_inv (fst s')"
proof (induction rule: j_step.induct)
  case (begins s i s')
  then show ?case by (cases s, cases s') (auto intro: j_inv_begin)
next
  case (logs i op target undo redo s s')
  then show ?case by (cases s, cases s') (auto intro: j_inv_log)
next
  case (commits i s s')
  then show ?case by (cases s, cases s') (auto dest!: commit_transaction_Ok intro: j_inv_finish)
next
  case (aborts i s s')
  then show ?case by (cases s, cases s') (auto dest!: abort_transaction_Ok intro: j_inv_finish)
next
  case (cleans j w)
  then show ?case
    by (auto simp: j_inv_def cleanup_completed_transactions_def distinct_map_filter distinct_concat_filter)
qed


section \<open>Recovery changes nothing\<close>

lemma scan_sector_Ok: "scan_sector j d i = Ok ()"
proof (induction j d i rule: scan_sector.induct)
  case (1 j d i)
  show ?case
    by (subst scan_sector.simps) (auto simp: is_transaction_committed_def 1 split: res.splits)
qed

context block_device
begin

lemma wp_recover_loop:
  assumes "ready (dev w) (jm_drive j)" "\<forall>s\<in>set ss. unat (journal_start_sector j) + unat s < 2 ^ 28"
    and "\<And>v. sec v = sec (dev w) \<Longrightarrow> ready v = ready (dev w) \<Longrightarrow> Q (Ok ()) (w\<lparr>dev := v\<rparr>)"
  shows "wp (recover_loop B j ss) w Q"
  using assms
proof (induction ss arbitrary: w)
  case Nil
  then show ?case using Nil.prems(3) [of "dev w"] by (simp add: wp_def)
next
  case (Cons s ss)
  have s: "unat (journal_start_sector j) + unat s < 2 ^ 28" using Cons.prems(2) by simp
  then have a: "add_ck (journal_start_sector j) s = (Ok (journal_start_sector j + s) :: (fs_error, u64) res)"
    by (simp add: add_ck_def)
  have u: "unat (journal_start_sector j + s) = unat (journal_start_sector j) + unat s"
    using s by (intro unat_add_no_wrap) simp
  have l: "unat (as_u32 (journal_start_sector j + s)) < 2 ^ 28"
    using s u by (subst ucast_small) simp_all
  have "wp (dread B (jm_drive j) 1 (as_u32 (journal_start_sector j + s)) (replicate 512 0)) w (\<lambda>r w'. case r of
      Ok x \<Rightarrow> wp (recover_loop B j ss) w' Q | Err e \<Rightarrow> Q (Err e) w' | Panic \<Rightarrow> Q Panic w')"
  proof (rule wp_dread1 [OF Cons.prems(1) _ l])
    fix v
    assume v: "sec v = sec (dev w)" "ready v = ready (dev w)"
    have "wp (recover_loop B j ss) (w\<lparr>dev := v\<rparr>) Q"
      by (rule Cons.IH) (use Cons.prems v in auto)
    then show "case Ok (sec (dev w) (jm_drive j) (unat (as_u32 (journal_start_sector j + s)))) of
        Ok x \<Rightarrow> wp (recover_loop B j ss) (w\<lparr>dev := v\<rparr>) Q | Err e \<Rightarrow> Q (Err e) (w\<lparr>dev := v\<rparr>)
      | Panic \<Rightarrow> Q Panic (w\<lparr>dev := v\<rparr>)" by simp
  qed simp
  then show ?case
    by (simp add: read_journal_sector_def a scan_sector_Ok wp_bnd wp_lift_res cong: res.case_cong)
qed

lemma wp_recover:
  assumes "ready (dev w) (jm_drive j)" and "jm_ok j"
    and "\<And>v. sec v = sec (dev w) \<Longrightarrow> ready v = ready (dev w) \<Longrightarrow> Q (Ok ()) (w\<lparr>dev := v\<rparr>)"
  shows "wp (recover B j) w Q"
  unfolding recover_def
proof (rule wp_recover_loop [OF assms(1)], intro ballI)
  fix s :: u64
  assume "s \<in> set (map of_nat [0..<unat (journal_size_sectors j)])"
  then obtain n where "s = of_nat n" "n < unat (journal_size_sectors j)" by auto
  moreover from this have "unat s = n"
    using unat_bound [of "journal_size_sectors j"] by (simp add: unat_of_nat)
  ultimately show "unat (journal_start_sector j) + unat s < 2 ^ 28" using assms(2) by (simp add: jm_ok_def)
qed (rule assms(3))

end


section \<open>Properties\<close>



text \<open>
  C29: A log record read back from its bytes, whatever follows them, is the record that was written;
  and when one byte of its undo or redo data has changed to another value, reading reports an error.
\<close>

theorem log_record_roundtrip_and_corruption:
  assumes "verify_checksum r" and "length (lr_undo_data r) < 2 ^ 32" and "length (lr_redo_data r) < 2 ^ 32"
    and "i < length (lr_undo_data r @ lr_redo_data r)" and "b \<noteq> (lr_undo_data r @ lr_redo_data r) ! i"
  shows "LogRecord_deserialize (LogRecord_serialize [] r @ rest) = Ok r
     \<and> LogRecord_deserialize ((LogRecord_serialize [] r @ rest)[44 + i := b]) = Err InvalidParameter"
proof -
  have "\<not> verify_checksum (poke_data i b r)"
  proof -
    have "calculate_checksum (poke_data i b r) \<noteq> calculate_checksum r"
      using assms(5) by (simp add: poke_data_checksum [OF assms(4)] xor_cancel ucast_u8_inj)
    moreover have "lr_checksum (poke_data i b r) = lr_checksum r" by (simp add: poke_data_def)
    ultimately show ?thesis using assms(1) by (simp add: verify_checksum_def)
  qed
  moreover have "length (lr_undo_data (poke_data i b r)) < 2 ^ 32" "length (lr_redo_data (poke_data i b r)) < 2 ^ 32"
    using assms(2,3) by (simp_all add: poke_data_def)
  ultimately show ?thesis
    using assms(1-3) by (simp add: poke_data_bytes [OF assms(4)] LogRecord_reread)
qed

theorem log_record_roundtrip_and_corruption_witness:
  "let r = \<lparr>lr_sequence_number = 3, lr_operation_type = WriteData, lr_target_file_record = 17,
       lr_undo_data = [], lr_redo_data = [1, 2], lr_checksum = 18, lr_timestamp = 5\<rparr>
   in LogRecord_deserialize ((LogRecord_serialize [] r @ [])[44 + 1 := 7]) = Err InvalidParameter"
  using log_record_roundtrip_and_corruption [of "\<lparr>lr_sequence_number = 3, lr_operation_type = WriteData,
      lr_target_file_record = 17, lr_undo_data = [], lr_redo_data = [1, 2], lr_checksum = 18, lr_timestamp = 5\<rparr>" 1 7 "[]"]
  by (simp add: verify_checksum_def calculate_checksum_def)

text \<open>
  C30: Recovery reads the journal and returns normally, and leaves every sector of every drive as it
  found it: no logged operation is undone or redone.
\<close>

theorem recover_changes_nothing:
  assumes "block_device B ready sec" and "ready (dev w) (jm_drive j)" and "jm_ok j"
  shows "case recover B j w of (r, w') \<Rightarrow> r = Ok () \<and> sec (dev w') = sec (dev w) \<and> w' = w\<lparr>dev := dev w'\<rparr>"
proof -
  have "wp (recover B j) w (\<lambda>r w'. r = Ok () \<and> sec (dev w') = sec (dev w) \<and> w' = w\<lparr>dev := dev w'\<rparr>)"
    by (rule block_device.wp_recover [OF assms]) simp
  then show ?thesis by (simp add: wp_def)
qed

theorem recover_changes_nothing_witness:
  "fst (recover ram_bdev (JournalManager_new 0 100 8) (blank_world 2000)) = Ok ()"
  using recover_changes_nothing [where ready = ram_ready and sec = ram_sec and w = "blank_world 2000"
      and j = "JournalManager_new 0 100 8", OF ram.block_device_axioms]
  by (auto simp: JournalManager_new_def jm_ok_def split: prod.splits)

text \<open>The sectors of a commit record: two, at the slot its sequence number selects.\<close>

lemma commit_slot:
  assumes "lr_undo_data r = []" "lr_redo_data r = COMMIT"
  shows "lr_sectors r = 2" "lr_size r = 56"
    "lr_slot j r = unat (lr_sequence_number r) mod (8 * unat (journal_size_sectors j)) div 8"
proof -
  show s: "lr_size r = 56" using assms by (simp add: lr_size_def COMMIT_def)
  then show "lr_sectors r = 2" by (simp add: lr_sectors_def)
  have "unat (journal_size_sectors j) * 512 div 64 = 8 * unat (journal_size_sectors j)" by simp
  then show "lr_slot j r = unat (lr_sequence_number r) mod (8 * unat (journal_size_sectors j)) div 8"
    using s by (simp add: lr_slot_def div_mult2_eq [of _ 64 8, simplified])
qed

text \<open>A commit in the last sector of the journal also clears the sector behind the journal.\<close>

context block_device
begin

lemma wp_commit_last_slot:
  assumes "ready (dev w) (jm_drive j)" and "jm_ok j" and "0 < journal_size_sectors j"
    and "\<exists>t\<in>set (active_transactions j). tx_id t = i"
    and "unat (COUNTER w) + 1 < 2 ^ 64" and "unat (current_sequence j) + 1 < 2 ^ 64"
    and "unat (current_sequence j) mod (8 * unat (journal_size_sectors j)) div 8 = unat (journal_size_sectors j) - 1"
  shows "wp (commit_transaction B i) (j, w) (\<lambda>r s. r = Ok ()
     \<and> sec (dev (snd s)) (jm_drive j) (unat (journal_start_sector j) + unat (journal_size_sectors j)) = replicate 512 0)"
proof (rule wp_commit_transaction [OF assms(1-3,5,6,4)])
  let ?n = "unat (journal_size_sectors j)"
  fix r v
  assume r: "lr_sequence_number r = current_sequence j" "lr_undo_data r = []" "lr_redo_data r = COMMIT"
    and v: "logged sec j r (dev w) v"
  have n: "0 < ?n" using assms(3) by (simp add: word_less_nat_alt)
  have slot: "lr_slot j r = ?n - 1" using commit_slot(3) [OF r(2,3)] assms(7) r(1) by simp
  have "unat (journal_start_sector j) + ?n - (unat (journal_start_sector j) + lr_slot j r) = 1"
    using slot n by simp
  then have "sec v (jm_drive j) (unat (journal_start_sector j) + ?n) = window 512 512
      (LogRecord_serialize [] r @ replicate (lr_sectors r * 512 - lr_size r) 0)"
    using v slot n commit_slot(1) [OF r(2,3)] by (simp add: logged_def write_sectors_def)
  also have "\<dots> = replicate 512 0"
    using commit_slot(1,2) [OF r(2,3)] by (simp add: length_serialized window_def)
  finally show "Ok () = Ok () \<and> sec (dev (snd (j\<lparr>active_transactions := update_first (\<lambda>t. tx_id t = i) tx_commit
        (active_transactions j), current_sequence := current_sequence j + 1\<rparr>, w\<lparr>COUNTER := COUNTER w + 1, dev := v\<rparr>)))
      (jm_drive j) (unat (journal_start_sector j) + ?n) = replicate 512 0" by simp
qed

end

lemma on_journal_target:
  "on_journal sec j r v \<Longrightarrow> lr_undo_data r = [] \<Longrightarrow> lr_redo_data r = COMMIT \<Longrightarrow>
     LogRecord_deserialize (read_sectors (sec v (jm_drive j)) (unat (journal_start_sector j)
       + unat (lr_sequence_number r) mod (8 * unat (journal_size_sectors j)) div 8) 2) = Ok r"
  by (simp add: on_journal_def commit_slot)

lemma same_slot:
  fixes c :: u64
  assumes "unat c mod 8 \<noteq> 7" and "0 < n" and "unat c + 1 < 2 ^ LENGTH(64)"
  shows "unat (c + 1) mod (8 * n) div 8 = unat c mod (8 * n) div 8"
proof -
  have "unat (c + 1) = Suc (unat c)" using assms(3) by (simp add: unat_add_no_wrap)
  moreover have "Suc x mod (8 * n) div 8 = x mod (8 * n) div 8" if "x mod 8 \<noteq> 7" for x :: nat
  proof -
    have x: "x mod (8 * n) = 8 * (x div 8 mod n) + x mod 8" by (simp add: mod_mult2_eq)
    have "x mod 8 < 8" by simp
    with that have "Suc (x mod 8) < 8" by linarith
    then have d: "Suc x mod 8 = Suc (x mod 8)" "Suc x div 8 = x div 8" by (simp_all add: mod_Suc div_Suc)
    then have "Suc x mod (8 * n) = 8 * (x div 8 mod n) + Suc (x mod 8)" by (simp add: mod_mult2_eq)
    then show ?thesis using x \<open>Suc (x mod 8) < 8\<close> by simp
  qed
  ultimately show ?thesis using assms(1) by simp
qed

text \<open>
  Two transactions committed one after the other share a slot of the journal unless the first
  sequence number is seven modulo eight: after the second commit, the sectors where the first commit
  record was written hold the second one, so the first commit is no longer on disk.
\<close>

theorem commit_overwrites_previous:
  assumes "block_device B ready sec" and "ready (dev w) (jm_drive j)" and "jm_ok j"
    and "0 < journal_size_sectors j" and "\<exists>t\<in>set (active_transactions j). tx_id t = a"
    and "\<exists>t\<in>set (active_transactions j). tx_id t = b"
    and "unat (COUNTER w) + 2 < 2 ^ 64" and "unat (current_sequence j) + 2 < 2 ^ 64"
    and "unat (current_sequence j) mod 8 \<noteq> 7"
  shows "case bnd (commit_transaction B a) (\<lambda>_. commit_transaction B b) (j, w) of (r, j', w') \<Rightarrow> r = Ok ()
     \<and> (\<exists>rec. lr_target_file_record rec = b \<and> LogRecord_deserialize (read_sectors (sec (dev w') (jm_drive j))
           (unat (journal_start_sector j)
             + unat (current_sequence j) mod (8 * unat (journal_size_sectors j)) div 8) 2) = Ok rec)"
proof -
  let ?n = "unat (journal_size_sectors j)" and ?c = "current_sequence j"
  let ?Q = "\<lambda>r s. r = Ok () \<and> (\<exists>rec. lr_target_file_record rec = b \<and> LogRecord_deserialize
      (read_sectors (sec (dev (snd s)) (jm_drive j)) (unat (journal_start_sector j) + unat ?c mod (8 * ?n) div 8) 2) = Ok rec)"
  have n: "0 < ?n" using assms(4) by (simp add: word_less_nat_alt)
  have fits: "lr_fits j rec" if "lr_undo_data rec = []" "lr_redo_data rec = COMMIT" for rec
    using that n by (simp add: lr_fits_iff data_fits_def COMMIT_def)
  have c1: "unat (?c + 1) = unat ?c + 1" "unat (COUNTER w + 1) = unat (COUNTER w) + 1"
    using assms(7,8) by (simp_all add: unat_add_no_wrap)
  have "wp (bnd (commit_transaction B a) (\<lambda>_. commit_transaction B b)) (j, w) ?Q"
    unfolding wp_bnd
  proof (rule block_device.wp_commit_transaction [OF assms(1-4)])
    fix r v
    let ?ts = "update_first (\<lambda>t. tx_id t = a) tx_commit (active_transactions j)"
    let ?j = "j\<lparr>active_transactions := ?ts, current_sequence := ?c + 1\<rparr>"
    let ?w = "w\<lparr>COUNTER := COUNTER w + 1, dev := v\<rparr>"
    assume v: "ready v = ready (dev w)"
    have ids: "tx_id ` set ?ts = tx_id ` set (active_transactions j)"
      using map_update_first [of tx_id tx_commit "\<lambda>t. tx_id t = a" "active_transactions j"]
      by (simp add: tx_commit_def flip: set_map)
    have "wp (commit_transaction B b) (?j, ?w) ?Q"
    proof (rule block_device.wp_commit_transaction [OF assms(1)])
      fix r' v'
      assume r': "verify_checksum r'" "lr_sequence_number r' = current_sequence ?j" "lr_target_file_record r' = b"
        "lr_undo_data r' = []" "lr_redo_data r' = COMMIT" "logged sec ?j r' (dev ?w) v'"
      then have "on_journal sec j r' v'"
        using block_device.logged_on_journal [OF assms(1)] fits by auto
      from on_journal_target [OF this r'(4,5)] r'(2)
      have "LogRecord_deserialize (read_sectors (sec v' (jm_drive j))
          (unat (journal_start_sector j) + unat (?c + 1) mod (8 * ?n) div 8) 2) = Ok r'" by simp
      then have "LogRecord_deserialize (read_sectors (sec v' (jm_drive j))
          (unat (journal_start_sector j) + unat ?c mod (8 * ?n) div 8) 2) = Ok r'"
        using same_slot [OF assms(9) n] assms(8) by simp
      then show "?Q (Ok ()) (?j\<lparr>active_transactions := update_first (\<lambda>t. tx_id t = b) tx_commit (active_transactions ?j),
          current_sequence := current_sequence ?j + 1\<rparr>, ?w\<lparr>COUNTER := COUNTER ?w + 1, dev := v'\<rparr>)"
        using r'(3) by auto
    next
      have "b \<in> tx_id ` set ?ts" unfolding ids using assms(6) by auto
      then show "\<exists>t\<in>set (active_transactions ?j). tx_id t = b" by auto
    qed (use assms(2-4,7,8) v c1 in simp_all)
    then show "case Ok () of Ok x \<Rightarrow> wp (commit_transaction B b) (?j, ?w) ?Q
      | Err e \<Rightarrow> ?Q (Err e) (?j, ?w) | Panic \<Rightarrow> ?Q Panic (?j, ?w)" by simp
  qed (use assms in simp_all)
  then show ?thesis by (auto simp: wp_def split: prod.splits)
qed

theorem commit_overwrites_previous_witness:
  "let j = (JournalManager_new 0 100 8)\<lparr>active_transactions := [Transaction_new 1 1, Transaction_new 2 1]\<rparr>
   in fst (bnd (commit_transaction ram_bdev 1) (\<lambda>_. commit_transaction ram_bdev 2) (j, blank_world 2000)) = Ok ()"
  using commit_overwrites_previous [where ready = ram_ready and sec = ram_sec and w = "blank_world 2000" and a = 1 and b = 2
      and j = "(JournalManager_new 0 100 8)\<lparr>active_transactions := [Transaction_new 1 1, Transaction_new 2 1]\<rparr>",
      OF ram.block_device_axioms]
  by (simp add: JournalManager_new_def jm_ok_def Transaction_new_def word_less_nat_alt blank_world_def
      split: prod.splits) (auto simp: blank_disk_def ram_ready_def split: prod.splits)

end
