(* ===== verification/File_Record.thy ===== *)
theory File_Record
  imports Mft Journal
begin

text \<open>
  Files on top of the master file table and the journal, \<^verbatim>\<open>crates/galleon2/src/file_record.rs\<close>: the
  Standard Information and File Name attributes with their byte formats, and the manager that creates,
  reads, writes and deletes files in journalled transactions.

  A Rust \<^verbatim>\<open>String\<close> is its UTF-8 bytes here.
\<close>

section \<open>Attributes of a file\<close>

record FileTimes =
  creation_time :: u64
  last_access_time :: u64
  last_write_time :: u64
  mft_change_time :: u64

definition get_current_time :: u64 where
  "get_current_time = 0x01D0000000000000"

definition FileTimes_new :: FileTimes where
  "FileTimes_new = \<lparr>creation_time = get_current_time, last_access_time = get_current_time,
     last_write_time = get_current_time, mft_change_time = get_current_time\<rparr>"

definition update_access :: "FileTimes \<Rightarrow> FileTimes" where
  "update_access self = self\<lparr>last_access_time := get_current_time\<rparr>"

definition update_write :: "FileTimes \<Rightarrow> FileTimes" where
  "update_write self = self\<lparr>last_write_time := get_current_time, mft_change_time := get_current_time\<rparr>"

definition update_metadata :: "FileTimes \<Rightarrow> FileTimes" where
  "update_metadata self = self\<lparr>mft_change_time := get_current_time\<rparr>"

record FileAttributes =
  fa_readonly :: bool
  fa_hidden :: bool
  fa_system :: bool
  fa_directory :: bool
  fa_archive :: bool
  fa_normal :: bool
  fa_temporary :: bool
  fa_sparse_file :: bool
  fa_reparse_point :: bool
  fa_compressed :: bool
  fa_encrypted :: bool

definition FileAttributes_new_file :: FileAttributes where
  "FileAttributes_new_file = \<lparr>fa_readonly = False, fa_hidden = False, fa_system = False, fa_directory = False,
     fa_archive = True, fa_normal = True, fa_temporary = False, fa_sparse_file = False,
     fa_reparse_point = False, fa_compressed = False, fa_encrypted = False\<rparr>"

definition FileAttributes_new_directory :: FileAttributes where
  "FileAttributes_new_directory = \<lparr>fa_readonly = False, fa_hidden = False, fa_system = False, fa_directory = True,
     fa_archive = False, fa_normal = False, fa_temporary = False, fa_sparse_file = False,
     fa_reparse_point = False, fa_compressed = False, fa_encrypted = False\<rparr>"

definition FileAttributes_to_u32 :: "FileAttributes \<Rightarrow> u32" where
  "FileAttributes_to_u32 self =
     (let attrs = 0;
          attrs = (if fa_readonly self then attrs OR 0x1 else attrs);
          attrs = (if fa_hidden self then attrs OR 0x2 else attrs);
          attrs = (if fa_system self then attrs OR 0x4 else attrs);
          attrs = (if fa_directory self then attrs OR 0x10 else attrs);
          attrs = (if fa_archive self then attrs OR 0x20 else attrs);
          attrs = (if fa_normal self then attrs OR 0x80 else attrs);
          attrs = (if fa_temporary self then attrs OR 0x100 else attrs);
          attrs = (if fa_sparse_file self then attrs OR 0x200 else attrs);
          attrs = (if fa_reparse_point self then attrs OR 0x400 else attrs);
          attrs = (if fa_compressed self then attrs OR 0x800 else attrs);
          attrs = (if fa_encrypted self then attrs OR 0x4000 else attrs)
      in attrs)"

definition FileAttributes_from_u32 :: "u32 \<Rightarrow> FileAttributes" where
  "FileAttributes_from_u32 v =
     \<lparr>fa_readonly = (v AND 0x1 \<noteq> 0), fa_hidden = (v AND 0x2 \<noteq> 0), fa_system = (v AND 0x4 \<noteq> 0),
      fa_directory = (v AND 0x10 \<noteq> 0), fa_archive = (v AND 0x20 \<noteq> 0), fa_normal = (v AND 0x80 \<noteq> 0),
      fa_temporary = (v AND 0x100 \<noteq> 0), fa_sparse_file = (v AND 0x200 \<noteq> 0),
      fa_reparse_point = (v AND 0x400 \<noteq> 0), fa_compressed = (v AND 0x800 \<noteq> 0),
      fa_encrypted = (v AND 0x4000 \<noteq> 0)\<rparr>"

record StandardInformation =
  si_times :: FileTimes
  si_file_attributes :: FileAttributes
  maximum_versions :: u32
  version_number :: u32
  class_id :: u32
  owner_id :: u32
  security_id :: u32
  quota_charged :: u64
  update_sequence_number :: u64

definition StandardInformation_new :: "FileAttributes \<Rightarrow> StandardInformation" where
  "StandardInformation_new attrs = \<lparr>si_times = FileTimes_new, si_file_attributes = attrs, maximum_versions = 0,
     version_number = 0, class_id = 0, owner_id = 0, security_id = 0, quota_charged = 0, update_sequence_number = 0\<rparr>"

definition StandardInformation_new_file :: StandardInformation where
  "StandardInformation_new_file = StandardInformation_new FileAttributes_new_file"

definition StandardInformation_new_directory :: StandardInformation where
  "StandardInformation_new_directory = StandardInformation_new FileAttributes_new_directory"

definition StandardInformation_serialize :: "StandardInformation \<Rightarrow> bytes" where
  "StandardInformation_serialize self =
     to_le_bytes (creation_time (si_times self)) @ to_le_bytes (last_access_time (si_times self))
     @ to_le_bytes (last_write_time (si_times self)) @ to_le_bytes (mft_change_time (si_times self))
     @ to_le_bytes (FileAttributes_to_u32 (si_file_attributes self))
     @ to_le_bytes (maximum_versions self) @ to_le_bytes (version_number self) @ to_le_bytes (class_id self)
     @ to_le_bytes (owner_id self) @ to_le_bytes (security_id self)
     @ to_le_bytes (quota_charged self) @ to_le_bytes (update_sequence_number self)"

definition StandardInformation_deserialize :: "bytes \<Rightarrow> (fs_error, StandardInformation) res" where
  "StandardInformation_deserialize data =
     (if length data < 72 then Err InvalidParameter
      else Ok
        \<lparr>si_times = \<lparr>creation_time = get_le 0 data, last_access_time = get_le 8 data,
           last_write_time = get_le 16 data, mft_change_time = get_le 24 data\<rparr>,
         si_file_attributes = FileAttributes_from_u32 (get_le 32 data),
         maximum_versions = get_le 36 data, version_number = get_le 40 data, class_id = get_le 44 data,
         owner_id = get_le 48 data, security_id = get_le 52 data,
         quota_charged = get_le 56 data, update_sequence_number = get_le 64 data\<rparr>)"

record FileName =
  fn_parent_directory :: FileRecordNumber
  fn_name :: bytes
  fn_namespace :: u8
  fn_file_size :: u64
  fn_allocated_size :: u64
  fn_times :: FileTimes
  fn_file_attributes :: FileAttributes

definition FileName_new :: "FileRecordNumber \<Rightarrow> bytes \<Rightarrow> bool \<Rightarrow> FileName" where
  "FileName_new parent name is_dir =
     \<lparr>fn_parent_directory = parent, fn_name = name, fn_namespace = 1, fn_file_size = 0, fn_allocated_size = 0,
      fn_times = FileTimes_new,
      fn_file_attributes = (if is_dir then FileAttributes_new_directory else FileAttributes_new_file)\<rparr>"

definition FileName_serialize :: "FileName \<Rightarrow> bytes" where
  "FileName_serialize self = pad8
     (to_le_bytes (fn_parent_directory self)
      @ to_le_bytes (creation_time (fn_times self)) @ to_le_bytes (last_access_time (fn_times self))
      @ to_le_bytes (last_write_time (fn_times self)) @ to_le_bytes (mft_change_time (fn_times self))
      @ to_le_bytes (fn_allocated_size self) @ to_le_bytes (fn_file_size self)
      @ to_le_bytes (FileAttributes_to_u32 (fn_file_attributes self))
      @ [of_nat (length (fn_name self)), fn_namespace self]
      @ concat (map (\<lambda>byte. [byte, 0]) (fn_name self)))"

text \<open>\<^verbatim>\<open>name.push(b as char)\<close>: the character U+00XX, one or two bytes in UTF-8.\<close>

definition push_char :: "u8 \<Rightarrow> bytes" where
  "push_char b = (if b < 0x80 then [b] else [0xC0 OR drop_bit 6 b, 0x80 OR (b AND 0x3F)])"

definition FileName_deserialize :: "bytes \<Rightarrow> (fs_error, FileName) res" where
  "FileName_deserialize data =
     (if length data < 66 then Err InvalidParameter
      else
        let name_length = unat (data ! 60)
        in Ok \<lparr>fn_parent_directory = get_le 0 data,
             fn_name = concat (map (\<lambda>i. if 62 + i * 2 < length data then push_char (data ! (62 + i * 2)) else [])
                         [0..<name_length]),
             fn_namespace = data ! 61, fn_file_size = get_le 48 data, fn_allocated_size = get_le 40 data,
             fn_times = \<lparr>creation_time = get_le 8 data, last_access_time = get_le 16 data,
               last_write_time = get_le 24 data, mft_change_time = get_le 32 data\<rparr>,
             fn_file_attributes = FileAttributes_from_u32 (get_le 56 data)\<rparr>)"


section \<open>The manager\<close>

record FileRecordManager =
  mft_manager :: MftManager
  journal_manager :: JournalManager

definition FileRecordManager_new :: "MftManager \<Rightarrow> JournalManager \<Rightarrow> FileRecordManager" where
  "FileRecordManager_new m j = \<lparr>mft_manager = m, journal_manager = j\<rparr>"

definition with_journal :: "(JournalManager, 'v, 'a) meth \<Rightarrow> (FileRecordManager, 'v, 'a) meth" where
  "with_journal m = zoom journal_manager (\<lambda>j s. s\<lparr>journal_manager := j\<rparr>) m"

definition with_mft :: "(MftManager \<Rightarrow> ('v, 'a) fs) \<Rightarrow> (FileRecordManager, 'v, 'a) meth" where
  "with_mft f = bnd (gets mft_manager) (\<lambda>m. io (f m))"

definition set_in_use :: "bool \<Rightarrow> MftRecord \<Rightarrow> MftRecord" where
  "set_in_use is_dir r = r\<lparr>mr_header := set_flags (RecordFlags_new\<lparr>in_use := True, is_directory := is_dir\<rparr>) (mr_header r)\<rparr>"

definition file_record :: "FileRecordNumber \<Rightarrow> FileRecordNumber \<Rightarrow> bytes \<Rightarrow> (fs_error, MftRecord) res" where
  "file_record file_record_number parent_directory name =
     bind_res (new_resident StandardInformation (StandardInformation_serialize StandardInformation_new_file)) (\<lambda>std_info_attr.
     bind_res (add_attribute std_info_attr (set_in_use False (MftRecord_new file_record_number))) (\<lambda>rec.
     bind_res (new_resident FileName (FileName_serialize (FileName_new parent_directory name False))) (\<lambda>file_name_attr.
       add_attribute file_name_attr rec)))"

definition data_attribute :: "bytes \<Rightarrow> (fs_error, Attribute) res" where
  "data_attribute file_data =
     (if length file_data \<le> 700 then new_resident Data file_data
      else new_non_resident Data [ClusterRun_new 0 1] (of_nat (length file_data)))"

definition create_file :: "'v bdev \<Rightarrow> FileRecordNumber \<Rightarrow> bytes \<Rightarrow> bytes option \<Rightarrow> (FileRecordManager, 'v, FileRecordNumber) meth" where
  "create_file B parent_directory name data =
     bnd (with_journal begin_transaction) (\<lambda>transaction_id.
     bnd (with_mft allocate_record) (\<lambda>file_record_number.
     bnd (lift_res (file_record file_record_number parent_directory name)) (\<lambda>rec.
     bnd (case data of
            None \<Rightarrow> ret rec
          | Some file_data \<Rightarrow>
              bnd (lift_res (data_attribute file_data)) (\<lambda>data_attr.
              bnd (lift_res (add_attribute data_attr rec)) (\<lambda>rec.
              bnd (lift_res (MftRecord_serialize rec)) (\<lambda>redo.
              bnd (with_journal (log_operation B transaction_id CreateFile file_record_number [] redo)) (\<lambda>_.
                ret rec))))) (\<lambda>rec.
     bnd (with_mft (\<lambda>m. write_record B m rec)) (\<lambda>_.
     bnd (with_journal (commit_transaction B transaction_id)) (\<lambda>_.
       ret file_record_number))))))"

text \<open>\<^verbatim>\<open>b"INDX"\<close> and three words.\<close>

definition create_empty_index_root :: bytes where
  "create_empty_index_root = [73, 78, 68, 88] @ to_le_bytes (0 :: u32) @ to_le_bytes (16 :: u32) @ to_le_bytes (0 :: u32)"

definition directory_record :: "FileRecordNumber \<Rightarrow> (fs_error, MftRecord) res" where
  "directory_record dir_record_number =
     bind_res (new_resident StandardInformation (StandardInformation_serialize StandardInformation_new_directory)) (\<lambda>std_info_attr.
     bind_res (add_attribute std_info_attr (set_in_use True (MftRecord_new dir_record_number))) (\<lambda>rec.
     bind_res (new_resident IndexRoot create_empty_index_root) (\<lambda>index_root_attr.
       add_attribute index_root_attr rec)))"

definition create_directory :: "'v bdev \<Rightarrow> FileRecordNumber \<Rightarrow> (FileRecordManager, 'v, FileRecordNumber) meth" where
  "create_directory B parent_directory =
     bnd (with_journal begin_transaction) (\<lambda>transaction_id.
     bnd (with_mft allocate_record) (\<lambda>dir_record_number.
     bnd (lift_res (directory_record dir_record_number)) (\<lambda>rec.
     bnd (lift_res (MftRecord_serialize rec)) (\<lambda>redo.
     bnd (with_journal (log_operation B transaction_id CreateDirectory dir_record_number [] redo)) (\<lambda>_.
     bnd (with_mft (\<lambda>m. write_record B m rec)) (\<lambda>_.
     bnd (with_journal (commit_transaction B transaction_id)) (\<lambda>_.
       ret dir_record_number)))))))"

text \<open>The loops over the attributes that rewrite the times of the first Standard Information.\<close>

fun touch_times :: "(FileTimes \<Rightarrow> FileTimes) \<Rightarrow> Attribute list \<Rightarrow> (fs_error, Attribute list) res" where
  "touch_times f [] = Ok []"
| "touch_times f (a # as) =
     (if ah_attr_type (at_header a) = attr_type_code StandardInformation then
        (case at_data a of
           Resident d \<Rightarrow>
             bind_res (StandardInformation_deserialize d) (\<lambda>std_info.
               Ok (a\<lparr>at_data := Resident (StandardInformation_serialize (std_info\<lparr>si_times := f (si_times std_info)\<rparr>))\<rparr> # as))
         | NonResident _ _ _ _ \<Rightarrow> Ok (a # as))
      else bind_res (touch_times f as) (\<lambda>as. Ok (a # as)))"

definition update_access_time :: "'v bdev \<Rightarrow> FileRecordNumber \<Rightarrow> (FileRecordManager, 'v, unit) meth" where
  "update_access_time B file_record_number =
     bnd (with_mft (\<lambda>m. read_record B m file_record_number)) (\<lambda>rec.
     bnd (lift_res (touch_times update_access (mr_attributes rec))) (\<lambda>as.
       with_mft (\<lambda>m. write_record B m (rec\<lparr>mr_attributes := as\<rparr>))))"

definition update_write_time :: "MftRecord \<Rightarrow> (fs_error, MftRecord) res" where
  "update_write_time rec =
     bind_res (touch_times update_write (mr_attributes rec)) (\<lambda>as. Ok (rec\<lparr>mr_attributes := as\<rparr>))"

definition read_file :: "'v bdev \<Rightarrow> FileRecordNumber \<Rightarrow> (FileRecordManager, 'v, bytes) meth" where
  "read_file B file_record_number =
     bnd (with_mft (\<lambda>m. read_record B m file_record_number)) (\<lambda>rec.
     case find (\<lambda>a. ah_attr_type (at_header a) = attr_type_code Data) (mr_attributes rec) of
       None \<Rightarrow> fail InvalidParameter
     | Some attr \<Rightarrow>
         (case at_data attr of
            Resident data \<Rightarrow> bnd (update_access_time B file_record_number) (\<lambda>_. ret data)
          | NonResident _ _ real_size _ \<Rightarrow>
              bnd (update_access_time B file_record_number) (\<lambda>_. ret (replicate (unat real_size) 0))))"

definition new_contents :: "bytes \<Rightarrow> AttributeData" where
  "new_contents data =
     (if length data \<le> 700 then Resident data
      else NonResident [ClusterRun_new 0 1] (of_nat (length data + 4095) AND NOT 4095)
             (of_nat (length data)) (of_nat (length data)))"

definition write_file :: "'v bdev \<Rightarrow> FileRecordNumber \<Rightarrow> bytes \<Rightarrow> (FileRecordManager, 'v, unit) meth" where
  "write_file B file_record_number data =
     bnd (with_journal begin_transaction) (\<lambda>transaction_id.
     bnd (with_mft (\<lambda>m. read_record B m file_record_number)) (\<lambda>rec.
     bnd (lift_res (MftRecord_serialize rec)) (\<lambda>old_record_data.
     let rec = rec\<lparr>mr_attributes := update_first (\<lambda>a. ah_attr_type (at_header a) = attr_type_code Data)
                 (\<lambda>a. a\<lparr>at_data := new_contents data\<rparr>) (mr_attributes rec)\<rparr> in
     bnd (lift_res (update_write_time rec)) (\<lambda>rec.
     bnd (lift_res (MftRecord_serialize rec)) (\<lambda>redo.
     bnd (with_journal (log_operation B transaction_id WriteData file_record_number old_record_data redo)) (\<lambda>_.
     bnd (with_mft (\<lambda>m. write_record B m rec)) (\<lambda>_.
       with_journal (commit_transaction B transaction_id))))))))"

definition delete_file :: "'v bdev \<Rightarrow> FileRecordNumber \<Rightarrow> (FileRecordManager, 'v, unit) meth" where
  "delete_file B file_record_number =
     bnd (with_journal begin_transaction) (\<lambda>transaction_id.
     bnd (with_mft (\<lambda>m. read_record B m file_record_number)) (\<lambda>rec.
     bnd (lift_res (MftRecord_serialize rec)) (\<lambda>old_record_data.
     let new_record = rec\<lparr>mr_header := set_flags ((get_flags (mr_header rec))\<lparr>in_use := False\<rparr>) (mr_header rec)\<rparr> in
     bnd (lift_res (MftRecord_serialize new_record)) (\<lambda>redo.
     bnd (with_journal (log_operation B transaction_id DeleteFile file_record_number old_record_data redo)) (\<lambda>_.
     bnd (with_mft (\<lambda>m. write_record B m new_record)) (\<lambda>_.
       with_journal (commit_transaction B transaction_id)))))))"


section \<open>Round trips\<close>

lemma bit_if_or: "bit (if c then a OR m else a) k \<longleftrightarrow> bit a k \<or> (c \<and> bit m k)" for a m :: "'l::len word"
  by (simp add: bit_or_iff)

lemma flag_set:
  fixes v :: "'l::len word"
  assumes "numeral m = (2 :: 'l word) ^ k"
  shows "(v AND numeral m \<noteq> 0) = bit v k"
  unfolding assms by (simp add: and_exp_eq_0_iff_not_bit)

lemma and_bits:
  fixes v :: u32
  shows "(v AND 0x1 \<noteq> 0) = bit v 0" "(v AND 0x2 \<noteq> 0) = bit v 1" "(v AND 0x4 \<noteq> 0) = bit v 2"
    "(v AND 0x10 \<noteq> 0) = bit v 4" "(v AND 0x20 \<noteq> 0) = bit v 5" "(v AND 0x80 \<noteq> 0) = bit v 7"
    "(v AND 0x100 \<noteq> 0) = bit v 8" "(v AND 0x200 \<noteq> 0) = bit v 9" "(v AND 0x400 \<noteq> 0) = bit v 10"
    "(v AND 0x800 \<noteq> 0) = bit v 11" "(v AND 0x4000 \<noteq> 0) = bit v 14"
  using and_exp_eq_0_iff_not_bit [of v 0] by (simp_all add: flag_set)

lemma FileAttributes_from_to: "FileAttributes_from_u32 (FileAttributes_to_u32 f) = f"
  unfolding FileAttributes_from_u32_def and_bits
  unfolding FileAttributes_to_u32_def Let_def bit_if_or
  by (cases f) simp

lemma length_StandardInformation_serialize [simp]: "length (StandardInformation_serialize s) = 72"
  by (simp add: StandardInformation_serialize_def)

lemma StandardInformation_roundtrip: "StandardInformation_deserialize (StandardInformation_serialize s @ rest) = Ok s"
  by (simp add: StandardInformation_deserialize_def StandardInformation_serialize_def FileAttributes_from_to)

lemma length_wide: "length (concat (map (\<lambda>byte. [byte, 0]) xs)) = 2 * length xs" for xs :: bytes
  by (induction xs) simp_all

lemma length_FileName_serialize: "length (FileName_serialize f) = 8 * ((62 + 2 * length (fn_name f) + 7) div 8)"
  by (simp add: FileName_serialize_def length_pad8 length_wide)

lemma nth_expand: "i < length xs \<Longrightarrow> concat (map (\<lambda>b. [b, 0]) xs) ! (i * 2) = xs ! i" for xs :: bytes
proof (induction xs arbitrary: i)
  case (Cons x xs)
  then show ?case by (cases i) simp_all
qed simp

lemma FileName_roundtrip:
  assumes "2 \<le> length (fn_name f)" and "length (fn_name f) < 256" and "\<forall>b\<in>set (fn_name f). b < 0x80"
  shows "FileName_deserialize (FileName_serialize f) = Ok f"
proof -
  let ?n = "fn_name f"
  define hd where "hd = to_le_bytes (fn_parent_directory f)
      @ to_le_bytes (creation_time (fn_times f)) @ to_le_bytes (last_access_time (fn_times f))
      @ to_le_bytes (last_write_time (fn_times f)) @ to_le_bytes (mft_change_time (fn_times f))
      @ to_le_bytes (fn_allocated_size f) @ to_le_bytes (fn_file_size f)
      @ to_le_bytes (FileAttributes_to_u32 (fn_file_attributes f))"
  define ex where "ex = concat (map (\<lambda>byte. [byte, 0]) ?n)"
  define tail where "tail = replicate ((8 - (62 + length ex) mod 8) mod 8) (0 :: u8)"
  have hl: "length hd = 60" by (simp add: hd_def)
  have exl: "length ex = 2 * length ?n" by (simp add: ex_def length_wide)
  have d: "FileName_serialize f = hd @ [of_nat (length ?n), fn_namespace f] @ ex @ tail"
    by (simp add: FileName_serialize_def pad8_eq hd_def ex_def tail_def)
  have nl: "unat (of_nat (length ?n) :: u8) = length ?n" using assms(2) by (simp add: unat_of_nat)
  have nth: "FileName_serialize f ! (62 + i * 2) = ?n ! i" if "i < length ?n" for i
    using that hl exl by (simp add: d nth_append nth_Cons' nth_expand ex_def)
  have e1: "map (\<lambda>i. if 62 + i * 2 < length (FileName_serialize f) then push_char (FileName_serialize f ! (62 + i * 2)) else [])
      [0..<length ?n] = map (\<lambda>i. [?n ! i]) [0..<length ?n]"
  proof (rule map_cong [OF refl])
    fix i assume "i \<in> set [0..<length ?n]"
    then have "i < length ?n" by simp
    then show "(if 62 + i * 2 < length (FileName_serialize f) then push_char (FileName_serialize f ! (62 + i * 2)) else []) = [?n ! i]"
      using nth assms(3) hl exl by (simp add: push_char_def) (simp add: d)
  qed
  have e2: "concat (map (\<lambda>i. [?n ! i]) [0..<length ?n]) = ?n"
    by (simp add: concat_map_singleton map_nth)
  have name: "concat (map (\<lambda>i. if 62 + i * 2 < length (FileName_serialize f)
      then push_char (FileName_serialize f ! (62 + i * 2)) else []) [0..<length ?n]) = ?n" by (simp only: e1 e2)
  have "FileName_serialize f ! 60 = of_nat (length ?n)" "FileName_serialize f ! 61 = fn_namespace f"
    using hl by (simp_all add: d nth_append)
  moreover have "66 \<le> length (FileName_serialize f)" using assms(1) hl exl by (simp add: d)
  moreover have le: "(get_le i (FileName_serialize f) :: 'l::len word) = get_le i hd" if "i + LENGTH('l) div 8 \<le> 60" for i
    using that hl by (simp add: d get_le_append_front)
  ultimately show ?thesis
    using name nl by (simp add: FileName_deserialize_def Let_def le) (simp add: hd_def FileAttributes_from_to)
qed


section \<open>Records of files\<close>

text \<open>Headers as the constructor makes them, before the length is up to date.\<close>

definition header_ok :: "MftRecordHeader \<Rightarrow> bool" where
  "header_ok h \<longleftrightarrow> mh_signature h = FILE_SIGNATURE \<and> mh_first_attribute_offset h = 56
     \<and> mh_bytes_allocated h = of_nat MFT_RECORD_SIZE"

lemma record_okD: "record_ok r \<Longrightarrow> header_ok (mr_header r) \<and> (\<forall>a\<in>set (mr_attributes r). attr_ok a)"
  by (simp add: record_ok_def header_ok_def)

lemma add_sizes_ok:
  "unat tot + attr_sum as < 2 ^ 32 \<Longrightarrow> \<exists>tot'. add_sizes as tot = Ok tot' \<and> unat tot' = unat tot + attr_sum as"
proof (induction as arbitrary: tot)
  case (Cons a as)
  then have "unat (tot + get_size a) = unat tot + unat (get_size a)"
    by (intro unat_add_no_wrap) simp
  then show ?case using Cons.prems Cons.IH [of "tot + get_size a"] by (simp add: add_ck_def add.assoc)
qed simp

lemma add_attribute_gen:
  assumes "header_ok (mr_header r)" and "60 + attr_sum (mr_attributes r) + unat (get_size a) \<le> 1024"
    and "unat (mh_next_attribute_id (mr_header r)) < 100"
  shows "\<exists>r'. add_attribute a r = Ok r' \<and> header_ok (mr_header r') \<and> mr_attributes r' = mr_attributes r @ [a]
     \<and> mr_record_number r' = mr_record_number r
     \<and> unat (mh_bytes_in_use (mr_header r')) = 60 + attr_sum (mr_attributes r')
     \<and> unat (mh_next_attribute_id (mr_header r')) = unat (mh_next_attribute_id (mr_header r)) + 1"
proof -
  let ?as = "mr_attributes r @ [a]" and ?h = "mr_header r"
  have i: "add_ck (mh_next_attribute_id ?h) 1 = (Ok (mh_next_attribute_id ?h + 1) :: (fs_error, u16) res)"
    "unat (mh_next_attribute_id ?h + 1) = unat (mh_next_attribute_id ?h) + 1"
    using assms(3) by (simp_all add: add_ck_def unat_add_no_wrap)
  have f: "unat (ucast (mh_first_attribute_offset ?h) :: u32) = 56" using assms(1) by (simp add: header_ok_def)
  obtain tot where tot: "add_sizes ?as (ucast (mh_first_attribute_offset ?h)) = Ok tot" "unat tot = 56 + attr_sum ?as"
    using add_sizes_ok [of "ucast (mh_first_attribute_offset ?h)" ?as] assms(2) f by auto
  have t4: "add_ck tot 4 = (Ok (tot + 4) :: (fs_error, u32) res)" "unat (tot + 4) = 60 + attr_sum ?as"
    using tot(2) assms(2) by (simp_all add: add_ck_def unat_add_no_wrap)
  show ?thesis
    using assms(1,2) i tot(1) t4 by (auto simp: add_attribute_def update_bytes_in_use_def header_ok_def)
qed

lemma add_attribute_ok:
  assumes "header_ok (mr_header r)" and "\<forall>a\<in>set (mr_attributes r). attr_ok a" and "attr_ok a"
    and "60 + attr_sum (mr_attributes r) + unat (get_size a) \<le> 1024" and "unat (mh_next_attribute_id (mr_header r)) < 100"
  shows "\<exists>r'. add_attribute a r = Ok r' \<and> record_ok r' \<and> mr_attributes r' = mr_attributes r @ [a]
     \<and> mr_record_number r' = mr_record_number r
     \<and> unat (mh_next_attribute_id (mr_header r')) = unat (mh_next_attribute_id (mr_header r)) + 1"
  using add_attribute_gen [OF assms(1,4,5)] assms(2-4) by (auto simp: record_ok_def header_ok_def MFT_RECORD_SIZE_def)

lemma new_resident_attr:
  assumes "length content \<le> 1000" and "8 dvd length content"
  shows "\<exists>a. new_resident ty content = Ok a \<and> attr_ok a \<and> at_data a = Resident content
     \<and> ah_attr_type (at_header a) = attr_type_code ty \<and> unat (get_size a) = 24 + length content"
proof -
  from new_resident_ok [of content ty] assms(1) obtain a where
    a: "new_resident ty content = Ok a" "resident_ok a" "at_data a = Resident content"
      "ah_attr_type (at_header a) = attr_type_code ty" by auto
  have "unat (get_size a) = 24 + length content" using a(2,3) by (auto simp: resident_ok_def get_size_def)
  moreover have "attr_type_code ty \<noteq> 0xFFFFFFFF" by (cases ty) simp_all
  ultimately show ?thesis using a assms(2) by (auto simp: attr_ok_def)
qed

text \<open>A file as \<open>create_file\<close> lays it out: Standard Information, File Name and resident Data.\<close>

definition is_file :: "MftRecord \<Rightarrow> FileRecordNumber \<Rightarrow> bytes \<Rightarrow> bool" where
  "is_file r rn data \<longleftrightarrow> record_ok r \<and> mr_record_number r = rn
     \<and> (\<exists>s n d std. mr_attributes r = [s, n, d]
         \<and> ah_attr_type (at_header s) = attr_type_code StandardInformation \<and> at_data s = Resident std \<and> length std = 72
         \<and> ah_attr_type (at_header n) = attr_type_code FileName
         \<and> ah_attr_type (at_header d) = attr_type_code Data \<and> at_data d = Resident data)"

text \<open>The bytes a record of three attributes takes.\<close>

definition file_fits :: "bytes \<Rightarrow> bytes \<Rightarrow> bool" where
  "file_fits name data \<longleftrightarrow> 8 dvd length data \<and> length data \<le> 700
     \<and> 204 + 8 * ((69 + 2 * length name) div 8) + length data \<le> 1024"

lemma file_record_two:
  assumes "180 + 8 * ((69 + 2 * length name) div 8) \<le> 1024"
  shows "\<exists>r s n. file_record rn parent name = Ok r \<and> record_ok r \<and> mr_attributes r = [s, n] \<and> mr_record_number r = rn
     \<and> ah_attr_type (at_header s) = attr_type_code StandardInformation
     \<and> at_data s = Resident (StandardInformation_serialize StandardInformation_new_file)
     \<and> ah_attr_type (at_header n) = attr_type_code FileName
     \<and> attr_sum [s, n] = 120 + 8 * ((69 + 2 * length name) div 8)
     \<and> unat (mh_next_attribute_id (mr_header r)) = 2"
proof -
  let ?fn = "FileName_serialize (FileName_new parent name False)"
  have fl: "length ?fn = 8 * ((69 + 2 * length name) div 8)"
    by (simp add: length_FileName_serialize FileName_new_def add.commute)
  obtain s where s: "new_resident StandardInformation (StandardInformation_serialize StandardInformation_new_file) = Ok s"
    "attr_ok s" "at_data s = Resident (StandardInformation_serialize StandardInformation_new_file)"
    "ah_attr_type (at_header s) = attr_type_code StandardInformation" "unat (get_size s) = 96"
    using new_resident_attr [of "StandardInformation_serialize StandardInformation_new_file" StandardInformation] by auto
  obtain n where n: "new_resident FileName ?fn = Ok n" "attr_ok n"
    "ah_attr_type (at_header n) = attr_type_code FileName" "unat (get_size n) = 24 + length ?fn"
    using new_resident_attr [of ?fn FileName] assms fl by auto
  let ?r0 = "set_in_use False (MftRecord_new rn)"
  have h0: "header_ok (mr_header ?r0)" "mr_attributes ?r0 = []" "mr_record_number ?r0 = rn"
    "mh_next_attribute_id (mr_header ?r0) = 0"
    by (simp_all add: set_in_use_def MftRecord_new_def MftRecordHeader_new_def set_flags_def header_ok_def)
  obtain r1 where r1: "add_attribute s ?r0 = Ok r1" "record_ok r1" "mr_attributes r1 = [s]" "mr_record_number r1 = rn"
    "unat (mh_next_attribute_id (mr_header r1)) = 1"
    using add_attribute_ok [of ?r0 s] h0 s by auto
  obtain r2 where r2: "add_attribute n r1 = Ok r2" "record_ok r2" "mr_attributes r2 = [s, n]" "mr_record_number r2 = rn"
    "unat (mh_next_attribute_id (mr_header r2)) = 2"
    using add_attribute_ok [of r1 n] record_okD [OF r1(2)] r1 n s assms fl by auto
  then have "file_record rn parent name = Ok r2" using s n r1 by (simp add: file_record_def)
  then show ?thesis using r2 s n fl by auto
qed

lemma file_record_ok:
  assumes "file_fits name data"
  shows "\<exists>r a r'. file_record rn parent name = Ok r \<and> data_attribute data = Ok a \<and> add_attribute a r = Ok r'
     \<and> is_file r' rn data"
proof -
  have l: "180 + 8 * ((69 + 2 * length name) div 8) \<le> 1024" using assms by (simp add: file_fits_def)
  obtain r s n where r: "file_record rn parent name = Ok r" "record_ok r" "mr_attributes r = [s, n]" "mr_record_number r = rn"
    "ah_attr_type (at_header s) = attr_type_code StandardInformation"
    "at_data s = Resident (StandardInformation_serialize StandardInformation_new_file)"
    "ah_attr_type (at_header n) = attr_type_code FileName"
    "attr_sum [s, n] = 120 + 8 * ((69 + 2 * length name) div 8)" "unat (mh_next_attribute_id (mr_header r)) = 2"
    using file_record_two [OF l, of rn parent] by blast
  obtain d where d: "new_resident Data data = Ok d" "attr_ok d" "at_data d = Resident data"
    "ah_attr_type (at_header d) = attr_type_code Data" "unat (get_size d) = 24 + length data"
    using new_resident_attr [of data Data] assms by (auto simp: file_fits_def)
  obtain r' where r': "add_attribute d r = Ok r'" "record_ok r'" "mr_attributes r' = [s, n, d]" "mr_record_number r' = rn"
    using add_attribute_ok [of r d] record_okD [OF r(2)] r d assms by (auto simp: file_fits_def)
  moreover have "data_attribute data = Ok d" using d(1) assms by (simp add: data_attribute_def file_fits_def)
  moreover have "is_file r' rn data" using r' r d by (simp add: is_file_def)
  ultimately show ?thesis using r(1) by blast
qed

lemma touch_times_file:
  assumes "is_file r rn data"
  shows "\<exists>as. touch_times f (mr_attributes r) = Ok as \<and> is_file (r\<lparr>mr_attributes := as\<rparr>) rn data"
proof -
  from assms obtain s n d std where as: "mr_attributes r = [s, n, d]"
    and s: "ah_attr_type (at_header s) = attr_type_code StandardInformation" "at_data s = Resident std" "length std = 72"
    and nd: "ah_attr_type (at_header n) = attr_type_code FileName"
      "ah_attr_type (at_header d) = attr_type_code Data" "at_data d = Resident data"
    and ok: "record_ok r" "mr_record_number r = rn" by (auto simp: is_file_def)
  obtain si where si: "StandardInformation_deserialize std = Ok si" using s(3) by (simp add: StandardInformation_deserialize_def)
  let ?s = "s\<lparr>at_data := Resident (StandardInformation_serialize (si\<lparr>si_times := f (si_times si)\<rparr>))\<rparr>"
  have "attr_ok ?s" using ok(1) s as by (auto simp: record_ok_def attr_ok_def resident_ok_def get_size_def)
  then have "is_file (r\<lparr>mr_attributes := [?s, n, d]\<rparr>) rn data"
    using ok as s nd by (auto simp: is_file_def record_ok_def get_size_def)
  moreover have "touch_times f (mr_attributes r) = Ok [?s, n, d]" using as s si by simp
  ultimately show ?thesis by blast
qed

lemma is_fileD: "is_file r rn data \<Longrightarrow> record_ok r \<and> mr_record_number r = rn"
  by (simp add: is_file_def)

lemma find_data:
  "is_file r rn data \<Longrightarrow> \<exists>a. find (\<lambda>a. ah_attr_type (at_header a) = attr_type_code Data) (mr_attributes r) = Some a
     \<and> at_data a = Resident data"
  by (auto simp: is_file_def)

lemma replace_data:
  assumes "is_file r rn old" and "length data = length old" and "length data \<le> 700"
  shows "is_file (r\<lparr>mr_attributes := update_first (\<lambda>a. ah_attr_type (at_header a) = attr_type_code Data)
                 (\<lambda>a. a\<lparr>at_data := new_contents data\<rparr>) (mr_attributes r)\<rparr>) rn data"
proof -
  from assms(1) obtain s n d std where as: "mr_attributes r = [s, n, d]"
    and s: "ah_attr_type (at_header s) = attr_type_code StandardInformation" "at_data s = Resident std" "length std = 72"
    and nd: "ah_attr_type (at_header n) = attr_type_code FileName"
      "ah_attr_type (at_header d) = attr_type_code Data" "at_data d = Resident old"
    and ok: "record_ok r" "mr_record_number r = rn" by (auto simp: is_file_def)
  let ?d = "d\<lparr>at_data := Resident data\<rparr>"
  have "attr_ok ?d" using ok(1) nd as assms(2) by (auto simp: record_ok_def attr_ok_def resident_ok_def get_size_def)
  then have "is_file (r\<lparr>mr_attributes := [s, n, ?d]\<rparr>) rn data"
    using ok as s nd by (auto simp: is_file_def record_ok_def get_size_def)
  then show ?thesis using as s nd assms(3) by (simp add: new_contents_def)
qed


section \<open>Files on disk\<close>

definition stored :: "('v \<Rightarrow> u8 \<Rightarrow> store) \<Rightarrow> MftManager \<Rightarrow> MftRecord \<Rightarrow> 'v \<Rightarrow> bool" where
  "stored sec mm r v \<longleftrightarrow> MftRecord_serialize r = Ok (disk_record sec mm (mr_record_number r) v)"

definition file_at :: "('v \<Rightarrow> u8 \<Rightarrow> store) \<Rightarrow> MftManager \<Rightarrow> FileRecordNumber \<Rightarrow> bytes \<Rightarrow> 'v \<Rightarrow> bool" where
  "file_at sec mm rn data v \<longleftrightarrow> (\<exists>r. is_file r rn data \<and> stored sec mm r v)"

text \<open>The record's cluster and the journal, with the sector after it, do not overlap.\<close>

definition apart :: "FileRecordManager \<Rightarrow> FileRecordNumber \<Rightarrow> bool" where
  "apart f rn \<longleftrightarrow> mm_drive (mft_manager f) \<noteq> jm_drive (journal_manager f)
     \<or> rec_sector (mft_manager f) rn + 8 \<le> unat (journal_start_sector (journal_manager f))
     \<or> unat (journal_start_sector (journal_manager f)) + unat (journal_size_sectors (journal_manager f)) + 1
         \<le> rec_sector (mft_manager f) rn"

text \<open>Both drives answer, the journal takes the largest records, and the counters are not exhausted.\<close>

definition fr_ok :: "('v \<Rightarrow> u8 \<Rightarrow> bool) \<Rightarrow> FileRecordManager \<Rightarrow> 'v world \<Rightarrow> bool" where
  "fr_ok ready f w \<longleftrightarrow> ready (dev w) (mm_drive (mft_manager f)) \<and> ready (dev w) (jm_drive (journal_manager f))
     \<and> jm_ok (journal_manager f) \<and> 5 \<le> unat (journal_size_sectors (journal_manager f))
     \<and> unat (COUNTER w) + 2 < 2 ^ 64 \<and> unat (NEXT_RECORD w) + 1 < 2 ^ 64
     \<and> unat (current_sequence (journal_manager f)) + 2 < 2 ^ 64
     \<and> unat (next_transaction_id (journal_manager f)) + 1 < 2 ^ 64"

lemma data_fits_small: "5 \<le> unat (journal_size_sectors j) \<Longrightarrow> n \<le> 2048 \<Longrightarrow> data_fits j n"
proof -
  assume "5 \<le> unat (journal_size_sectors j)" "n \<le> 2048"
  moreover have "(44 + n + 7) div 8 \<le> (44 + 2048 + 7) div 8" using \<open>n \<le> 2048\<close> by (intro div_le_mono) simp
  moreover from this have "(8 * ((44 + n + 7) div 8) + 1022) div 512 \<le> (2096 + 1022) div 512"
    by (intro div_le_mono) simp
  ultimately show ?thesis by (simp add: data_fits_def Let_def)
qed

lemma disk_record_frame:
  assumes "apart f rn" and "jframe sec (journal_manager f) v v'"
  shows "disk_record sec (mft_manager f) rn v' = disk_record sec (mft_manager f) rn v"
  unfolding disk_record_def
  using assms by (auto simp: apart_def jframe_def intro!: arg_cong [where f = "window 1024 (rec_offset rn)"] read_sectors_cong)

lemma wp_with_journal [wp_simps]:
  "wp (with_journal m) (f, w) Q \<longleftrightarrow>
     wp m (journal_manager f, w) (\<lambda>r s. Q r (f\<lparr>journal_manager := fst s\<rparr>, snd s))"
  by (simp add: with_journal_def wp_zoom)

lemma wp_with_mft [wp_simps]:
  "wp (with_mft g) (f, w) Q \<longleftrightarrow> wp (g (mft_manager f)) w (\<lambda>r w'. Q r (f, w'))"
  by (simp add: with_mft_def wp_bnd wp_gets wp_io)

lemma wp_allocate_record:
  "unat (NEXT_RECORD w) + 1 < 2 ^ 64 \<Longrightarrow>
     wp (allocate_record m) w Q \<longleftrightarrow> Q (Ok (NEXT_RECORD w)) (w\<lparr>NEXT_RECORD := NEXT_RECORD w + 1\<rparr>)"
  by (simp add: wp_def allocate_record_def add_ck_def)

text \<open>A record that can be written, and what reading a record number gives.\<close>

definition writable :: "MftRecord \<Rightarrow> bool" where
  "writable r \<longleftrightarrow> (\<exists>d. MftRecord_serialize r = Ok d \<and> length d = MFT_RECORD_SIZE)"

definition reads_as :: "('v \<Rightarrow> u8 \<Rightarrow> store) \<Rightarrow> MftManager \<Rightarrow> FileRecordNumber \<Rightarrow> MftRecord \<Rightarrow> 'v \<Rightarrow> bool" where
  "reads_as sec mm rn r v \<longleftrightarrow> MftRecord_deserialize (disk_record sec mm rn v) rn = Ok r"

lemma record_ok_writable: "record_ok r \<Longrightarrow> writable r"
  using MftRecord_roundtrip_bytes by (auto simp: writable_def)

lemma stored_reads: "record_ok r \<Longrightarrow> mr_record_number r = rn \<Longrightarrow> stored sec mm r v \<Longrightarrow> reads_as sec mm rn r v"
  using MftRecord_roundtrip_bytes [of r] by (auto simp: stored_def reads_as_def)

lemma disk_record_cong: "sec v = sec v' \<Longrightarrow> disk_record sec mm n v = disk_record sec mm n v'"
  by (simp add: disk_record_def)

context block_device
begin

lemma wp_read_as:
  assumes "mm_ok mm rn" "ready (dev w) (mm_drive mm)" "reads_as sec mm rn r (dev w)"
    and "\<And>v. sec v = sec (dev w) \<Longrightarrow> ready v = ready (dev w) \<Longrightarrow> Q (Ok r) (w\<lparr>dev := v\<rparr>)"
  shows "wp (read_record B mm rn) w Q"
  by (rule wp_read_record [OF assms(1,2)]) (use assms(3,4) in \<open>simp add: reads_as_def\<close>)

lemma wp_write_stored:
  assumes "mm_ok mm (mr_record_number r)" "ready (dev w) (mm_drive mm)" "writable r"
    and "\<And>v. ready v = ready (dev w) \<Longrightarrow> stored sec mm r v \<Longrightarrow>
      (\<And>rn. rn \<noteq> mr_record_number r \<Longrightarrow> disk_record sec mm rn v = disk_record sec mm rn (dev w)) \<Longrightarrow>
      (\<And>e k. e \<noteq> mm_drive mm \<or> k < rec_sector mm (mr_record_number r) \<or> rec_sector mm (mr_record_number r) + 8 \<le> k
         \<Longrightarrow> sec v e k = sec (dev w) e k) \<Longrightarrow> Q (Ok ()) (w\<lparr>dev := v\<rparr>)"
  shows "wp (write_record B mm r) w Q"
proof -
  obtain d where d: "MftRecord_serialize r = Ok d" "length d = MFT_RECORD_SIZE"
    using assms(3) by (auto simp: writable_def)
  show ?thesis
    by (rule wp_write_record [OF assms(1,2) d]) (use assms(4) d in \<open>auto simp: stored_def\<close>)
qed

lemma wp_update_access_time:
  assumes "mm_ok (mft_manager f) rn" "ready (dev w) (mm_drive (mft_manager f))"
    and "reads_as sec (mft_manager f) rn r (dev w)" "mr_record_number r = rn"
    and "touch_times update_access (mr_attributes r) = Ok as" "writable (r\<lparr>mr_attributes := as\<rparr>)"
    and "\<And>v. ready v = ready (dev w) \<Longrightarrow> stored sec (mft_manager f) (r\<lparr>mr_attributes := as\<rparr>) v \<Longrightarrow>
      (\<And>n. n \<noteq> rn \<Longrightarrow> disk_record sec (mft_manager f) n v = disk_record sec (mft_manager f) n (dev w)) \<Longrightarrow>
      Q (Ok ()) (f, w\<lparr>dev := v\<rparr>)"
  shows "wp (update_access_time B rn) (f, w) Q"
  unfolding update_access_time_def wp_bnd [of "with_mft _"] wp_with_mft
proof (rule wp_read_as [OF assms(1-3)], goal_cases)
  case (1 v)
  have "wp (write_record B (mft_manager f) (r\<lparr>mr_attributes := as\<rparr>)) (w\<lparr>dev := v\<rparr>) (\<lambda>r w'. Q r (f, w'))"
    by (rule wp_write_stored)
      (use assms(1,2,4,6) 1 disk_record_cong [OF 1(1)] in \<open>auto intro!: assms(7)\<close>)
  then show ?case using assms(5) by (simp add: wp_bnd wp_lift_res wp_with_mft)
qed

lemma wp_read_file_as:
  assumes "mm_ok (mft_manager f) rn" "ready (dev w) (mm_drive (mft_manager f))"
    and "reads_as sec (mft_manager f) rn r (dev w)" "mr_record_number r = rn"
    and "find (\<lambda>a. ah_attr_type (at_header a) = attr_type_code Data) (mr_attributes r) = Some a" "at_data a = Resident data"
    and "touch_times update_access (mr_attributes r) = Ok as" "writable (r\<lparr>mr_attributes := as\<rparr>)"
    and "\<And>v. ready v = ready (dev w) \<Longrightarrow> stored sec (mft_manager f) (r\<lparr>mr_attributes := as\<rparr>) v \<Longrightarrow>
      (\<And>n. n \<noteq> rn \<Longrightarrow> disk_record sec (mft_manager f) n v = disk_record sec (mft_manager f) n (dev w)) \<Longrightarrow>
      Q (Ok data) (f, w\<lparr>dev := v\<rparr>)"
  shows "wp (read_file B rn) (f, w) Q"
  unfolding read_file_def wp_bnd [of "with_mft _"] wp_with_mft
proof (rule wp_read_as [OF assms(1-3)], goal_cases)
  case (1 v)
  note same = disk_record_cong [OF 1(1)]
  have "wp (bnd (update_access_time B rn) (\<lambda>_. ret data)) (f, w\<lparr>dev := v\<rparr>) Q"
    unfolding wp_bnd
    by (rule wp_update_access_time [of f rn _ r as])
      (use assms(1-4,7,8) 1 same in \<open>auto simp: wp_ret reads_as_def intro!: assms(9)\<close>)
  then show ?case using assms(5,6) by simp
qed

lemma wp_read_file:
  assumes "mm_ok (mft_manager f) rn" "ready (dev w) (mm_drive (mft_manager f))" "file_at sec (mft_manager f) rn data (dev w)"
    and "\<And>v. ready v = ready (dev w) \<Longrightarrow> file_at sec (mft_manager f) rn data v \<Longrightarrow>
      (\<And>n. n \<noteq> rn \<Longrightarrow> disk_record sec (mft_manager f) n v = disk_record sec (mft_manager f) n (dev w)) \<Longrightarrow>
      Q (Ok data) (f, w\<lparr>dev := v\<rparr>)"
  shows "wp (read_file B rn) (f, w) Q"
proof -
  from assms(3) obtain r where r: "is_file r rn data" "stored sec (mft_manager f) r (dev w)" by (auto simp: file_at_def)
  note ok = is_fileD [OF r(1)]
  from find_data [OF r(1)] obtain a where
    a: "find (\<lambda>a. ah_attr_type (at_header a) = attr_type_code Data) (mr_attributes r) = Some a" "at_data a = Resident data" by blast
  from touch_times_file [OF r(1)] obtain as where
    as: "touch_times update_access (mr_attributes r) = Ok as" "is_file (r\<lparr>mr_attributes := as\<rparr>) rn data" by blast
  have rd: "reads_as sec (mft_manager f) rn r (dev w)" using ok r(2) by (intro stored_reads) simp_all
  show ?thesis
    by (rule wp_read_file_as [OF assms(1,2) rd _ a as(1)])
      (use ok is_fileD [OF as(2)] as(2) in \<open>auto simp: file_at_def intro: record_ok_writable intro!: assms(4)\<close>)
qed

end

text \<open>The sectors outside a record's cluster and the journal with the sector after it.\<close>

definition outside :: "FileRecordManager \<Rightarrow> FileRecordNumber \<Rightarrow> u8 \<Rightarrow> nat \<Rightarrow> bool" where
  "outside f rn e k \<longleftrightarrow>
     (e \<noteq> mm_drive (mft_manager f) \<or> k < rec_sector (mft_manager f) rn \<or> rec_sector (mft_manager f) rn + 8 \<le> k)
     \<and> (e \<noteq> jm_drive (journal_manager f) \<or> k < unat (journal_start_sector (journal_manager f))
       \<or> unat (journal_start_sector (journal_manager f)) + unat (journal_size_sectors (journal_manager f)) + 1 \<le> k)"

text \<open>What every journalled update does besides its own record.\<close>

definition after_update :: "('v \<Rightarrow> u8 \<Rightarrow> bool) \<Rightarrow> ('v \<Rightarrow> u8 \<Rightarrow> store) \<Rightarrow> FileRecordNumber \<Rightarrow>
    FileRecordManager \<times> 'v world \<Rightarrow> FileRecordManager \<times> 'v world \<Rightarrow> bool" where
  "after_update ready sec rn s s' \<longleftrightarrow> (case (s, s') of ((f, w), (f', w')) \<Rightarrow>
     mft_manager f' = mft_manager f \<and> jm_drive (journal_manager f') = jm_drive (journal_manager f)
     \<and> journal_start_sector (journal_manager f') = journal_start_sector (journal_manager f)
     \<and> journal_size_sectors (journal_manager f') = journal_size_sectors (journal_manager f)
     \<and> ready (dev w') = ready (dev w) \<and> NEXT_VCN w' = NEXT_VCN w
     \<and> (\<forall>e k. outside f rn e k \<longrightarrow> sec (dev w') e k = sec (dev w) e k)
     \<and> unat (COUNTER w') \<le> unat (COUNTER w) + 2
     \<and> unat (current_sequence (journal_manager f')) \<le> unat (current_sequence (journal_manager f)) + 2
     \<and> unat (next_transaction_id (journal_manager f')) \<le> unat (next_transaction_id (journal_manager f)) + 1
     \<and> (\<forall>n. n \<noteq> rn \<and> apart f n \<longrightarrow> disk_record sec (mft_manager f) n (dev w') = disk_record sec (mft_manager f) n (dev w)))"

lemma ids_update_first: "(\<And>t. tx_id (g t) = tx_id t) \<Longrightarrow> tx_id ` set (update_first p g ts) = tx_id ` set ts"
  using map_update_first [of tx_id g p ts] by (simp flip: set_map)

context block_device
begin

text \<open>The end all updates share: log the operation, write the record, commit.\<close>

lemma wp_logged_write:
  assumes "fr_ok ready f w" "mm_ok (mft_manager f) (mr_record_number r)" "apart f (mr_record_number r)" "writable r"
    and "\<exists>t\<in>set (active_transactions (journal_manager f)). tx_id t = i \<and> tx_state t = Active"
    and "length undo + length redo \<le> 2048"
    and "\<And>f' w'. after_update ready sec (mr_record_number r) (f, w) (f', w') \<Longrightarrow> stored sec (mft_manager f) r (dev w') \<Longrightarrow>
      NEXT_RECORD w' = NEXT_RECORD w \<Longrightarrow> next_transaction_id (journal_manager f') = next_transaction_id (journal_manager f) \<Longrightarrow>
      wp (k ()) (f', w') Q"
  shows "wp (bnd (with_journal (log_operation B i op target undo redo)) (\<lambda>_.
      bnd (with_mft (\<lambda>m. write_record B m r)) (\<lambda>_. bnd (with_journal (commit_transaction B i)) k))) (f, w) Q"
proof -
  let ?m = "mft_manager f" and ?j = "journal_manager f" and ?rn = "mr_record_number r"
  have ok: "ready (dev w) (jm_drive ?j)" "jm_ok ?j" "data_fits ?j (length undo + length redo)" "0 < journal_size_sectors ?j"
    "unat (COUNTER w) + 1 < 2 ^ 64" "unat (current_sequence ?j) + 1 < 2 ^ 64" "ready (dev w) (mm_drive ?m)"
    using assms(1,6) by (auto simp: fr_ok_def data_fits_small word_less_nat_alt)
  have next_ok: "unat (COUNTER w + 1) + 1 < 2 ^ 64" "unat (current_sequence ?j + 1) + 1 < 2 ^ 64"
    using assms(1) by (simp_all add: fr_ok_def unat_add_no_wrap)
  have counters: "unat (COUNTER w + 1 + 1) = unat (COUNTER w) + 2"
    "unat (current_sequence ?j + 1 + 1) = unat (current_sequence ?j) + 2"
    using assms(1) next_ok unat_add_no_wrap [of "COUNTER w + 1" 1] unat_add_no_wrap [of "current_sequence ?j + 1" 1]
    by (simp_all add: fr_ok_def unat_add_no_wrap)
  show ?thesis
    unfolding wp_bnd [of "with_journal (log_operation _ _ _ _ _ _)"] wp_with_journal
  proof (rule wp_log_operation [OF ok(1-3,5,6) assms(5)], goal_cases)
    case (1 r1 v1)
    have fr1: "jframe sec ?j (dev w) v1"
      using logged_frame [OF 1(8)] 1(5,6) ok(3) by (simp add: lr_fits_iff)
    define ts where "ts = update_first (\<lambda>t. tx_id t = i \<and> tx_state t = Active) (add_record r1) (active_transactions ?j)"
    define j1 where "j1 = ?j\<lparr>active_transactions := ts, current_sequence := current_sequence ?j + 1\<rparr>"
    have "tx_id ` set ts = tx_id ` set (active_transactions ?j)"
      unfolding ts_def by (rule ids_update_first) (simp add: add_record_def)
    then have "i \<in> tx_id ` set (active_transactions j1)" using assms(5) by (auto simp: j1_def)
    then have ex: "\<exists>t\<in>set (active_transactions j1). tx_id t = i" by auto
    have j1: "jm_drive j1 = jm_drive ?j" "jm_ok j1" "journal_size_sectors j1 = journal_size_sectors ?j"
      "journal_start_sector j1 = journal_start_sector ?j"
      "current_sequence j1 = current_sequence ?j + 1" "next_transaction_id j1 = next_transaction_id ?j" "jframe sec j1 = jframe sec ?j" "data_fits j1 = data_fits ?j"
      using ok(2) by (simp_all add: j1_def fun_eq_iff)
    have v1: "ready v1 = ready (dev w)" by (rule 1(7))
    have "wp (write_record B ?m r) (w\<lparr>COUNTER := COUNTER w + 1, dev := v1\<rparr>) (\<lambda>x w'. case x of
        Ok y \<Rightarrow> wp (bnd (with_journal (commit_transaction B i)) k) (f\<lparr>journal_manager := j1\<rparr>, w') Q
      | Err e \<Rightarrow> Q (Err e) (f\<lparr>journal_manager := j1\<rparr>, w') | Panic \<Rightarrow> Q Panic (f\<lparr>journal_manager := j1\<rparr>, w'))"
    proof (rule wp_write_stored [OF assms(2) _ assms(4)], goal_cases)
      case 1
      show ?case using v1 ok(7) by simp
    next
      case (2 v2)
      have "wp (commit_transaction B i) (j1, w\<lparr>COUNTER := COUNTER w + 1, dev := v2\<rparr>) (\<lambda>x s. case x of
          Ok y \<Rightarrow> wp (k y) (f\<lparr>journal_manager := fst s\<rparr>, snd s) Q
        | Err e \<Rightarrow> Q (Err e) (f\<lparr>journal_manager := fst s\<rparr>, snd s) | Panic \<Rightarrow> Q Panic (f\<lparr>journal_manager := fst s\<rparr>, snd s))"
      proof (rule wp_commit_transaction [OF _ j1(2) _ _ _ ex], goal_cases)
        case (5 r3 v3)
        have fr3: "jframe sec ?j v2 v3"
          using logged_frame [OF 5(8)] 5(5,6) j1 assms(1) by (simp add: lr_fits_iff data_fits_small fr_ok_def COMMIT_def)
        let ?j3 = "j1\<lparr>active_transactions := update_first (\<lambda>t. tx_id t = i) tx_commit (active_transactions j1),
            current_sequence := current_sequence j1 + 1\<rparr>"
        let ?w3 = "w\<lparr>COUNTER := COUNTER w + 1, dev := v2, COUNTER := COUNTER (w\<lparr>COUNTER := COUNTER w + 1, dev := v2\<rparr>) + 1, dev := v3\<rparr>"
        have "disk_record sec ?m n v3 = disk_record sec ?m n (dev w)" if "n \<noteq> ?rn" "apart f n" for n
          using disk_record_frame [OF that(2) fr1] disk_record_frame [OF that(2) fr3] 2(3) [OF that(1)] by simp
        moreover have "sec v3 e k = sec (dev w) e k" if "outside f ?rn e k" for e k
          using that fr1 fr3 2(4) [of e k] by (simp add: outside_def jframe_def)
        ultimately have "after_update ready sec ?rn (f, w) (f\<lparr>journal_manager := ?j3\<rparr>, ?w3)"
          using 2(1) 5(7) v1 j1 counters by (simp add: after_update_def)
        moreover have "stored sec ?m r v3"
          using 2(2) disk_record_frame [OF assms(3) fr3] by (simp add: stored_def)
        ultimately show ?case using assms(7) j1 by simp
      qed (use ok v1 2(1) j1 next_ok in simp_all)
      then show ?case by (simp add: wp_bnd wp_with_journal)
    qed
    then show ?case unfolding j1_def ts_def by (simp add: wp_bnd wp_with_mft)
  qed
qed

lemma bnd_ret_right: "bnd m ret = m"
  by (rule ext) (simp add: bnd_def split: prod.splits res.splits)

lemma wp_create_file_as:
  assumes "fr_ok ready f w" "unat (next_transaction_id (journal_manager f)) + 2 < 2 ^ 64" "unat (NEXT_RECORD w) + 2 < 2 ^ 64"
    and "mm_ok (mft_manager f) (NEXT_RECORD w)" "apart f (NEXT_RECORD w)"
    and "file_record (NEXT_RECORD w) parent name = Ok r0" "data_attribute data = Ok a" "add_attribute a r0 = Ok r"
    and "writable r" "mr_record_number r = NEXT_RECORD w"
    and "\<And>f' w'. after_update ready sec (NEXT_RECORD w) (f, w) (f', w') \<Longrightarrow>
      stored sec (mft_manager f) r (dev w') \<Longrightarrow> NEXT_RECORD w' = NEXT_RECORD w + 1 \<Longrightarrow>
      Q (Ok (NEXT_RECORD w)) (f', w')"
  shows "wp (create_file B parent name (Some data)) (f, w) Q"
proof -
  let ?rn = "NEXT_RECORD w" and ?j = "journal_manager f" and ?m = "mft_manager f"
  obtain d where d: "MftRecord_serialize r = Ok d" "length d = MFT_RECORD_SIZE" using assms(9) by (auto simp: writable_def)
  let ?i = "next_transaction_id ?j"
  let ?f1 = "f\<lparr>journal_manager := ?j\<lparr>next_transaction_id := ?i + 1,
     active_transactions := active_transactions ?j @ [Transaction_new ?i (current_sequence ?j)]\<rparr>\<rparr>"
  let ?w1 = "w\<lparr>NEXT_RECORD := ?rn + 1\<rparr>"
  have n1: "unat (?i + 1) = unat ?i + 1" "unat (?rn + 1) = unat ?rn + 1"
    using assms(2,3) by (simp_all add: unat_add_no_wrap)
  have fr1: "fr_ok ready ?f1 ?w1" using assms(1-3) n1 by (simp add: fr_ok_def)
  have ap: "apart ?f1 n = apart f n" "outside ?f1 n = outside f n" for n by (simp_all add: apart_def outside_def fun_eq_iff)
  have "wp (bnd (with_journal (log_operation B ?i CreateFile ?rn [] d)) (\<lambda>_.
      bnd (with_mft (\<lambda>m. write_record B m r)) (\<lambda>_. bnd (with_journal (commit_transaction B ?i)) (\<lambda>_. ret ?rn)))) (?f1, ?w1) Q"
  proof (rule wp_logged_write [OF fr1], goal_cases)
    case (6 f' w')
    then show ?case
      using assms(10) n1 by (auto simp: after_update_def ap wp_ret intro!: assms(11))
  qed (use assms(4,5,9,10) d ap in \<open>auto simp: Transaction_new_def MFT_RECORD_SIZE_def\<close>)
  then show ?thesis
    using assms(6-8) d assms(1)
    by (simp add: create_file_def wp_bnd [of "with_journal begin_transaction"] wp_with_journal wp_begin_transaction fr_ok_def
        wp_bnd [of "with_mft allocate_record"] wp_with_mft wp_allocate_record wp_bnd [of "lift_res _"] wp_lift_res bnd_assoc)
qed

lemma wp_create_file:
  assumes "fr_ok ready f w" "unat (next_transaction_id (journal_manager f)) + 2 < 2 ^ 64" "unat (NEXT_RECORD w) + 2 < 2 ^ 64"
    and "mm_ok (mft_manager f) (NEXT_RECORD w)" "apart f (NEXT_RECORD w)" "file_fits name data"
    and "\<And>f' w'. after_update ready sec (NEXT_RECORD w) (f, w) (f', w') \<Longrightarrow>
      file_at sec (mft_manager f) (NEXT_RECORD w) data (dev w') \<Longrightarrow> NEXT_RECORD w' = NEXT_RECORD w + 1 \<Longrightarrow>
      Q (Ok (NEXT_RECORD w)) (f', w')"
  shows "wp (create_file B parent name (Some data)) (f, w) Q"
proof -
  from file_record_ok [OF assms(6), of "NEXT_RECORD w" parent] obtain r0 a r where
    r: "file_record (NEXT_RECORD w) parent name = Ok r0" "data_attribute data = Ok a" "add_attribute a r0 = Ok r"
      "is_file r (NEXT_RECORD w) data" by blast
  show ?thesis
    by (rule wp_create_file_as [OF assms(1-5) r(1-3)])
      (use is_fileD [OF r(4)] r(4) in \<open>auto simp: file_at_def intro: record_ok_writable intro!: assms(7)\<close>)
qed

text \<open>The start \<open>write_file\<close> and \<open>delete_file\<close> share: open a transaction, read the record, keep its bytes.\<close>

lemma wp_rewrite:
  assumes "fr_ok ready f w" "unat (next_transaction_id (journal_manager f)) + 2 < 2 ^ 64"
    and "mm_ok (mft_manager f) rn" "apart f rn" "reads_as sec (mft_manager f) rn r (dev w)" "writable r"
    and "g r = Ok r'" "writable r'" "mr_record_number r' = rn"
    and "\<And>f' w'. after_update ready sec rn (f, w) (f', w') \<Longrightarrow> stored sec (mft_manager f) r' (dev w') \<Longrightarrow> Q (Ok ()) (f', w')"
  shows "wp (bnd (with_journal begin_transaction) (\<lambda>i.
      bnd (with_mft (\<lambda>m. read_record B m rn)) (\<lambda>rec.
      bnd (lift_res (MftRecord_serialize rec)) (\<lambda>old.
      bnd (lift_res (g rec)) (\<lambda>rec.
      bnd (lift_res (MftRecord_serialize rec)) (\<lambda>redo.
      bnd (with_journal (log_operation B i op rn old redo)) (\<lambda>_.
      bnd (with_mft (\<lambda>m. write_record B m rec)) (\<lambda>_.
        with_journal (commit_transaction B i)))))))) ) (f, w) Q"
proof -
  let ?j = "journal_manager f" and ?m = "mft_manager f"
  let ?i = "next_transaction_id ?j"
  let ?f1 = "f\<lparr>journal_manager := ?j\<lparr>next_transaction_id := ?i + 1,
     active_transactions := active_transactions ?j @ [Transaction_new ?i (current_sequence ?j)]\<rparr>\<rparr>"
  obtain d where d: "MftRecord_serialize r = Ok d" "length d = MFT_RECORD_SIZE" using assms(6) by (auto simp: writable_def)
  obtain d' where d': "MftRecord_serialize r' = Ok d'" "length d' = MFT_RECORD_SIZE" using assms(8) by (auto simp: writable_def)
  have n1: "unat (?i + 1) = unat ?i + 1" using assms(2) by (simp add: unat_add_no_wrap)
  then have fr1: "fr_ok ready ?f1 (w\<lparr>dev := v\<rparr>)" if "ready v = ready (dev w)" for v
    using assms(1,2) that by (simp add: fr_ok_def)
  have ap: "apart ?f1 n = apart f n" "outside ?f1 n = outside f n" for n by (simp_all add: apart_def outside_def fun_eq_iff)
  have end_part: "wp (bnd (with_journal (log_operation B ?i op rn d d')) (\<lambda>_. bnd (with_mft (\<lambda>m. write_record B m r')) (\<lambda>_.
        with_journal (commit_transaction B ?i)))) (?f1, w\<lparr>dev := v\<rparr>) Q"
    if v: "sec v = sec (dev w)" "ready v = ready (dev w)" for v
  proof -
    have "wp (bnd (with_journal (log_operation B ?i op rn d d')) (\<lambda>_. bnd (with_mft (\<lambda>m. write_record B m r')) (\<lambda>_.
        bnd (with_journal (commit_transaction B ?i)) ret))) (?f1, w\<lparr>dev := v\<rparr>) Q"
    proof (rule wp_logged_write [OF fr1 [OF v(2)]], goal_cases)
      case (6 f' w')
      then show ?case
        using assms(9) v n1 by (auto simp: after_update_def ap wp_ret disk_record_def intro!: assms(10))
    qed (use assms(3,4,8,9) d d' ap in \<open>auto simp: Transaction_new_def MFT_RECORD_SIZE_def\<close>)
    then show ?thesis by (simp only: bnd_ret_right)
  qed
  have "wp (read_record B ?m rn) w (\<lambda>x w'. case x of Ok rec \<Rightarrow> wp (
      bnd (lift_res (MftRecord_serialize rec)) (\<lambda>old.
      bnd (lift_res (g rec)) (\<lambda>rec.
      bnd (lift_res (MftRecord_serialize rec)) (\<lambda>redo.
      bnd (with_journal (log_operation B ?i op rn old redo)) (\<lambda>_.
      bnd (with_mft (\<lambda>m. write_record B m rec)) (\<lambda>_.
        with_journal (commit_transaction B ?i))))))) (?f1, w') Q
    | Err e \<Rightarrow> Q (Err e) (?f1, w') | Panic \<Rightarrow> Q Panic (?f1, w'))"
  proof (rule wp_read_as [OF assms(3) _ assms(5)], goal_cases)
    case 1
    then show ?case using assms(1) by (simp add: fr_ok_def)
  next
    case (2 v)
    then show ?case
      using end_part [OF 2] d d' assms(7) by (simp add: wp_bnd [of "lift_res _"] wp_lift_res)
  qed
  then show ?thesis
    using assms(1) by (simp add: wp_bnd [of "with_journal begin_transaction"] wp_with_journal wp_begin_transaction
        fr_ok_def wp_bnd [of "with_mft (\<lambda>m. read_record B m rn)"] wp_with_mft cong: res.case_cong)
qed

lemma wp_write_file:
  assumes "fr_ok ready f w" "unat (next_transaction_id (journal_manager f)) + 2 < 2 ^ 64"
    and "mm_ok (mft_manager f) rn" "apart f rn" "file_at sec (mft_manager f) rn old (dev w)"
    and "length data = length old" "length data \<le> 700"
    and "\<And>f' w'. after_update ready sec rn (f, w) (f', w') \<Longrightarrow> file_at sec (mft_manager f) rn data (dev w') \<Longrightarrow> Q (Ok ()) (f', w')"
  shows "wp (write_file B rn data) (f, w) Q"
proof -
  from assms(5) obtain r where r: "is_file r rn old" "stored sec (mft_manager f) r (dev w)" by (auto simp: file_at_def)
  let ?r1 = "\<lambda>r. r\<lparr>mr_attributes := update_first (\<lambda>a. ah_attr_type (at_header a) = attr_type_code Data)
      (\<lambda>a. a\<lparr>at_data := new_contents data\<rparr>) (mr_attributes r)\<rparr>"
  have "is_file (?r1 r) rn data" using r(1) assms(6,7) by (rule replace_data)
  from touch_times_file [OF this, of update_write] obtain as where
    as: "update_write_time (?r1 r) = Ok ((?r1 r)\<lparr>mr_attributes := as\<rparr>)" "is_file ((?r1 r)\<lparr>mr_attributes := as\<rparr>) rn data"
    by (auto simp: update_write_time_def)
  show ?thesis
    unfolding write_file_def Let_def
    by (rule wp_rewrite [OF assms(1-4), of r "\<lambda>r. update_write_time (?r1 r)", OF _ _ as(1)])
      (use is_fileD [OF r(1)] is_fileD [OF as(2)] as(2) r(2) assms(8) in
        \<open>auto simp: file_at_def intro: record_ok_writable stored_reads\<close>)
qed

lemma wp_delete_file:
  assumes "fr_ok ready f w" "unat (next_transaction_id (journal_manager f)) + 2 < 2 ^ 64"
    and "mm_ok (mft_manager f) rn" "apart f rn" "file_at sec (mft_manager f) rn data (dev w)"
    and "\<And>f' w' r. after_update ready sec rn (f, w) (f', w') \<Longrightarrow> is_file r rn data \<Longrightarrow> \<not> in_use (get_flags (mr_header r)) \<Longrightarrow>
      stored sec (mft_manager f) r (dev w') \<Longrightarrow> Q (Ok ()) (f', w')"
  shows "wp (delete_file B rn) (f, w) Q"
proof -
  from assms(5) obtain r where r: "is_file r rn data" "stored sec (mft_manager f) r (dev w)" by (auto simp: file_at_def)
  let ?r1 = "\<lambda>rec. rec\<lparr>mr_header := set_flags ((get_flags (mr_header rec))\<lparr>in_use := False\<rparr>) (mr_header rec)\<rparr>"
  have f: "is_file (?r1 r) rn data" "\<not> in_use (get_flags (mr_header (?r1 r)))"
    using r(1) by (auto simp: is_file_def record_ok_def set_flags_def get_flags_def RecordFlags_from_to)
  have "wp (bnd (with_journal begin_transaction) (\<lambda>i.
      bnd (with_mft (\<lambda>m. read_record B m rn)) (\<lambda>rec.
      bnd (lift_res (MftRecord_serialize rec)) (\<lambda>old.
      bnd (lift_res (Ok (?r1 rec))) (\<lambda>rec.
      bnd (lift_res (MftRecord_serialize rec)) (\<lambda>redo.
      bnd (with_journal (log_operation B i DeleteFile rn old redo)) (\<lambda>_.
      bnd (with_mft (\<lambda>m. write_record B m rec)) (\<lambda>_.
        with_journal (commit_transaction B i)))))))) ) (f, w) Q"
    by (rule wp_rewrite [OF assms(1-4), of r "\<lambda>r. Ok (?r1 r)" "?r1 r", OF _ _ refl])
      (use is_fileD [OF r(1)] is_fileD [OF f(1)] f r(2) assms(6) in \<open>auto intro: record_ok_writable stored_reads\<close>)
  moreover have "bnd (lift_res (Ok x)) k = k x" for x :: MftRecord and k :: "MftRecord \<Rightarrow> (FileRecordManager, 'v, unit) meth"
    by (rule ext) simp
  ultimately show ?thesis unfolding delete_file_def Let_def by simp
qed

end


section \<open>Contents of unaligned length\<close>

text \<open>
  The length field of an attribute leaves out the padding that follows it on disk, so after contents of
  a length that is no multiple of eight the attribute loop stops inside the padding.
\<close>

lemma serialize_attrs_any:
  assumes "length A = offset" and "length (concat (map Attribute_serialize as)) \<le> n"
  shows "serialize_attrs as offset (A @ replicate n 0) =
     Ok (A @ concat (map Attribute_serialize as) @ replicate (n - length (concat (map Attribute_serialize as))) 0,
         offset + length (concat (map Attribute_serialize as)))"
  using assms
proof (induction as arbitrary: A offset n)
  case (Cons a as)
  let ?l = "length (Attribute_serialize a)"
  have "serialize_attrs as (offset + ?l) ((A @ Attribute_serialize a) @ replicate (n - ?l) 0) =
     Ok ((A @ Attribute_serialize a) @ concat (map Attribute_serialize as)
           @ replicate (n - ?l - length (concat (map Attribute_serialize as))) 0,
         offset + ?l + length (concat (map Attribute_serialize as)))"
    using Cons.prems by (intro Cons.IH) simp_all
  then show ?case
    using Cons.prems by (simp add: splice_zeros Let_def add.assoc)
qed simp

abbreviation attr_bytes :: "MftRecord \<Rightarrow> bytes" where
  "attr_bytes r \<equiv> concat (map Attribute_serialize (mr_attributes r))"

lemma MftRecord_serialize_any:
  assumes "header_ok (mr_header r)" and "length (attr_bytes r) \<le> 964"
  shows "MftRecord_serialize r = Ok (record_header_bytes (mr_header r) @ replicate 14 0
     @ attr_bytes r @ to_le_bytes (0xFFFFFFFF :: u32) @ replicate (964 - length (attr_bytes r)) 0)"
proof -
  let ?h = "mr_header r" and ?as = "mr_attributes r"
  have sig: "length (mh_signature ?h) = 4" using assms(1) by (simp add: header_ok_def FILE_SIGNATURE_def)
  have "header_onto ?h (replicate MFT_RECORD_SIZE 0)
      = (record_header_bytes ?h @ replicate 14 0) @ replicate 968 0"
    using sig by (simp add: header_onto_zeros MFT_RECORD_SIZE_def flip: replicate_add)
  moreover have "serialize_attrs ?as 56 ((record_header_bytes ?h @ replicate 14 0) @ replicate 968 0) =
      Ok ((record_header_bytes ?h @ replicate 14 0) @ attr_bytes r
          @ replicate (968 - length (attr_bytes r)) 0, 56 + length (attr_bytes r))"
    using assms(2) sig by (intro serialize_attrs_any) simp_all
  moreover have "mh_first_attribute_offset ?h = 56" using assms(1) by (simp add: header_ok_def)
  ultimately show ?thesis
    using assms(2) sig by (simp add: MftRecord_serialize_def Let_def put_def splice_def)
qed

lemma parse_attrs_step:
  assumes "drop offset data = Attribute_serialize a @ rest" and "resident_ok a"
    and "ah_attr_type (at_header a) \<noteq> 0xFFFFFFFF" and "offset < n"
  shows "parse_attrs data n offset acc = parse_attrs data n (offset + unat (get_size a)) (acc @ [a])"
proof -
  have "24 \<le> unat (get_size a)" using assms(2) by (auto simp: resident_ok_def get_size_def)
  then have "get_size a \<noteq> 0" by auto
  moreover have "4 \<le> length (Attribute_serialize a)" by (simp add: Attribute_serialize_def length_pad8)
  then have "offset + 4 \<le> length data" using arg_cong [OF assms(1), of length] by simp
  then have "get_le_ck offset data = (Ok (get_le offset data) :: (fs_error, u32) res)" by simp
  moreover have "(get_le offset data :: u32) = ah_attr_type (at_header a)"
    using get_le_drop [of 0 offset data, where 'a = 32] assms(1) attr_type_front by simp
  moreover have "Attribute_deserialize (drop offset data) = Ok a"
    unfolding assms(1) using assms(2) by (rule Attribute_roundtrip)
  ultimately show ?thesis
    using assms(3,4) by (subst parse_attrs.simps) simp
qed

text \<open>A file record whose Data attribute ends four bytes before the next multiple of eight, then \<open>extra\<close>.\<close>

definition odd_file :: "MftRecord \<Rightarrow> FileRecordNumber \<Rightarrow> bytes \<Rightarrow> Attribute list \<Rightarrow> bool" where
  "odd_file r rn data extra \<longleftrightarrow> header_ok (mr_header r) \<and> mr_record_number r = rn
     \<and> length data mod 8 = 4 \<and> length data < 1000
     \<and> (\<exists>s n d std. mr_attributes r = s # n # d # extra
         \<and> unat (mh_bytes_in_use (mr_header r)) = 60 + attr_sum [s, n] + 24 + length data
         \<and> attr_sum [s, n] + length data + 76 \<le> 964
         \<and> attr_ok s \<and> attr_ok n \<and> resident_ok d
         \<and> ah_attr_type (at_header s) = attr_type_code StandardInformation \<and> at_data s = Resident std \<and> length std = 72
         \<and> ah_attr_type (at_header n) = attr_type_code FileName
         \<and> ah_attr_type (at_header d) = attr_type_code Data \<and> at_data d = Resident data)"

text \<open>What the loop reads from the padding and the end marker.\<close>

definition ghost :: Attribute where
  "ghost = \<lparr>at_header = \<lparr>ah_attr_type = 0, ah_length = 0xFFFFFFFF, ah_non_resident = False, ah_name_length = 0,
     ah_name_offset = 0, ah_flags = 0, ah_attribute_id = 0\<rparr>, at_name = [], at_data = Resident []\<rparr>"

lemma replicate_small: "replicate 4 x = [x, x, x, x]" "replicate 8 x = [x, x, x, x, x, x, x, x]"
  by (simp_all add: numeral_eq_Suc)

lemma le_encode_small:
  "le_encode 4 v = [of_nat (v mod 256), of_nat (v div 256 mod 256), of_nat (v div 256 div 256 mod 256),
     of_nat (v div 256 div 256 div 256 mod 256)]"
  "le_encode 2 v = [of_nat (v mod 256), of_nat (v div 256 mod 256)]"
proof -
  have n: "(4 :: nat) = Suc (Suc (Suc (Suc 0)))" "(2 :: nat) = Suc (Suc 0)" by simp_all
  show "le_encode 4 v = [of_nat (v mod 256), of_nat (v div 256 mod 256), of_nat (v div 256 div 256 mod 256),
     of_nat (v div 256 div 256 div 256 mod 256)]" unfolding n by (simp only: le_encode.simps)
  show "le_encode 2 v = [of_nat (v mod 256), of_nat (v div 256 mod 256)]" unfolding n by (simp only: le_encode.simps)
qed

lemma end_marker_bytes: "to_le_bytes (0xFFFFFFFF :: u32) = [0xFF, 0xFF, 0xFF, 0xFF]"
  by (simp add: to_le_bytes_def le_encode_small)

lemma ghost_bytes: "Attribute_serialize ghost = [0, 0, 0, 0, 0xFF, 0xFF, 0xFF, 0xFF] @ replicate 8 0 @ [0, 0, 0, 0, 24, 0, 0, 0]"
  unfolding Attribute_serialize_def ghost_def attribute_header_bytes_def
  by (simp add: to_le_bytes_def le_encode_small pad8_aligned replicate_small)

lemma odd_attribute_bytes:
  assumes "resident_ok d" "at_data d = Resident data" "length data mod 8 = 4"
  shows "length (Attribute_serialize d) = 28 + length data"
    "\<exists>D. Attribute_serialize d = D @ replicate 4 0 \<and> length D = 24 + length data"
proof -
  have "(24 + length data) mod 8 = 4" using assms(3) by presburger
  then show 1: "\<exists>D. Attribute_serialize d = D @ replicate 4 0 \<and> length D = 24 + length data"
    by (simp add: Attribute_serialize_def assms(2) pad8_eq)
  then show "length (Attribute_serialize d) = 28 + length data" by auto
qed

lemma odd_file_bytes:
  assumes "odd_file r rn data extra" and "length (concat (map Attribute_serialize extra)) \<le> 24"
  obtains s n d p where "mr_attributes r = s # n # d # extra"
    and "MftRecord_serialize r = Ok p" and "length p = 1024"
    and "MftRecord_deserialize p rn = bind_res (parse_attrs p (60 + attr_sum [s, n] + 24 + length data)
        (56 + attr_sum [s, n] + 24 + length data) [s, n, d])
        (\<lambda>as. Ok \<lparr>mr_header = mr_header r, mr_attributes = as, mr_record_number = rn\<rparr>)"
    and "drop (56 + attr_sum [s, n] + 24 + length data) p = replicate 4 0 @ concat (map Attribute_serialize extra)
        @ to_le_bytes (0xFFFFFFFF :: u32)
        @ replicate (936 - (attr_sum [s, n] + length data + length (concat (map Attribute_serialize extra)))) 0"
proof -
  let ?h = "mr_header r" and ?E = "concat (map Attribute_serialize extra)"
  from assms(1) obtain s n d where at: "mr_attributes r = s # n # d # extra"
    and h: "header_ok ?h" "unat (mh_bytes_in_use ?h) = 60 + attr_sum [s, n] + 24 + length data"
    and le: "attr_sum [s, n] + length data + 76 \<le> 964" and m: "length data mod 8 = 4"
    and ok: "attr_ok s" "attr_ok n" "resident_ok d" "at_data d = Resident data"
    and ty: "ah_attr_type (at_header d) = attr_type_code Data"
    by (auto simp: odd_file_def)
  from odd_attribute_bytes [OF ok(3,4) m] obtain D where
    D: "Attribute_serialize d = D @ replicate 4 0" "length D = 24 + length data" by blast
  have sz: "length (Attribute_serialize s) = unat (get_size s)" "length (Attribute_serialize n) = unat (get_size n)"
    using ok(1,2) by (simp_all add: attr_ok_def length_Attribute_serialize)
  have gd: "unat (get_size d) = 24 + length data" using ok(3,4) by (auto simp: resident_ok_def get_size_def)
  have sig: "length (mh_signature ?h) = 4" using h(1) by (simp add: header_ok_def FILE_SIGNATURE_def)
  define H where "H = record_header_bytes ?h @ replicate 14 0"
  have Hl: "length H = 56" using sig by (simp add: H_def)
  define Z where "Z = replicate (936 - (attr_sum [s, n] + length data + length ?E)) (0 :: u8)"
  have ab: "attr_bytes r = Attribute_serialize s @ Attribute_serialize n @ D @ replicate 4 0 @ ?E" using at D by simp
  then have abl: "length (attr_bytes r) = attr_sum [s, n] + 28 + length data + length ?E" using sz D by simp
  let ?p = "H @ Attribute_serialize s @ Attribute_serialize n @ Attribute_serialize d @ ?E @ to_le_bytes (0xFFFFFFFF :: u32) @ Z"
  have p: "MftRecord_serialize r = Ok ?p"
    using MftRecord_serialize_any [OF h(1)] abl le assms(2) by (simp add: H_def Z_def ab D)
  have len: "length ?p = 1024" using Hl sz D le assms(2) by (simp add: Z_def)
  have hdr: "header_of_bytes ?p = ?h" using sig header_of_record_bytes by (simp add: H_def)
  have valid: "MftRecordHeader_is_valid ?h"
    using h le by (auto simp: MftRecordHeader_is_valid_def header_ok_def word_le_nat_alt MFT_RECORD_SIZE_def)
  let ?N = "60 + attr_sum [s, n] + 24 + length data"
  have fin: "drop (56 + attr_sum [s, n] + 24 + length data) ?p = replicate 4 0 @ ?E @ to_le_bytes (0xFFFFFFFF :: u32) @ Z"
    using Hl sz D by simp
  have "parse_attrs ?p ?N 56 [] = parse_attrs ?p ?N (56 + unat (get_size s)) [s]"
    using parse_attrs_step [of 56 ?p s _ ?N "[]"] ok(1) Hl by (simp add: attr_ok_def)
  also have "\<dots> = parse_attrs ?p ?N (56 + unat (get_size s) + unat (get_size n)) [s, n]"
    using parse_attrs_step [of "56 + unat (get_size s)" ?p n _ ?N "[s]"] ok(2) Hl sz by (simp add: attr_ok_def)
  also have "\<dots> = parse_attrs ?p ?N (56 + unat (get_size s) + unat (get_size n) + unat (get_size d)) [s, n, d]"
    using parse_attrs_step [of "56 + unat (get_size s) + unat (get_size n)" ?p d _ ?N "[s, n]"] ok(3) ty Hl sz by simp
  also have "56 + unat (get_size s) + unat (get_size n) + unat (get_size d) = 56 + attr_sum [s, n] + 24 + length data"
    using gd by simp
  finally have "MftRecord_deserialize ?p rn = bind_res (parse_attrs ?p ?N (56 + attr_sum [s, n] + 24 + length data) [s, n, d])
      (\<lambda>as. Ok \<lparr>mr_header = ?h, mr_attributes = as, mr_record_number = rn\<rparr>)"
    unfolding MftRecord_deserialize_def Let_def hdr using len valid h by (simp add: header_ok_def MFT_RECORD_SIZE_def)
  from that [OF at p len this] fin show thesis unfolding Z_def by blast
qed

lemma parse_attrs_done: "n \<le> offset \<Longrightarrow> parse_attrs data n offset acc = Ok acc"
  by (subst parse_attrs.simps) simp

lemma parse_attrs_ghost:
  assumes "offset < n" "n < 1000" "drop offset data = replicate 4 0 @ replicate 4 0xFF @ replicate k 0" "48 \<le> k"
  shows "parse_attrs data n offset acc = Ok (acc @ [ghost])"
proof -
  let ?d = "replicate 4 0 @ replicate 4 0xFF @ replicate k 0 :: bytes"
  have le: "(get_le j (replicate m 0) :: 'l::len word) = 0" if "j + LENGTH('l) div 8 \<le> m" for j m
  proof -
    have "window (LENGTH('l) div 8) j (replicate m 0) = replicate (LENGTH('l) div 8) 0" using that by (simp add: window_def)
    moreover have "le_decode (replicate i 0) = 0" for i by (induction i) simp_all
    ultimately show ?thesis by (simp add: get_le_def from_le_bytes_def)
  qed
  have ff: "(get_le 0 (replicate 4 0xFF @ replicate k 0) :: u32) = 0xFFFFFFFF"
    using get_le_append_same [of "0xFFFFFFFF :: u32" "replicate k 0"] by (simp add: end_marker_bytes replicate_small)
  have "Attribute_deserialize ?d = Ok ghost"
    using assms(4) by (simp add: Attribute_deserialize_def Let_def nth_append le ff ghost_def window_def get_le_append_front)
  moreover have "offset + 4 \<le> length data" using arg_cong [OF assms(3), of length] by simp
  then have "get_le_ck offset data = (Ok (get_le offset data) :: (fs_error, u32) res)" by simp
  moreover have "(get_le offset data :: u32) = 0"
    using get_le_drop [of 0 offset data, where 'a = 32] assms(3) by (simp add: get_le_append_front le)
  moreover have "unat (get_size ghost) = 4294967295" "get_size ghost \<noteq> 0" by (simp_all add: get_size_def ghost_def)
  moreover have "parse_attrs data n (offset + 4294967295) (acc @ [ghost]) = Ok (acc @ [ghost])"
    using assms(2) by (intro parse_attrs_done) simp
  ultimately show ?thesis
    using assms(1,3) by (subst parse_attrs.simps) simp
qed

lemma parse_attrs_stuck:
  assumes "offset < n" "drop offset data = replicate 4 0 @ Attribute_serialize ghost @ rest" "24 \<le> length rest"
  shows "parse_attrs data n offset acc = Panic"
proof -
  let ?d = "replicate 4 0 @ Attribute_serialize ghost @ rest"
  have le: "(get_le 0 (replicate 4 0 @ ys) :: u32) = 0" for ys :: bytes
    by (simp add: get_le_def from_le_bytes_def window_def replicate_small)
  have "offset + 4 \<le> length data" using arg_cong [OF assms(2), of length] by (simp add: ghost_bytes)
  then have g: "get_le_ck offset data = (Ok (get_le offset data) :: (fs_error, u32) res)" by simp
  have "(get_le offset data :: u32) = 0"
    using get_le_drop [of 0 offset data, where 'a = 32] assms(2) by (simp add: le)
  moreover have "\<exists>a. Attribute_deserialize ?d = Ok a \<and> get_size a = 0 \<or> Attribute_deserialize ?d = Panic"
    using assms(3) le [unfolded replicate_small]
    by (simp add: Attribute_deserialize_def Let_def ghost_bytes nth_append le get_size_def get_le_ck_def)
  ultimately show ?thesis
    using assms(1,2) g by (subst parse_attrs.simps) auto
qed

lemma odd_first_read:
  assumes "odd_file r rn data []"
  shows "\<exists>p. MftRecord_serialize r = Ok p \<and> length p = 1024
     \<and> MftRecord_deserialize p rn = Ok (r\<lparr>mr_attributes := mr_attributes r @ [ghost]\<rparr>)"
proof -
  have z: "length (concat (map Attribute_serialize [])) \<le> 24" by simp
  obtain s n d p where at: "mr_attributes r = s # n # d # []" and p: "MftRecord_serialize r = Ok p" "length p = 1024"
    and ds: "MftRecord_deserialize p rn = bind_res (parse_attrs p (60 + attr_sum [s, n] + 24 + length data)
        (56 + attr_sum [s, n] + 24 + length data) [s, n, d])
        (\<lambda>as. Ok \<lparr>mr_header = mr_header r, mr_attributes = as, mr_record_number = rn\<rparr>)"
    and dr: "drop (56 + attr_sum [s, n] + 24 + length data) p = replicate 4 0 @ concat (map Attribute_serialize [])
        @ to_le_bytes (0xFFFFFFFF :: u32)
        @ replicate (936 - (attr_sum [s, n] + length data + length (concat (map Attribute_serialize [])))) 0"
    by (rule odd_file_bytes [OF assms z])
  have le: "attr_sum [s, n] + length data + 76 \<le> 964" using assms at by (auto simp: odd_file_def)
  define k where "k = 936 - (attr_sum [s, n] + length data)"
  have k: "48 \<le> k" using le by (simp add: k_def)
  have ff: "to_le_bytes (0xFFFFFFFF :: u32) = replicate 4 0xFF" by (simp add: end_marker_bytes replicate_small)
  have "drop (56 + attr_sum [s, n] + 24 + length data) p = replicate 4 0 @ replicate 4 0xFF @ replicate k 0"
    using dr by (simp only: ff k_def) simp
  then have "parse_attrs p (60 + attr_sum [s, n] + 24 + length data) (56 + attr_sum [s, n] + 24 + length data) [s, n, d]
      = Ok ([s, n, d] @ [ghost])"
    using le k by (intro parse_attrs_ghost) simp_all
  then show ?thesis using p ds at assms by (simp add: odd_file_def)
qed

lemma odd_second_read:
  assumes "odd_file r rn data [ghost]"
  shows "\<exists>p. MftRecord_serialize r = Ok p \<and> length p = 1024 \<and> MftRecord_deserialize p rn = Panic"
proof -
  have z: "length (concat (map Attribute_serialize [ghost])) \<le> 24" by (simp add: ghost_bytes)
  obtain s n d p where at: "mr_attributes r = s # n # d # [ghost]" and p: "MftRecord_serialize r = Ok p" "length p = 1024"
    and ds: "MftRecord_deserialize p rn = bind_res (parse_attrs p (60 + attr_sum [s, n] + 24 + length data)
        (56 + attr_sum [s, n] + 24 + length data) [s, n, d])
        (\<lambda>as. Ok \<lparr>mr_header = mr_header r, mr_attributes = as, mr_record_number = rn\<rparr>)"
    and dr: "drop (56 + attr_sum [s, n] + 24 + length data) p = replicate 4 0 @ concat (map Attribute_serialize [ghost])
        @ to_le_bytes (0xFFFFFFFF :: u32)
        @ replicate (936 - (attr_sum [s, n] + length data + length (concat (map Attribute_serialize [ghost])))) 0"
    by (rule odd_file_bytes [OF assms z])
  have le: "attr_sum [s, n] + length data + 76 \<le> 964" using assms at by (auto simp: odd_file_def)
  have "parse_attrs p (60 + attr_sum [s, n] + 24 + length data) (56 + attr_sum [s, n] + 24 + length data) [s, n, d] = Panic"
    by (rule parse_attrs_stuck [where rest = "to_le_bytes (0xFFFFFFFF :: u32)
        @ replicate (936 - (attr_sum [s, n] + length data + length (concat (map Attribute_serialize [ghost])))) 0"])
      (use le dr in \<open>simp_all add: ghost_bytes\<close>)
  then show ?thesis using p ds by simp
qed

text \<open>Room for the record, its padding and the attribute that the next reads append.\<close>

definition odd_fits :: "bytes \<Rightarrow> bytes \<Rightarrow> bool" where
  "odd_fits name data \<longleftrightarrow> length data mod 8 = 4 \<and> length data \<le> 700
     \<and> 196 + 8 * ((69 + 2 * length name) div 8) + length data \<le> 964"

lemma odd_file_created:
  assumes "odd_fits name data"
  shows "\<exists>r a r'. file_record rn parent name = Ok r \<and> data_attribute data = Ok a \<and> add_attribute a r = Ok r'
     \<and> odd_file r' rn data []"
proof -
  have l: "180 + 8 * ((69 + 2 * length name) div 8) \<le> 1024" using assms by (simp add: odd_fits_def)
  obtain r s n where r: "file_record rn parent name = Ok r" "record_ok r" "mr_attributes r = [s, n]" "mr_record_number r = rn"
    "ah_attr_type (at_header s) = attr_type_code StandardInformation"
    "at_data s = Resident (StandardInformation_serialize StandardInformation_new_file)"
    "ah_attr_type (at_header n) = attr_type_code FileName"
    "attr_sum [s, n] = 120 + 8 * ((69 + 2 * length name) div 8)" "unat (mh_next_attribute_id (mr_header r)) = 2"
    using file_record_two [OF l, of rn parent] by blast
  obtain d where d: "new_resident Data data = Ok d" "resident_ok d" "at_data d = Resident data"
    "ah_attr_type (at_header d) = attr_type_code Data"
    using new_resident_ok [of data Data] assms by (auto simp: odd_fits_def)
  have gd: "unat (get_size d) = 24 + length data" using d(2,3) by (auto simp: resident_ok_def get_size_def)
  obtain r' where r': "add_attribute d r = Ok r'" "header_ok (mr_header r')" "mr_attributes r' = [s, n, d]"
    "mr_record_number r' = rn" "unat (mh_bytes_in_use (mr_header r')) = 60 + attr_sum [s, n, d]"
    using add_attribute_gen [of r d] record_okD [OF r(2)] r gd assms by (auto simp: odd_fits_def)
  have "odd_file r' rn data []"
    using r' r(3,5-8) d gd assms record_okD [OF r(2)] by (auto simp: odd_file_def odd_fits_def)
  moreover have "data_attribute data = Ok d" using d(1) assms by (simp add: data_attribute_def odd_fits_def)
  ultimately show ?thesis using r(1) r'(1) by blast
qed

lemma odd_file_touched:
  assumes "odd_file r rn data []"
  shows "\<exists>a as. find (\<lambda>a. ah_attr_type (at_header a) = attr_type_code Data) (mr_attributes r @ [ghost]) = Some a
     \<and> at_data a = Resident data \<and> touch_times f (mr_attributes r @ [ghost]) = Ok as
     \<and> odd_file (r\<lparr>mr_attributes := as\<rparr>) rn data [ghost]"
proof -
  from assms obtain s n d std where as: "mr_attributes r = [s, n, d]"
    and s: "attr_ok s" "ah_attr_type (at_header s) = attr_type_code StandardInformation" "at_data s = Resident std" "length std = 72"
    and nd: "ah_attr_type (at_header n) = attr_type_code FileName"
      "ah_attr_type (at_header d) = attr_type_code Data" "at_data d = Resident data"
    by (auto simp: odd_file_def)
  obtain si where si: "StandardInformation_deserialize std = Ok si" using s(4) by (simp add: StandardInformation_deserialize_def)
  let ?s = "s\<lparr>at_data := Resident (StandardInformation_serialize (si\<lparr>si_times := f (si_times si)\<rparr>))\<rparr>"
  have "attr_ok ?s" using s by (auto simp: attr_ok_def resident_ok_def get_size_def)
  then have "odd_file (r\<lparr>mr_attributes := [?s, n, d, ghost]\<rparr>) rn data [ghost]"
    using assms as s nd by (auto simp: odd_file_def get_size_def)
  moreover have "touch_times f (mr_attributes r @ [ghost]) = Ok [?s, n, d, ghost]" using as s si by simp
  ultimately show ?thesis using as s nd by simp
qed

context block_device
begin

lemma wp_read_file_panics:
  assumes "mm_ok (mft_manager f) rn" "ready (dev w) (mm_drive (mft_manager f))"
    and "MftRecord_deserialize (disk_record sec (mft_manager f) rn (dev w)) rn = Panic" "\<And>w'. Q Panic (f, w')"
  shows "wp (read_file B rn) (f, w) Q"
  unfolding read_file_def wp_bnd [of "with_mft _"] wp_with_mft
  by (rule wp_read_record [OF assms(1,2)]) (use assms(3,4) in simp)

end


section \<open>Properties\<close>

lemma after_updateD:
  assumes "after_update ready sec rn (f, w) (f', w')"
  shows "mft_manager f' = mft_manager f" "ready (dev w') = ready (dev w)" "\<And>n. apart f' n = apart f n"
    "\<And>n. n \<noteq> rn \<Longrightarrow> apart f n \<Longrightarrow> disk_record sec (mft_manager f) n (dev w') = disk_record sec (mft_manager f) n (dev w)"
  using assms by (simp_all add: after_update_def apart_def)

lemma read_file_at:
  assumes "block_device B ready sec" "mm_ok (mft_manager f) rn" "ready (dev w) (mm_drive (mft_manager f))"
    and "file_at sec (mft_manager f) rn data (dev w)"
  shows "\<exists>w'. read_file B rn (f, w) = (Ok data, (f, w')) \<and> file_at sec (mft_manager f) rn data (dev w')
     \<and> ready (dev w') = ready (dev w)"
proof -
  have "wp (read_file B rn) (f, w) (\<lambda>r s. r = Ok data \<and> fst s = f \<and> file_at sec (mft_manager f) rn data (dev (snd s))
      \<and> ready (dev (snd s)) = ready (dev w))"
    by (rule block_device.wp_read_file [OF assms]) simp
  then show ?thesis by (auto simp: wp_def split: prod.splits)
qed

text \<open>
  C15: A file created with contents whose length is a multiple of eight and fits the record can be read
  back, again and again: the first and the second read both return the contents. The new file takes
  the next record number, and every other record of the table outside the journal keeps its bytes.
\<close>

theorem create_then_read:
  assumes "block_device B ready sec" and "fr_ok ready f w" and "file_fits name data"
    and "unat (next_transaction_id (journal_manager f)) + 2 < 2 ^ 64" and "unat (NEXT_RECORD w) + 2 < 2 ^ 64"
    and "mm_ok (mft_manager f) (NEXT_RECORD w)" and "apart f (NEXT_RECORD w)"
  shows "case create_file B parent name (Some data) (f, w) of (r, (f', w')) \<Rightarrow> r = Ok (NEXT_RECORD w)
     \<and> fst (read_file B (NEXT_RECORD w) (f', w')) = Ok data
     \<and> fst (bnd (read_file B (NEXT_RECORD w)) (\<lambda>_. read_file B (NEXT_RECORD w)) (f', w')) = Ok data
     \<and> (\<forall>n. n \<noteq> NEXT_RECORD w \<and> apart f n \<longrightarrow>
          disk_record sec (mft_manager f) n (dev w') = disk_record sec (mft_manager f) n (dev w))"
proof -
  let ?rn = "NEXT_RECORD w"
  have "wp (create_file B parent name (Some data)) (f, w) (\<lambda>r (f', w'). r = Ok ?rn
     \<and> fst (read_file B ?rn (f', w')) = Ok data
     \<and> fst (bnd (read_file B ?rn) (\<lambda>_. read_file B ?rn) (f', w')) = Ok data
     \<and> (\<forall>n. n \<noteq> ?rn \<and> apart f n \<longrightarrow> disk_record sec (mft_manager f) n (dev w') = disk_record sec (mft_manager f) n (dev w)))"
  proof (rule block_device.wp_create_file [OF assms(1,2,4-7,3)], goal_cases)
    case (1 f' w')
    have m: "mm_ok (mft_manager f') ?rn" "ready (dev w') (mm_drive (mft_manager f'))"
      using after_updateD [OF 1(1)] assms(2,6) by (simp_all add: fr_ok_def)
    obtain w1 where w1: "read_file B ?rn (f', w') = (Ok data, (f', w1))" "file_at sec (mft_manager f') ?rn data (dev w1)"
      "ready (dev w1) = ready (dev w')"
      using read_file_at [OF assms(1) m, of data] 1(2) after_updateD [OF 1(1)] by auto
    obtain w2 where "read_file B ?rn (f', w1) = (Ok data, (f', w2))"
      using read_file_at [OF assms(1) m(1) _ w1(2)] m(2) w1(3) by auto
    then show ?case using w1 after_updateD [OF 1(1)] by simp
  qed
  then show ?thesis by (auto simp: wp_def split: prod.splits)
qed

definition demo_manager :: FileRecordManager where
  "demo_manager = FileRecordManager_new (MftManager_new 0 4 4096) (JournalManager_new 0 400 64)"

lemma demo_manager_ok: "fr_ok ram_ready demo_manager (blank_world 2000)"
  using blank_ready [of 2000]
  by (simp add: fr_ok_def demo_manager_def FileRecordManager_new_def MftManager_new_def JournalManager_new_def jm_ok_def)
    (simp add: blank_world_def)

lemma demo_manager_record:
  "mm_ok (mft_manager demo_manager) 16" "apart demo_manager 16" "unat (next_transaction_id (journal_manager demo_manager)) = 1"
  by (simp_all add: demo_manager_def FileRecordManager_new_def MftManager_new_def JournalManager_new_def mm_ok_def
      apart_def rec_sector_def)

theorem create_then_read_witness:
  "case create_file ram_bdev 5 [97, 98] (Some [1, 2, 3, 4, 5, 6, 7, 8]) (demo_manager, blank_world 2000) of (r, s) \<Rightarrow>
     r = Ok 16 \<and> fst (read_file ram_bdev 16 s) = Ok [1, 2, 3, 4, 5, 6, 7, 8]"
proof -
  have n: "NEXT_RECORD (blank_world 2000) = 16" by (simp add: blank_world_def)
  have "file_fits [97, 98] [1, 2, 3, 4, 5, 6, 7, 8]" by (simp add: file_fits_def) presburger
  from create_then_read [OF ram.block_device_axioms demo_manager_ok this, of 5] show ?thesis
    by (auto simp: n demo_manager_record split: prod.splits)
qed

lemma demo_file:
  obtains f w where "create_file ram_bdev 5 [97, 98] (Some [1, 2, 3, 4, 5, 6, 7, 8]) (demo_manager, blank_world 2000) = (Ok 16, (f, w))"
    and "fr_ok ram_ready f w" and "file_at ram_sec (mft_manager f) 16 [1, 2, 3, 4, 5, 6, 7, 8] (dev w)"
    and "unat (next_transaction_id (journal_manager f)) + 2 < 2 ^ 64" and "mm_ok (mft_manager f) 16" and "apart f 16"
proof -
  have n: "NEXT_RECORD (blank_world 2000) = 16" "COUNTER (blank_world 2000) = 0" by (simp_all add: blank_world_def)
  have j: "unat (current_sequence (journal_manager demo_manager)) = 1"
    by (simp add: demo_manager_def FileRecordManager_new_def JournalManager_new_def)
  have fits: "file_fits [97, 98] [1, 2, 3, 4, 5, 6, 7, 8]" by (simp add: file_fits_def) presburger
  have "wp (create_file ram_bdev 5 [97, 98] (Some [1, 2, 3, 4, 5, 6, 7, 8])) (demo_manager, blank_world 2000)
      (\<lambda>r (f, w). r = Ok 16 \<and> fr_ok ram_ready f w \<and> file_at ram_sec (mft_manager f) 16 [1, 2, 3, 4, 5, 6, 7, 8] (dev w)
        \<and> unat (next_transaction_id (journal_manager f)) + 2 < 2 ^ 64 \<and> mm_ok (mft_manager f) 16 \<and> apart f 16)"
  proof (rule ram.wp_create_file [OF demo_manager_ok _ _ _ _ fits], goal_cases)
    case (5 f w)
    then show ?case using demo_manager_ok demo_manager_record after_updateD [OF 5(1)] j
      by (simp add: n after_update_def fr_ok_def jm_ok_def)
  qed (simp_all add: n demo_manager_record)
  then show thesis by (auto simp: wp_def split: prod.splits intro: that)
qed







text \<open>
  The File Name attribute of an ASCII name of 2 to 255 bytes is read back as it was written; the
  attribute of a shorter name is rejected by the reader, which asks for 66 bytes where 64 were written.
\<close>

theorem file_name_roundtrip:
  assumes "length (fn_name f) < 256" and "\<forall>b\<in>set (fn_name f). b < 0x80"
  shows "FileName_deserialize (FileName_serialize f) = (if 2 \<le> length (fn_name f) then Ok f else Err InvalidParameter)"
proof (cases "2 \<le> length (fn_name f)")
  case True
  then show ?thesis using FileName_roundtrip [OF _ assms] by simp
next
  case False
  then have "length (fn_name f) = 0 \<or> length (fn_name f) = 1" by linarith
  then have "length (FileName_serialize f) = 64" by (auto simp: length_FileName_serialize)
  then show ?thesis using False by (simp add: FileName_deserialize_def)
qed

theorem file_name_roundtrip_witness:
  "FileName_deserialize (FileName_serialize (FileName_new 5 [97, 98] False)) = Ok (FileName_new 5 [97, 98] False)"
  using file_name_roundtrip [of "FileName_new 5 [97, 98] False"] by (simp add: FileName_new_def word_less_nat_alt)

end
