(* ===== verification/BTree.thy ===== *)
theory BTree
  imports File_Record "HOL-Library.List_Lexorder"
begin

text \<open>
  The directory index, \<^verbatim>\<open>crates/galleon2/src/btree.rs\<close>: index entries and nodes, their byte format,
  the operations on one node (insert, remove, find, split) and the manager that walks the nodes on
  the disk. Keys are UTF-8 strings and compare as their bytes do, lexicographically.
\<close>

definition INDEX_NODE_SIZE :: nat where "INDEX_NODE_SIZE = 4096"
definition INDEX_ENTRY_HEADER_SIZE :: nat where "INDEX_ENTRY_HEADER_SIZE = 16"


section \<open>Strings read from bytes\<close>

text \<open>
  \<^verbatim>\<open>String::from_utf8_lossy\<close>: well-formed UTF-8 is kept, each maximal ill-formed part becomes U+FFFD.
\<close>

function from_utf8_lossy :: "bytes \<Rightarrow> bytes" where
  "from_utf8_lossy bs =
     (if bs = [] then []
      else case utf8_step bs of (n, valid) \<Rightarrow>
        (if valid then take n bs else [0xEF, 0xBF, 0xBD]) @ from_utf8_lossy (drop n bs))"
  by pat_completeness auto
termination
proof (relation "measure length", goal_cases)
  case (2 bs n valid)
  with utf8_step_pos [of bs] show ?case by (cases "utf8_step bs") simp
qed simp

declare from_utf8_lossy.simps [simp del]


section \<open>Index entries\<close>

record IndexEntryFlags =
  has_sub_node :: bool
  is_last_entry :: bool

definition IndexEntryFlags_new :: IndexEntryFlags where
  "IndexEntryFlags_new = \<lparr>has_sub_node = False, is_last_entry = False\<rparr>"

definition IndexEntryFlags_to_u8 :: "IndexEntryFlags \<Rightarrow> u8" where
  "IndexEntryFlags_to_u8 self =
     (let flags = 0;
          flags = (if has_sub_node self then flags OR 0x01 else flags);
          flags = (if is_last_entry self then flags OR 0x02 else flags)
      in flags)"

definition IndexEntryFlags_from_u8 :: "u8 \<Rightarrow> IndexEntryFlags" where
  "IndexEntryFlags_from_u8 v = \<lparr>has_sub_node = (v AND 0x01 \<noteq> 0), is_last_entry = (v AND 0x02 \<noteq> 0)\<rparr>"

record IndexEntry =
  ie_file_record_number :: FileRecordNumber
  ie_entry_length :: u16
  ie_key_length :: u16
  ie_flags :: IndexEntryFlags
  ie_file_name :: "FileName option"
  ie_sub_node_vcn :: "u64 option"
  ie_key :: bytes

definition IndexEntry_new_leaf :: "FileRecordNumber \<Rightarrow> FileName \<Rightarrow> (fs_error, IndexEntry) res" where
  "IndexEntry_new_leaf file_record_number file_name =
     (let key = fn_name file_name;
          key_length = of_nat (length key)
      in bind_res (add_ck (of_nat INDEX_ENTRY_HEADER_SIZE) key_length) (\<lambda>n.
         bind_res (add_ck n (of_nat (length (FileName_serialize file_name)))) (\<lambda>entry_length.
           Ok \<lparr>ie_file_record_number = file_record_number, ie_entry_length = entry_length,
               ie_key_length = key_length, ie_flags = IndexEntryFlags_new, ie_file_name = Some file_name,
               ie_sub_node_vcn = None, ie_key = key\<rparr>)))"

definition IndexEntry_new_internal :: "bytes \<Rightarrow> u64 \<Rightarrow> (fs_error, IndexEntry) res" where
  "IndexEntry_new_internal key sub_node_vcn =
     (let key_length = of_nat (length key)
      in bind_res (add_ck (of_nat INDEX_ENTRY_HEADER_SIZE) key_length) (\<lambda>n.
         bind_res (add_ck n 8) (\<lambda>entry_length.
           Ok \<lparr>ie_file_record_number = 0, ie_entry_length = entry_length, ie_key_length = key_length,
               ie_flags = IndexEntryFlags_new\<lparr>has_sub_node := True\<rparr>, ie_file_name = None,
               ie_sub_node_vcn = Some sub_node_vcn, ie_key = key\<rparr>)))"

definition new_end_marker :: IndexEntry where
  "new_end_marker = \<lparr>ie_file_record_number = 0, ie_entry_length = of_nat INDEX_ENTRY_HEADER_SIZE, ie_key_length = 0,
     ie_flags = IndexEntryFlags_new\<lparr>is_last_entry := True\<rparr>, ie_file_name = None, ie_sub_node_vcn = None, ie_key = []\<rparr>"

abbreviation is_last :: "IndexEntry \<Rightarrow> bool" where
  "is_last e \<equiv> is_last_entry (ie_flags e)"

definition IndexEntry_serialize :: "IndexEntry \<Rightarrow> bytes" where
  "IndexEntry_serialize self = pad8
     (to_le_bytes (ie_file_record_number self) @ to_le_bytes (ie_entry_length self) @ to_le_bytes (ie_key_length self)
      @ [IndexEntryFlags_to_u8 (ie_flags self), 0]
      @ ie_key self
      @ (case ie_file_name self of Some file_name \<Rightarrow> FileName_serialize file_name | None \<Rightarrow> [])
      @ (case ie_sub_node_vcn self of Some vcn \<Rightarrow> to_le_bytes vcn | None \<Rightarrow> []))"

definition IndexEntry_deserialize :: "bytes \<Rightarrow> (fs_error, IndexEntry \<times> nat) res" where
  "IndexEntry_deserialize data =
     (if length data < INDEX_ENTRY_HEADER_SIZE then Err InvalidParameter
      else
        let file_record_number = get_le 0 data;
            entry_length = get_le 8 data;
            key_length = get_le 10 data;
            flags = IndexEntryFlags_from_u8 (data ! 12)
        in if length data < unat entry_length then Err InvalidParameter
           else
             bind_res (slice data INDEX_ENTRY_HEADER_SIZE (INDEX_ENTRY_HEADER_SIZE + unat key_length)) (\<lambda>raw.
             let key = from_utf8_lossy raw;
                 offset = INDEX_ENTRY_HEADER_SIZE + unat key_length
             in bind_res
                  (if has_sub_node flags then
                     (if offset + 8 \<le> unat entry_length then Ok (None, Some (get_le offset data)) else Ok (None, None))
                   else if \<not> is_last_entry flags then
                     (if offset < unat entry_length then
                        (case FileName_deserialize (window (unat entry_length - offset) offset data) of
                           Ok fname \<Rightarrow> Ok (Some fname, None)
                         | Err _ \<Rightarrow> Ok (None, None)
                         | Panic \<Rightarrow> Panic)
                      else Ok (None, None))
                   else Ok (None, None)) (\<lambda>(file_name, sub_node_vcn).
                Ok (\<lparr>ie_file_record_number = file_record_number, ie_entry_length = entry_length,
                     ie_key_length = key_length, ie_flags = flags, ie_file_name = file_name,
                     ie_sub_node_vcn = sub_node_vcn, ie_key = key\<rparr>, unat entry_length))))"


section \<open>Node header\<close>

text \<open>\<^verbatim>\<open>b"INDX"\<close>.\<close>

definition INDX :: bytes where "INDX = [73, 78, 68, 88]"

record IndexHeader =
  ih_signature :: bytes
  entries_offset :: u32
  index_length :: u32
  ih_allocated_size :: u32
  ih_flags :: u8
  ih_sequence_number :: u16

definition IndexHeader_new_leaf :: IndexHeader where
  "IndexHeader_new_leaf = \<lparr>ih_signature = INDX, entries_offset = 32, index_length = 32,
     ih_allocated_size = of_nat INDEX_NODE_SIZE, ih_flags = 0, ih_sequence_number = 1\<rparr>"

definition IndexHeader_new_internal :: IndexHeader where
  "IndexHeader_new_internal = \<lparr>ih_signature = INDX, entries_offset = 32, index_length = 32,
     ih_allocated_size = of_nat INDEX_NODE_SIZE, ih_flags = 1, ih_sequence_number = 1\<rparr>"

definition IndexHeader_serialize :: "IndexHeader \<Rightarrow> bytes" where
  "IndexHeader_serialize self =
     (let d = replicate 32 0;
          d = splice d 0 (ih_signature self);
          d = splice d 4 (to_le_bytes (entries_offset self));
          d = splice d 8 (to_le_bytes (index_length self));
          d = splice d 12 (to_le_bytes (ih_allocated_size self));
          d = d[16 := ih_flags self];
          d = splice d 17 (to_le_bytes (ih_sequence_number self))
      in d)"

definition IndexHeader_deserialize :: "bytes \<Rightarrow> (fs_error, IndexHeader) res" where
  "IndexHeader_deserialize data =
     (if length data < 32 then Err InvalidParameter
      else
        let signature = window 4 0 data in
        if signature \<noteq> INDX then Err InvalidParameter
        else Ok \<lparr>ih_signature = signature, entries_offset = get_le 4 data, index_length = get_le 8 data,
               ih_allocated_size = get_le 12 data, ih_flags = data ! 16, ih_sequence_number = get_le 17 data\<rparr>)"

definition is_leaf :: "IndexHeader \<Rightarrow> bool" where
  "is_leaf self \<longleftrightarrow> ih_flags self = 0"


section \<open>Nodes\<close>

record IndexNode =
  nd_header :: IndexHeader
  nd_entries :: "IndexEntry list"
  nd_vcn :: u64

definition IndexNode_new_leaf :: "u64 \<Rightarrow> IndexNode" where
  "IndexNode_new_leaf vcn = \<lparr>nd_header = IndexHeader_new_leaf, nd_entries = [new_end_marker], nd_vcn = vcn\<rparr>"

definition IndexNode_new_internal :: "u64 \<Rightarrow> IndexNode" where
  "IndexNode_new_internal vcn = \<lparr>nd_header = IndexHeader_new_internal, nd_entries = [new_end_marker], nd_vcn = vcn\<rparr>"

definition calculate_size :: "IndexNode \<Rightarrow> nat" where
  "calculate_size self = foldl (\<lambda>sz e. sz + unat (ie_entry_length e)) (unat (entries_offset (nd_header self))) (nd_entries self)"

definition update_header :: "IndexNode \<Rightarrow> IndexNode" where
  "update_header self = self\<lparr>nd_header := (nd_header self)\<lparr>index_length := of_nat (calculate_size self)\<rparr>\<rparr>"

text \<open>\<^verbatim>\<open>iter().position(p).unwrap_or(len)\<close>: the number of entries before the first that satisfies \<open>p\<close>.\<close>

definition position :: "('a \<Rightarrow> bool) \<Rightarrow> 'a list \<Rightarrow> nat" where
  "position p xs = length (takeWhile (\<lambda>x. \<not> p x) xs)"

definition insert_entry :: "IndexEntry \<Rightarrow> IndexNode \<Rightarrow> IndexNode" where
  "insert_entry entry self =
     (let pos = position (\<lambda>e. is_last e \<or> ie_key e > ie_key entry) (nd_entries self)
      in update_header (self\<lparr>nd_entries := take pos (nd_entries self) @ entry # drop pos (nd_entries self)\<rparr>))"

definition remove_entry :: "bytes \<Rightarrow> IndexNode \<Rightarrow> IndexEntry option \<times> IndexNode" where
  "remove_entry key self =
     (let pos = position (\<lambda>e. ie_key e = key) (nd_entries self)
      in if pos < length (nd_entries self)
         then (Some (nd_entries self ! pos),
               update_header (self\<lparr>nd_entries := take pos (nd_entries self) @ drop (pos + 1) (nd_entries self)\<rparr>))
         else (None, self))"

definition find_entry :: "bytes \<Rightarrow> IndexNode \<Rightarrow> IndexEntry option" where
  "find_entry key self = find (\<lambda>e. ie_key e = key \<and> \<not> is_last e) (nd_entries self)"

definition is_full :: "IndexNode \<Rightarrow> bool" where
  "is_full self \<longleftrightarrow> calculate_size self > INDEX_NODE_SIZE - 512"

definition is_underflow :: "IndexNode \<Rightarrow> bool" where
  "is_underflow self \<longleftrightarrow> calculate_size self < INDEX_NODE_SIZE div 4"

text \<open>
  \<^verbatim>\<open>split\<close> moves the entries from the middle up to the last one, which stays as the end marker, in front
  of the end marker of the new node.
\<close>

definition IndexNode_split :: "IndexNode \<Rightarrow> (fs_error, IndexNode \<times> IndexNode) res" where
  "IndexNode_split self =
     (let mid_point = length (nd_entries self) div 2 in
      bind_res (add_ck (nd_vcn self) 1) (\<lambda>v.
      let new_node = (if is_leaf (nd_header self) then IndexNode_new_leaf v else IndexNode_new_internal v)
      in if nd_entries self = [] then Panic
         else
           let end_marker_pos = length (nd_entries self) - 1;
               (kept, new_entries) =
                 (if mid_point < end_marker_pos then
                    (take mid_point (nd_entries self) @ drop end_marker_pos (nd_entries self),
                     foldl (\<lambda>es e. take (length es - 1) es @ e # drop (length es - 1) es) (nd_entries new_node)
                       (drop mid_point (take end_marker_pos (nd_entries self))))
                  else (nd_entries self, nd_entries new_node))
           in Ok (update_header (self\<lparr>nd_entries := kept\<rparr>), update_header (new_node\<lparr>nd_entries := new_entries\<rparr>))))"

fun serialize_entries :: "IndexEntry list \<Rightarrow> nat \<Rightarrow> bytes \<Rightarrow> bytes" where
  "serialize_entries [] offset data = data"
| "serialize_entries (e # es) offset data =
     (let entry_data = IndexEntry_serialize e in
      if offset + length entry_data \<le> INDEX_NODE_SIZE
      then serialize_entries es (offset + length entry_data) (splice data offset entry_data)
      else serialize_entries es offset data)"

definition IndexNode_serialize :: "IndexNode \<Rightarrow> bytes" where
  "IndexNode_serialize self =
     serialize_entries (nd_entries self) (unat (entries_offset (nd_header self)))
       (splice (replicate INDEX_NODE_SIZE 0) 0 (IndexHeader_serialize (nd_header self)))"

text \<open>
  The entry loop of \<^verbatim>\<open>IndexNode::deserialize\<close>. An entry of length 0 that is not the last does not advance
  the offset: the loop pushes the same entry until the allocation of the vector fails, which panics.
\<close>

function parse_entries :: "bytes \<Rightarrow> nat \<Rightarrow> nat \<Rightarrow> IndexEntry list \<Rightarrow> (fs_error, IndexEntry list) res" where
  "parse_entries data limit offset es =
     (if offset < limit then
        (if length data < offset then Panic
         else bind_res (IndexEntry_deserialize (drop offset data)) (\<lambda>(entry, entry_size).
           if is_last entry then Ok (es @ [entry])
           else if entry_size = 0 then Panic
           else parse_entries data limit (offset + entry_size) (es @ [entry])))
      else Ok es)"
  by pat_completeness auto
termination
  by (relation "measure (\<lambda>(d, n, i, es). n - i)") auto

declare parse_entries.simps [simp del]

definition IndexNode_deserialize :: "bytes \<Rightarrow> u64 \<Rightarrow> (fs_error, IndexNode) res" where
  "IndexNode_deserialize data vcn =
     (if length data < INDEX_NODE_SIZE then Err InvalidParameter
      else bind_res (IndexHeader_deserialize data) (\<lambda>header.
           bind_res (parse_entries data (unat (index_length header)) (unat (entries_offset header)) []) (\<lambda>es.
             Ok \<lparr>nd_header = header, nd_entries = es, nd_vcn = vcn\<rparr>)))"


section \<open>The manager\<close>

record BTreeManager =
  bt_drive :: u8
  root_vcn :: u64
  bt_index_allocation_start :: u64
  bt_cluster_size :: u32

definition BTreeManager_new :: "u8 \<Rightarrow> u64 \<Rightarrow> u64 \<Rightarrow> u32 \<Rightarrow> BTreeManager" where
  "BTreeManager_new drive root start sz =
     \<lparr>bt_drive = drive, root_vcn = root, bt_index_allocation_start = start, bt_cluster_size = sz\<rparr>"

definition node_sector :: "BTreeManager \<Rightarrow> u64 \<Rightarrow> (fs_error, u64) res" where
  "node_sector self vcn =
     bind_res (add_ck (bt_index_allocation_start self) vcn) (\<lambda>cluster_num.
       mul_ck cluster_num (as_u64 (bt_cluster_size self div 512)))"

definition read_node :: "'v bdev \<Rightarrow> BTreeManager \<Rightarrow> u64 \<Rightarrow> ('v, IndexNode) fs" where
  "read_node B self vcn =
     bnd (lift_res (node_sector self vcn)) (\<lambda>sector_start.
     bnd (dread B (bt_drive self) (of_nat (INDEX_NODE_SIZE div 512)) (as_u32 sector_start) (replicate INDEX_NODE_SIZE 0)) (\<lambda>node_data.
       lift_res (IndexNode_deserialize node_data vcn)))"

definition write_node :: "'v bdev \<Rightarrow> BTreeManager \<Rightarrow> IndexNode \<Rightarrow> ('v, unit) fs" where
  "write_node B self node =
     bnd (lift_res (node_sector self (nd_vcn node))) (\<lambda>sector_start.
       dwrite B (bt_drive self) (of_nat (INDEX_NODE_SIZE div 512)) (as_u32 sector_start) (IndexNode_serialize node))"

text \<open>The loop that picks the child of an internal node; the last entry ends it.\<close>

fun child_for :: "bytes \<Rightarrow> IndexEntry list \<Rightarrow> u64 option" where
  "child_for key [] = None"
| "child_for key (entry # es) =
     (if is_last entry then ie_sub_node_vcn entry
      else if key \<le> ie_key entry then
        (case ie_sub_node_vcn entry of Some vcn \<Rightarrow> Some vcn | None \<Rightarrow> child_for key es)
      else child_for key es)"

text \<open>
  Nodes name their children by numbers read from the disk, so a walk down need not end: the walks take
  the number of nodes they may visit on one path. A walk through a cycle of nodes exhausts every
  number; it runs forever in \<^verbatim>\<open>search\<close> and overflows the stack in the recursive operations, which the
  model ends with \<open>Panic\<close>.
\<close>

primrec search_from :: "nat \<Rightarrow> 'v bdev \<Rightarrow> BTreeManager \<Rightarrow> bytes \<Rightarrow> u64 \<Rightarrow> ('v, FileRecordNumber option) fs" where
  "search_from 0 B self key current_vcn = lift_res Panic"
| "search_from (Suc n) B self key current_vcn =
     bnd (read_node B self current_vcn) (\<lambda>node.
     if is_leaf (nd_header node) then
       (case find_entry key node of
          Some entry \<Rightarrow> ret (Some (ie_file_record_number entry))
        | None \<Rightarrow> ret None)
     else
       (case child_for key (nd_entries node) of
          Some vcn \<Rightarrow> search_from n B self key vcn
        | None \<Rightarrow> ret None))"

definition BTreeManager_search :: "nat \<Rightarrow> 'v bdev \<Rightarrow> BTreeManager \<Rightarrow> bytes \<Rightarrow> ('v, FileRecordNumber option) fs" where
  "BTreeManager_search n B self key = search_from n B self key (root_vcn self)"

primrec insert_recursive :: "nat \<Rightarrow> 'v bdev \<Rightarrow> BTreeManager \<Rightarrow> u64 \<Rightarrow> bytes \<Rightarrow> FileRecordNumber \<Rightarrow> FileName \<Rightarrow> ('v, unit) fs" where
  "insert_recursive 0 B self vcn key file_record_number file_name = lift_res Panic"
| "insert_recursive (Suc n) B self vcn key file_record_number file_name =
     bnd (read_node B self vcn) (\<lambda>node.
     if is_leaf (nd_header node) then
       bnd (lift_res (IndexEntry_new_leaf file_record_number file_name)) (\<lambda>entry.
         write_node B self (insert_entry entry node))
     else
       (case child_for key (nd_entries node) of
          Some child_vcn \<Rightarrow>
            bnd (insert_recursive n B self child_vcn key file_record_number file_name) (\<lambda>_.
            bnd (read_node B self child_vcn) (\<lambda>child. ret ()))
        | None \<Rightarrow> ret ()))"

definition allocate_vcn :: "('v, u64) fs" where
  "allocate_vcn = (\<lambda>w.
     case add_ck (NEXT_VCN w) 1 of
       Ok n \<Rightarrow> (Ok (NEXT_VCN w), w\<lparr>NEXT_VCN := n\<rparr>)
     | Err e \<Rightarrow> (Err e, w)
     | Panic \<Rightarrow> (Panic, w))"

definition first_key :: "IndexNode \<Rightarrow> (fs_error, bytes) res" where
  "first_key node = (case nd_entries node of [] \<Rightarrow> Panic | e # es \<Rightarrow> Ok (ie_key e))"

definition split_root :: "'v bdev \<Rightarrow> (BTreeManager, 'v, unit) meth" where
  "split_root B =
     bnd (gets id) (\<lambda>self.
     bnd (io (read_node B self (root_vcn self))) (\<lambda>old_root.
     bnd (io allocate_vcn) (\<lambda>new_root_vcn.
     bnd (lift_res (IndexNode_split old_root)) (\<lambda>(old_root_copy, new_node).
     bnd (io allocate_vcn) (\<lambda>new_node_vcn.
     bnd (lift_res (first_key old_root_copy)) (\<lambda>left_key.
     bnd (lift_res (IndexEntry_new_internal left_key (nd_vcn old_root_copy))) (\<lambda>left_entry.
     bnd (lift_res (first_key new_node)) (\<lambda>right_key.
     bnd (lift_res (IndexEntry_new_internal right_key new_node_vcn)) (\<lambda>right_entry.
     let new_root = insert_entry right_entry (insert_entry left_entry (IndexNode_new_internal new_root_vcn)) in
     bnd (io (write_node B self old_root_copy)) (\<lambda>_.
     bnd (io (write_node B self new_node)) (\<lambda>_.
     bnd (io (write_node B self new_root)) (\<lambda>_.
       modify (\<lambda>self. self\<lparr>root_vcn := new_root_vcn\<rparr>)))))))))))))"

definition BTreeManager_insert :: "nat \<Rightarrow> 'v bdev \<Rightarrow> bytes \<Rightarrow> FileRecordNumber \<Rightarrow> FileName \<Rightarrow> (BTreeManager, 'v, unit) meth" where
  "BTreeManager_insert n B key file_record_number file_name =
     bnd (gets id) (\<lambda>self.
     bnd (io (read_node B self (root_vcn self))) (\<lambda>root.
     bnd (if is_full root then split_root B else ret ()) (\<lambda>_.
     bnd (gets id) (\<lambda>self.
       io (insert_recursive n B self (root_vcn self) key file_record_number file_name)))))"

fun fold_prog :: "('a \<Rightarrow> 's \<Rightarrow> ('w, 'e, 's) prog) \<Rightarrow> 'a list \<Rightarrow> 's \<Rightarrow> ('w, 'e, 's) prog" where
  "fold_prog f [] s = ret s"
| "fold_prog f (x # xs) s = bnd (f x s) (fold_prog f xs)"

primrec list_recursive :: "nat \<Rightarrow> 'v bdev \<Rightarrow> BTreeManager \<Rightarrow> u64 \<Rightarrow> (bytes \<times> FileRecordNumber) list
    \<Rightarrow> ('v, (bytes \<times> FileRecordNumber) list) fs" where
  "list_recursive 0 B self vcn results = lift_res Panic"
| "list_recursive (Suc n) B self vcn results =
     bnd (read_node B self vcn) (\<lambda>node.
     if is_leaf (nd_header node) then
       ret (results @ map (\<lambda>e. (ie_key e, ie_file_record_number e)) (filter (\<lambda>e. \<not> is_last e) (nd_entries node)))
     else
       fold_prog (\<lambda>e results. case ie_sub_node_vcn e of
           Some child_vcn \<Rightarrow> list_recursive n B self child_vcn results
         | None \<Rightarrow> ret results) (nd_entries node) results)"

definition BTreeManager_list_directory :: "nat \<Rightarrow> 'v bdev \<Rightarrow> BTreeManager \<Rightarrow> ('v, (bytes \<times> FileRecordNumber) list) fs" where
  "BTreeManager_list_directory n B self = list_recursive n B self (root_vcn self) []"

text \<open>In \<^verbatim>\<open>delete_recursive\<close> a last entry without a child does not end the loop.\<close>

definition delete_child :: "bytes \<Rightarrow> IndexEntry list \<Rightarrow> u64 option" where
  "delete_child key es =
     (case find (\<lambda>e. (is_last e \<or> key \<le> ie_key e) \<and> ie_sub_node_vcn e \<noteq> None) es of
        Some e \<Rightarrow> ie_sub_node_vcn e
      | None \<Rightarrow> None)"

primrec delete_recursive :: "nat \<Rightarrow> 'v bdev \<Rightarrow> BTreeManager \<Rightarrow> u64 \<Rightarrow> bytes \<Rightarrow> ('v, bool) fs" where
  "delete_recursive 0 B self vcn key = lift_res Panic"
| "delete_recursive (Suc n) B self vcn key =
     bnd (read_node B self vcn) (\<lambda>node.
     if is_leaf (nd_header node) then
       (case remove_entry key node of
          (Some removed, node) \<Rightarrow> bnd (write_node B self node) (\<lambda>_. ret True)
        | (None, node) \<Rightarrow> ret False)
     else
       (case delete_child key (nd_entries node) of
          Some child_vcn \<Rightarrow> delete_recursive n B self child_vcn key
        | None \<Rightarrow> ret False))"

definition BTreeManager_delete :: "nat \<Rightarrow> 'v bdev \<Rightarrow> BTreeManager \<Rightarrow> bytes \<Rightarrow> ('v, bool) fs" where
  "BTreeManager_delete n B self key = delete_recursive n B self (root_vcn self) key"

section \<open>One node as a map from names to records\<close>

text \<open>
  The entries of a node before its end marker, and the invariant of a node: the end marker is there and
  is the only one, the names before it are in strict order, and the header has the node's length.
\<close>

definition body :: "IndexNode \<Rightarrow> IndexEntry list" where
  "body n = butlast (nd_entries n)"

definition marked :: "IndexNode \<Rightarrow> bool" where
  "marked n \<longleftrightarrow> nd_entries n \<noteq> [] \<and> is_last (last (nd_entries n)) \<and> ie_key (last (nd_entries n)) = []
     \<and> (\<forall>e \<in> set (body n). \<not> is_last e)"

definition node_ok :: "IndexNode \<Rightarrow> bool" where
  "node_ok n \<longleftrightarrow> marked n \<and> sorted_wrt (<) (map ie_key (body n)) \<and> (\<forall>e \<in> set (body n). ie_key e \<noteq> [])
     \<and> index_length (nd_header n) = of_nat (calculate_size n)"

definition node_map :: "IndexNode \<Rightarrow> bytes \<Rightarrow> FileRecordNumber option" where
  "node_map n k = map_option ie_file_record_number (find_entry k n)"

lemma marked_entries: "marked n \<Longrightarrow> nd_entries n = body n @ [last (nd_entries n)]"
  by (simp add: marked_def body_def)

lemma body_append [simp]: "nd_entries n = xs @ [m] \<Longrightarrow> body n = xs"
  by (simp add: body_def)

lemma update_header_simps [simp]:
  "nd_entries (update_header n) = nd_entries n" "nd_vcn (update_header n) = nd_vcn n"
  "calculate_size (update_header n) = calculate_size n"
  "index_length (nd_header (update_header n)) = of_nat (calculate_size n)"
  "entries_offset (nd_header (update_header n)) = entries_offset (nd_header n)"
  "ih_flags (nd_header (update_header n)) = ih_flags (nd_header n)"
  by (simp_all add: update_header_def calculate_size_def)

lemma node_okI:
  assumes "nd_entries n = xs @ [m]" "is_last m" "ie_key m = []" "\<And>e. e \<in> set xs \<Longrightarrow> \<not> is_last e \<and> ie_key e \<noteq> []"
    "sorted_wrt (<) (map ie_key xs)" "index_length (nd_header n) = of_nat (calculate_size n)"
  shows "node_ok n"
  using assms by (simp add: node_ok_def marked_def)

lemma node_okE:
  assumes "node_ok n"
  obtains xs m where "nd_entries n = xs @ [m]" "is_last m" "ie_key m = []" "body n = xs"
    "\<And>e. e \<in> set xs \<Longrightarrow> \<not> is_last e \<and> ie_key e \<noteq> []" "sorted_wrt (<) (map ie_key xs)"
proof (rule that)
  show "nd_entries n = body n @ [last (nd_entries n)]"
    using assms by (intro marked_entries) (simp add: node_ok_def)
qed (use assms in \<open>auto simp: node_ok_def marked_def\<close>)

lemma find_entry_body:
  assumes "nd_entries n = xs @ [m]" "is_last m" "\<And>e. e \<in> set xs \<Longrightarrow> \<not> is_last e"
  shows "find_entry k n = find (\<lambda>e. ie_key e = k) xs"
proof -
  have "find (\<lambda>e. ie_key e = k \<and> \<not> is_last e) (ys @ [m]) = find (\<lambda>e. ie_key e = k) ys"
    if "\<And>e. e \<in> set ys \<Longrightarrow> \<not> is_last e" for ys
    using that assms(2) by (induction ys) auto
  with assms show ?thesis by (simp add: find_entry_def)
qed

lemma insert_entries:
  assumes "nd_entries n = xs @ [m]" "is_last m" "\<And>e. e \<in> set xs \<Longrightarrow> \<not> is_last e"
  shows "nd_entries (insert_entry e n)
    = takeWhile (\<lambda>x. ie_key x \<le> ie_key e) xs @ e # dropWhile (\<lambda>x. ie_key x \<le> ie_key e) xs @ [m]"
proof -
  let ?P = "\<lambda>x. \<not> (is_last x \<or> ie_key e < ie_key x)"
  have "takeWhile ?P (ys @ [m]) = takeWhile (\<lambda>x. ie_key x \<le> ie_key e) ys"
       "dropWhile ?P (ys @ [m]) = dropWhile (\<lambda>x. ie_key x \<le> ie_key e) ys @ [m]"
    if "\<And>x. x \<in> set ys \<Longrightarrow> \<not> is_last x" for ys
    using that assms(2) by (induction ys) (auto simp: not_less not_le)
  note * = this [OF assms(3)]
  have "take (length (takeWhile ?P (xs @ [m]))) (xs @ [m]) = takeWhile ?P (xs @ [m])"
       "drop (length (takeWhile ?P (xs @ [m]))) (xs @ [m]) = dropWhile ?P (xs @ [m])"
    by (rule takeWhile_eq_take [symmetric], rule dropWhile_eq_drop [symmetric])
  with * show ?thesis
    by (simp add: insert_entry_def position_def Let_def assms(1))
qed

lemma sorted_insert:
  fixes f :: "'a \<Rightarrow> 'k::linorder"
  assumes "sorted_wrt (<) (map f xs)" "y \<notin> f ` set xs" "f e = y"
  shows "sorted_wrt (<) (map f (takeWhile (\<lambda>x. f x \<le> y) xs @ e # dropWhile (\<lambda>x. f x \<le> y) xs))"
  using assms(1,2)
proof (induction xs)
  case Nil
  then show ?case by simp
next
  case (Cons x xs)
  show ?case
  proof (cases "f x \<le> y")
    case True
    have "f x < f z" if "z \<in> set (takeWhile (\<lambda>x. f x \<le> y) xs) \<union> set (dropWhile (\<lambda>x. f x \<le> y) xs)" for z
      using that Cons.prems by (auto dest: set_takeWhileD set_dropWhileD)
    moreover have "f x < y" using True Cons.prems by auto
    ultimately show ?thesis using True Cons assms(3) by auto
  next
    case False
    then show ?thesis using Cons.prems assms(3) by (auto simp: not_le)
  qed
qed

lemma find_insert:
  fixes f :: "'a \<Rightarrow> 'k::linorder"
  assumes "y \<notin> f ` set xs" "f e = y"
  shows "find (\<lambda>x. f x = k) (takeWhile (\<lambda>x. f x \<le> y) xs @ e # dropWhile (\<lambda>x. f x \<le> y) xs)
       = (if k = y then Some e else find (\<lambda>x. f x = k) xs)"
  using assms by (induction xs) auto

lemma find_None_key: "(find (\<lambda>x. f x = k) xs = None) = (k \<notin> f ` set xs)"
  by (induction xs) auto

lemma insert_entry_refines:
  assumes "node_ok n" "ie_key e \<notin> dom (node_map n)" "\<not> is_last e" "ie_key e \<noteq> []"
  shows "node_ok (insert_entry e n)" "node_map (insert_entry e n) = (node_map n)(ie_key e \<mapsto> ie_file_record_number e)"
proof -
  from assms(1) obtain xs m where n: "nd_entries n = xs @ [m]" "is_last m" "ie_key m = []"
    and xs: "\<And>e. e \<in> set xs \<Longrightarrow> \<not> is_last e \<and> ie_key e \<noteq> []" "sorted_wrt (<) (map ie_key xs)"
    by (rule node_okE) blast
  from n(1,2) xs(1) have ents: "nd_entries (insert_entry e n)
      = (takeWhile (\<lambda>x. ie_key x \<le> ie_key e) xs @ e # dropWhile (\<lambda>x. ie_key x \<le> ie_key e) xs) @ [m]"
    using insert_entries [of n xs m e] by simp
  have old: "find_entry k n = find (\<lambda>e. ie_key e = k) xs" for k
    by (rule find_entry_body [OF n(1,2)]) (simp add: xs(1))
  from assms(2) have fresh: "ie_key e \<notin> ie_key ` set xs"
    by (auto simp: node_map_def old dom_def find_None_key)
  have inner: "\<not> is_last z \<and> ie_key z \<noteq> []"
    if "z \<in> set (takeWhile (\<lambda>x. ie_key x \<le> ie_key e) xs @ e # dropWhile (\<lambda>x. ie_key x \<le> ie_key e) xs)" for z
    using that xs(1) assms(3,4) by (auto dest: set_takeWhileD set_dropWhileD)
  show "node_ok (insert_entry e n)"
    by (rule node_okI [OF ents n(2,3) inner sorted_insert [OF xs(2) fresh refl]])
      (simp_all add: insert_entry_def Let_def)
  have new: "find_entry k (insert_entry e n) = (if k = ie_key e then Some e else find (\<lambda>e. ie_key e = k) xs)" for k
    by (subst find_entry_body [OF ents n(2)], simp add: inner) (rule find_insert [OF fresh refl])
  show "node_map (insert_entry e n) = (node_map n)(ie_key e \<mapsto> ie_file_record_number e)"
    by (simp add: fun_eq_iff node_map_def new old)
qed

lemma position_split:
  assumes "xs = ys @ x # zs" "p x" "\<And>y. y \<in> set ys \<Longrightarrow> \<not> p y"
  shows "position p xs = length ys"
  unfolding position_def assms(1) using assms(2,3) by (simp add: takeWhile_append2)

lemma position_none: "(\<And>x. x \<in> set xs \<Longrightarrow> \<not> p x) \<Longrightarrow> position p xs = length xs"
  by (simp add: position_def takeWhile_eq_all_conv [THEN iffD2])

lemma remove_entry_refines:
  assumes "node_ok n" "k \<noteq> []"
  shows "fst (remove_entry k n) = find_entry k n" "node_ok (snd (remove_entry k n))"
    "node_map (snd (remove_entry k n)) = (node_map n)(k := None)"
proof -
  from assms(1) obtain xs m where n: "nd_entries n = xs @ [m]" "is_last m" "ie_key m = []"
    and xs: "\<And>e. e \<in> set xs \<Longrightarrow> \<not> is_last e \<and> ie_key e \<noteq> []" "sorted_wrt (<) (map ie_key xs)"
    by (rule node_okE) blast
  have old: "find_entry j n = find (\<lambda>e. ie_key e = j) xs" for j
    by (rule find_entry_body [OF n(1,2)]) (simp add: xs(1))
  have "fst (remove_entry k n) = find_entry k n \<and> node_ok (snd (remove_entry k n))
      \<and> node_map (snd (remove_entry k n)) = (node_map n)(k := None)"
  proof (cases "\<exists>e \<in> set xs. ie_key e = k")
    case False
    with n assms(2) have "position (\<lambda>e. ie_key e = k) (nd_entries n) = length (nd_entries n)"
      by (intro position_none) auto
    moreover from False have none: "find_entry k n = None" by (auto simp: old find_None_key)
    ultimately show ?thesis using assms(1)
      by (auto simp: remove_entry_def Let_def fun_eq_iff node_map_def)
  next
    case True
    obtain ys e zs where s: "xs = ys @ e # zs" "ie_key e = k" "\<And>y. y \<in> set ys \<Longrightarrow> ie_key y \<noteq> k"
      using split_list_first_prop [OF True] by metis
    have p: "position (\<lambda>e. ie_key e = k) (nd_entries n) = length ys"
      by (rule position_split [where zs = "zs @ [m]" and x = e]) (use s n in auto)
    have rm: "remove_entry k n = (Some e, update_header (n\<lparr>nd_entries := (ys @ zs) @ [m]\<rparr>))"
      by (simp add: remove_entry_def Let_def p) (simp add: n(1) s(1))
    have ents: "nd_entries (snd (remove_entry k n)) = (ys @ zs) @ [m]" by (simp add: rm)
    have inner: "\<not> is_last z \<and> ie_key z \<noteq> []" if "z \<in> set (ys @ zs)" for z
      using that xs(1) by (auto simp: s(1))
    have found: "find_entry k n = Some e"
      using s(2,3) by (simp add: old s(1)) (induction ys, auto)
    have gone: "k \<notin> ie_key ` set (ys @ zs)" using s(2,3) xs(2) by (auto simp: s(1) sorted_wrt_append)
    have ok: "node_ok (snd (remove_entry k n))"
      using xs(2) by (intro node_okI [OF ents n(2,3) inner]) (auto simp: rm s(1) sorted_wrt_append)
    have "find (\<lambda>e. ie_key e = j) (ys @ zs) = find (\<lambda>e. ie_key e = j) xs" if "j \<noteq> k" for j
      unfolding s(1) using that s(2) by (induction ys) auto
    moreover have "find_entry j (snd (remove_entry k n)) = find (\<lambda>e. ie_key e = j) (ys @ zs)" for j
      by (rule find_entry_body [OF ents n(2)]) (use inner in blast)
    moreover have "find (\<lambda>e. ie_key e = k) (ys @ zs) = None" using gone by (simp only: find_None_key) simp
    ultimately have "node_map (snd (remove_entry k n)) = (node_map n)(k := None)"
      by (simp add: fun_eq_iff node_map_def old)
    with ok found show ?thesis by (simp add: rm)
  qed
  then show "fst (remove_entry k n) = find_entry k n" "node_ok (snd (remove_entry k n))"
    "node_map (snd (remove_entry k n)) = (node_map n)(k := None)" by simp_all
qed

text \<open>
  What a directory promises: entries are kept under their names. The locale states the laws of an index
  with insertion of fresh names and deletion; its lemma runs any sequence of these operations against
  the map it stands for.
\<close>

datatype ('e, 'k) index_op = Insert 'e | Delete 'k

primrec apply_op :: "('e \<Rightarrow> 's \<Rightarrow> 's) \<Rightarrow> ('k \<Rightarrow> 's \<Rightarrow> 's) \<Rightarrow> ('e, 'k) index_op \<Rightarrow> 's \<Rightarrow> 's" where
  "apply_op ins del (Insert e) s = ins e s"
| "apply_op ins del (Delete k) s = del k s"

primrec map_op :: "('e \<Rightarrow> 'k) \<Rightarrow> ('e \<Rightarrow> 'r) \<Rightarrow> ('e, 'k) index_op \<Rightarrow> ('k \<Rightarrow> 'r option) \<Rightarrow> 'k \<Rightarrow> 'r option" where
  "map_op name val (Insert e) m = m(name e \<mapsto> val e)"
| "map_op name val (Delete k) m = m(k := None)"

fun allowed :: "('e \<Rightarrow> 'k) \<Rightarrow> ('e \<Rightarrow> 'r) \<Rightarrow> ('e \<Rightarrow> bool) \<Rightarrow> ('k \<Rightarrow> bool) \<Rightarrow> ('e, 'k) index_op list \<Rightarrow> ('k \<Rightarrow> 'r option) \<Rightarrow> bool" where
  "allowed name val entry_ok name_ok [] m = True"
| "allowed name val entry_ok name_ok (op # ops) m =
     ((case op of Insert e \<Rightarrow> entry_ok e \<and> m (name e) = None | Delete k \<Rightarrow> name_ok k)
      \<and> allowed name val entry_ok name_ok ops (map_op name val op m))"

locale name_index =
  fixes inv :: "'s \<Rightarrow> bool"
    and look :: "'s \<Rightarrow> 'k \<Rightarrow> 'r option"
    and ins :: "'e \<Rightarrow> 's \<Rightarrow> 's"
    and del :: "'k \<Rightarrow> 's \<Rightarrow> 's"
    and name :: "'e \<Rightarrow> 'k"
    and val :: "'e \<Rightarrow> 'r"
    and entry_ok :: "'e \<Rightarrow> bool"
    and name_ok :: "'k \<Rightarrow> bool"
  assumes ins_inv: "inv s \<Longrightarrow> entry_ok e \<Longrightarrow> name e \<notin> dom (look s) \<Longrightarrow> inv (ins e s)"
    and ins_look: "inv s \<Longrightarrow> entry_ok e \<Longrightarrow> name e \<notin> dom (look s) \<Longrightarrow> look (ins e s) = (look s)(name e \<mapsto> val e)"
    and del_inv: "inv s \<Longrightarrow> name_ok k \<Longrightarrow> inv (del k s)"
    and del_look: "inv s \<Longrightarrow> name_ok k \<Longrightarrow> look (del k s) = (look s)(k := None)"
begin

lemma history_refines:
  "inv s \<Longrightarrow> allowed name val entry_ok name_ok ops (look s) \<Longrightarrow>
     inv (fold (apply_op ins del) ops s) \<and> look (fold (apply_op ins del) ops s) = fold (map_op name val) ops (look s)"
proof (induction ops arbitrary: s)
  case Nil
  then show ?case by simp
next
  case (Cons op ops)
  then have "inv (apply_op ins del op s)" "look (apply_op ins del op s) = map_op name val op (look s)"
    by (cases op; simp add: ins_inv ins_look del_inv del_look domIff)+
  with Cons show ?case by simp
qed

end

definition node_delete :: "bytes \<Rightarrow> IndexNode \<Rightarrow> IndexNode" where
  "node_delete k n = snd (remove_entry k n)"

interpretation node: name_index node_ok node_map insert_entry node_delete ie_key ie_file_record_number
    "\<lambda>e. \<not> is_last e \<and> ie_key e \<noteq> []" "\<lambda>k. k \<noteq> []"
  by unfold_locales (simp_all add: insert_entry_refines remove_entry_refines node_delete_def)

lemma new_leaf_ok: "node_ok (update_header (IndexNode_new_leaf v))" "node_map (update_header (IndexNode_new_leaf v)) = Map.empty"
  by (auto intro!: node_okI simp: IndexNode_new_leaf_def new_end_marker_def IndexEntryFlags_new_def
      node_map_def find_entry_def fun_eq_iff)


section \<open>Splitting a node\<close>

lemma insert_before_last:
  "foldl (\<lambda>es e. take (length es - 1) es @ e # drop (length es - 1) es) (ys @ [m]) zs = ys @ zs @ [m]"
proof (induction zs arbitrary: ys)
  case Nil
  then show ?case by simp
next
  case (Cons z zs)
  from Cons.IH [of "ys @ [z]"] show ?case by simp
qed

lemma split_entries:
  assumes "nd_entries n = xs @ [m]" "unat (nd_vcn n) + 1 < 2 ^ 64"
  shows "IndexNode_split n = Ok
    (update_header (n\<lparr>nd_entries := take (Suc (length xs) div 2) xs @ [m]\<rparr>),
     update_header ((if is_leaf (nd_header n) then IndexNode_new_leaf (nd_vcn n + 1) else IndexNode_new_internal (nd_vcn n + 1))
       \<lparr>nd_entries := drop (Suc (length xs) div 2) xs @ [new_end_marker]\<rparr>))"
proof -
  have v: "add_ck (nd_vcn n) 1 = Ok (nd_vcn n + 1)" using assms(2) by (simp add: add_ck_def)
  define new where "new = (if is_leaf (nd_header n) then IndexNode_new_leaf (nd_vcn n + 1) else IndexNode_new_internal (nd_vcn n + 1))"
  have new: "nd_entries new = [new_end_marker]"
    by (simp add: new_def IndexNode_new_leaf_def IndexNode_new_internal_def)
  show ?thesis
  proof (cases "Suc (length xs) div 2 < length xs")
    case True
    with assms(1) new show ?thesis
      using insert_before_last [of "[]" new_end_marker]
      by (simp add: IndexNode_split_def v Let_def flip: new_def)
  next
    case False
    then have "length xs \<le> Suc (length xs) div 2" by simp
    then have "take (Suc (length xs) div 2) xs = xs" "drop (Suc (length xs) div 2) xs = []" by simp_all
    with False assms(1) new show ?thesis
      by (simp add: IndexNode_split_def v Let_def flip: new_def)
  qed
qed

lemma calculate_size_eq:
  "calculate_size n = unat (entries_offset (nd_header n)) + sum_list (map (\<lambda>e. unat (ie_entry_length e)) (nd_entries n))"
proof -
  have "foldl (\<lambda>sz e. sz + unat (ie_entry_length e)) a es = a + sum_list (map (\<lambda>e. unat (ie_entry_length e)) es)" for a es
    by (induction es arbitrary: a) simp_all
  then show ?thesis by (simp add: calculate_size_def)
qed

lemma find_split:
  assumes "\<And>x y. x \<in> set xs \<Longrightarrow> y \<in> set ys \<Longrightarrow> f x \<noteq> f y"
  shows "find (\<lambda>e. f e = k) (xs @ ys) = (case find (\<lambda>e. f e = k) ys of None \<Rightarrow> find (\<lambda>e. f e = k) xs | Some y \<Rightarrow> Some y)"
proof (cases "find (\<lambda>e. f e = k) ys")
  case None
  then show ?thesis by (induction xs) auto
next
  case (Some y)
  then have "y \<in> set ys" "f y = k" by (auto simp: find_Some_iff)
  with assms have "k \<notin> f ` set xs" by fastforce
  then have "find (\<lambda>e. f e = k) (xs @ ys) = find (\<lambda>e. f e = k) ys" by (induction xs) auto
  with Some show ?thesis by simp
qed

lemma split_ok:
  assumes "node_ok n" "unat (nd_vcn n) + 1 < 2 ^ 64"
  obtains l r where "IndexNode_split n = Ok (l, r)" "node_ok l" "node_ok r" "body l @ body r = body n"
    "\<And>x y. x \<in> set (body l) \<Longrightarrow> y \<in> set (body r) \<Longrightarrow> ie_key x < ie_key y"
    "node_map l ++ node_map r = node_map n" "nd_vcn l = nd_vcn n" "nd_vcn r = nd_vcn n + 1"
    "is_leaf (nd_header l) = is_leaf (nd_header n)" "is_leaf (nd_header r) = is_leaf (nd_header n)"
    "length (body l) = Suc (length (body n)) div 2" "calculate_size l + calculate_size r = calculate_size n + 48"
proof -
  from assms(1) obtain xs m where n: "nd_entries n = xs @ [m]" "is_last m" "ie_key m = []" "body n = xs"
    and xs: "\<And>e. e \<in> set xs \<Longrightarrow> \<not> is_last e \<and> ie_key e \<noteq> []" "sorted_wrt (<) (map ie_key xs)"
    by (rule node_okE) blast
  define as bs where "as = take (Suc (length xs) div 2) xs" and "bs = drop (Suc (length xs) div 2) xs"
  have ab: "xs = as @ bs" by (simp add: as_def bs_def)
  define new where "new = (if is_leaf (nd_header n) then IndexNode_new_leaf (nd_vcn n + 1) else IndexNode_new_internal (nd_vcn n + 1))"
  define l r where "l = update_header (n\<lparr>nd_entries := as @ [m]\<rparr>)" and "r = update_header (new\<lparr>nd_entries := bs @ [new_end_marker]\<rparr>)"
  have le: "nd_entries l = as @ [m]" and re: "nd_entries r = bs @ [new_end_marker]" by (simp_all add: l_def r_def)
  have marker: "is_last new_end_marker" "ie_key new_end_marker = []" by (simp_all add: new_end_marker_def)
  have less: "ie_key x < ie_key y" if "x \<in> set as" "y \<in> set bs" for x y
    using xs(2) that by (simp add: ab sorted_wrt_append)
  have lb: "find_entry k l = find (\<lambda>e. ie_key e = k) as" and rb: "find_entry k r = find (\<lambda>e. ie_key e = k) bs"
    for k
    using xs(1) by (simp_all add: find_entry_body [OF le n(2)] find_entry_body [OF re marker(1)] ab)
  have nb: "find_entry k n = find (\<lambda>e. ie_key e = k) xs" for k
    by (rule find_entry_body [OF n(1,2)]) (simp add: xs(1))
  have new: "nd_vcn new = nd_vcn n + 1" "is_leaf (nd_header new) = is_leaf (nd_header n)" "entries_offset (nd_header new) = 32"
    by (simp_all add: new_def IndexNode_new_leaf_def IndexNode_new_internal_def IndexHeader_new_leaf_def IndexHeader_new_internal_def is_leaf_def)
  show ?thesis
  proof (rule that [of l r])
    show "IndexNode_split n = Ok (l, r)"
      by (simp add: split_entries [OF n(1) assms(2)] l_def r_def as_def bs_def new_def)
    show "node_ok l" using n xs by (intro node_okI [OF le]) (auto simp: l_def ab sorted_wrt_append)
    show "node_ok r" using marker xs by (intro node_okI [OF re]) (auto simp: r_def ab sorted_wrt_append)
    show "node_map l ++ node_map r = node_map n"
    proof
      fix k
      show "(node_map l ++ node_map r) k = node_map n k"
        using find_split [of as bs ie_key k] less
        by (fastforce simp: map_add_def node_map_def lb rb nb ab split: option.splits)
    qed
    show "is_leaf (nd_header l) = is_leaf (nd_header n)" "is_leaf (nd_header r) = is_leaf (nd_header n)"
      using new by (simp_all add: l_def r_def is_leaf_def)
    show "calculate_size l + calculate_size r = calculate_size n + 48"
      by (simp add: calculate_size_eq le re n(1) ab) (simp add: l_def r_def new new_end_marker_def INDEX_ENTRY_HEADER_SIZE_def)
    show "length (body l) = Suc (length (body n)) div 2" using le n(4) by (simp add: as_def)
  qed (use le re less new n(4) in \<open>simp_all add: ab l_def r_def\<close>)
qed

section \<open>Nodes as bytes\<close>

definition header_bytes :: "IndexHeader \<Rightarrow> bytes" where
  "header_bytes h = INDX @ to_le_bytes (entries_offset h) @ to_le_bytes (index_length h) @ to_le_bytes (ih_allocated_size h)
     @ [ih_flags h] @ to_le_bytes (ih_sequence_number h) @ replicate 13 0"

lemma length_header_bytes [simp]: "length (header_bytes h) = 32"
  by (simp add: header_bytes_def INDX_def)

lemma length_INDX [simp]: "length INDX = 4"
  by (simp add: INDX_def)

lemma IndexHeader_serialize_eq:
  assumes "ih_signature h = INDX"
  shows "IndexHeader_serialize h = header_bytes h"
proof -
  have "replicate 16 (0 :: u8) = 0 # replicate 15 0" using replicate_Suc [of 15 "0 :: u8"] by simp
  moreover have "splice (replicate 32 0) 0 INDX = INDX @ replicate 28 0"
    using splice_zeros [of "[]" 0 INDX 32] by simp
  moreover have "splice (A @ x # replicate 15 0) 17 z = A @ x # z @ replicate 13 0" if "length A = 16" "length z = 2" for A x z
    using splice_zeros [of "A @ [x]" 17 z 15] that by simp
  ultimately show ?thesis
    unfolding IndexHeader_serialize_def header_bytes_def Let_def
    by (simp add: assms splice_zeros list_update_append flip: append_assoc)
qed

lemma IndexHeader_roundtrip:
  assumes "ih_signature h = INDX"
  shows "IndexHeader_deserialize (header_bytes h @ rest) = Ok h"
  using assms
  by (cases h) (simp add: IndexHeader_deserialize_def Let_def header_bytes_def INDX_def nth_append,
      simp add: window_def)

lemma length_IndexEntry_serialize_mod: "length (IndexEntry_serialize e) mod 8 = 0"
  by (simp add: IndexEntry_serialize_def length_pad8)

lemma serialize_entries_zeros:
  assumes "length A = offset" "offset + length (concat (map IndexEntry_serialize es)) \<le> INDEX_NODE_SIZE"
    "n = INDEX_NODE_SIZE - offset"
  shows "serialize_entries es offset (A @ replicate n 0)
       = A @ concat (map IndexEntry_serialize es) @ replicate (n - length (concat (map IndexEntry_serialize es))) 0"
  using assms
proof (induction es arbitrary: A offset n)
  case Nil
  then show ?case by simp
next
  case (Cons e es)
  from Cons.prems have "length (IndexEntry_serialize e) \<le> n" by simp
  with Cons.IH [of "A @ IndexEntry_serialize e" "offset + length (IndexEntry_serialize e)" "n - length (IndexEntry_serialize e)"]
  show ?case using Cons.prems by (simp add: Let_def splice_zeros)
qed

lemma length_serialize_entries:
  "length d = INDEX_NODE_SIZE \<Longrightarrow> length (serialize_entries es offset d) = INDEX_NODE_SIZE"
  by (induction es arbitrary: offset d) (simp_all add: Let_def)

lemma IndexNode_serialize_eq:
  assumes "ih_signature (nd_header n) = INDX" "entries_offset (nd_header n) = 32"
    "32 + length (concat (map IndexEntry_serialize (nd_entries n))) \<le> INDEX_NODE_SIZE"
  shows "IndexNode_serialize n = header_bytes (nd_header n) @ concat (map IndexEntry_serialize (nd_entries n))
     @ replicate (INDEX_NODE_SIZE - 32 - length (concat (map IndexEntry_serialize (nd_entries n)))) 0"
proof -
  have "splice (replicate INDEX_NODE_SIZE 0) 0 (header_bytes (nd_header n))
      = header_bytes (nd_header n) @ replicate (INDEX_NODE_SIZE - 32) 0"
    using assms(3) splice_zeros [of "[]" 0 "header_bytes (nd_header n)" INDEX_NODE_SIZE] by simp
  then show ?thesis
    using serialize_entries_zeros [of "header_bytes (nd_header n)" 32 "nd_entries n" "INDEX_NODE_SIZE - 32"] assms
    by (simp add: IndexNode_serialize_def IndexHeader_serialize_eq)
qed

lemma length_IndexNode_serialize:
  assumes "ih_signature (nd_header n) = INDX"
  shows "length (IndexNode_serialize n) = INDEX_NODE_SIZE"
  unfolding IndexNode_serialize_def
  by (rule length_serialize_entries) (simp add: IndexHeader_serialize_eq [OF assms] INDEX_NODE_SIZE_def)

text \<open>The end marker, the only entry whose 14 header bytes are padded to the 16 the reader expects.\<close>

definition marker_bytes :: bytes where
  "marker_bytes = [0, 0, 0, 0, 0, 0, 0, 0, 16, 0, 0, 0, 2, 0, 0, 0]"

lemma le_encode_8_0: "le_encode 8 0 = [0, 0, 0, 0, 0, 0, 0, 0]"
proof -
  have n: "(8 :: nat) = Suc (Suc (Suc (Suc (Suc (Suc (Suc (Suc 0)))))))" by simp
  show ?thesis unfolding n by simp
qed

lemma replicate_2: "replicate 2 x = [x, x]"
  by (simp add: numeral_2_eq_2)

lemma is_last_marker [simp]: "is_last new_end_marker"
  by (simp add: new_end_marker_def)

lemma serialize_marker [simp]: "IndexEntry_serialize new_end_marker = marker_bytes"
  by (simp add: IndexEntry_serialize_def new_end_marker_def IndexEntryFlags_to_u8_def IndexEntryFlags_new_def
      INDEX_ENTRY_HEADER_SIZE_def to_le_bytes_def le_encode_8_0 le_encode_small pad8_eq marker_bytes_def replicate_2)

lemma deserialize_marker: "IndexEntry_deserialize (marker_bytes @ rest) = Ok (new_end_marker, 16)"
  by (simp add: IndexEntry_deserialize_def marker_bytes_def Let_def INDEX_ENTRY_HEADER_SIZE_def new_end_marker_def
      get_le_def from_le_bytes_def window_def IndexEntryFlags_from_u8_def IndexEntryFlags_new_def from_utf8_lossy.simps)

lemma parse_entries_done: "limit \<le> offset \<Longrightarrow> parse_entries data limit offset es = Ok es"
  by (subst parse_entries.simps) simp

lemma parse_entries_step:
  "offset < limit \<Longrightarrow> offset \<le> length data \<Longrightarrow> parse_entries data limit offset es =
     bind_res (IndexEntry_deserialize (drop offset data)) (\<lambda>(entry, entry_size).
       if is_last entry then Ok (es @ [entry])
       else if entry_size = 0 then Panic
       else parse_entries data limit (offset + entry_size) (es @ [entry]))"
  by (subst parse_entries.simps) simp

definition empty_root :: "u64 \<Rightarrow> IndexNode" where
  "empty_root v = update_header (IndexNode_new_leaf v)"

lemma empty_root_simps [simp]:
  "nd_entries (empty_root v) = [new_end_marker]" "nd_vcn (empty_root v) = v"
  "ih_signature (nd_header (empty_root v)) = INDX" "entries_offset (nd_header (empty_root v)) = 32"
  "index_length (nd_header (empty_root v)) = 48" "is_leaf (nd_header (empty_root v))"
  by (simp_all add: empty_root_def update_header_def IndexNode_new_leaf_def IndexHeader_new_leaf_def calculate_size_def
      new_end_marker_def INDEX_ENTRY_HEADER_SIZE_def is_leaf_def)

lemma empty_root_bytes:
  "IndexNode_serialize (empty_root v) = header_bytes (nd_header (empty_root v)) @ marker_bytes @ replicate 4048 0"
  by (subst IndexNode_serialize_eq) (simp_all add: INDEX_NODE_SIZE_def marker_bytes_def)

lemma unat_numeral_u32: "unat (48 :: u32) = 48" "unat (32 :: u32) = 32"
  by simp_all

lemma parse_marker: "parse_entries (header_bytes h @ marker_bytes @ z) 48 32 [] = Ok [new_end_marker]"
  by (subst parse_entries_step) (simp_all add: deserialize_marker)

lemma empty_root_reads: "IndexNode_deserialize (IndexNode_serialize (empty_root v)) u = Ok ((empty_root v)\<lparr>nd_vcn := u\<rparr>)"
proof -
  define z :: bytes where "z = replicate 4048 0"
  let ?d = "header_bytes (nd_header (empty_root v)) @ marker_bytes @ z"
  have "IndexHeader_deserialize ?d = Ok (nd_header (empty_root v))" by (rule IndexHeader_roundtrip) simp
  moreover have "length ?d = INDEX_NODE_SIZE" by (simp add: marker_bytes_def INDEX_NODE_SIZE_def z_def)
  moreover have "parse_entries ?d (unat (index_length (nd_header (empty_root v)))) (unat (entries_offset (nd_header (empty_root v)))) []
      = Ok [new_end_marker]" by (simp only: empty_root_simps unat_numeral_u32 parse_marker)
  ultimately have "IndexNode_deserialize ?d u = Ok \<lparr>nd_header = nd_header (empty_root v), nd_entries = [new_end_marker], nd_vcn = u\<rparr>"
    by (simp only: IndexNode_deserialize_def bind_res.simps less_irrefl if_False)
  moreover have "(empty_root v)\<lparr>nd_vcn := u\<rparr> = \<lparr>nd_header = nd_header (empty_root v), nd_entries = [new_end_marker], nd_vcn = u\<rparr>"
    by (rule IndexNode.equality) simp_all
  ultimately show ?thesis by (simp only: empty_root_bytes z_def)
qed

section \<open>What the reader makes of a directory with one name\<close>

text \<open>
  The reader takes the key from offset 16 although the writer puts it at offset 14, and advances by the
  entry length although the writer pads 14 bytes of header, key and file name to a multiple of 8. The
  bytes that follow the first entry, as the reader sees them, depend on the length of the name modulo 8.
\<close>

definition entry_size :: "FileName \<Rightarrow> nat" where
  "entry_size f = 16 + length (fn_name f) + length (FileName_serialize f)"

definition leaf_entry :: "FileRecordNumber \<Rightarrow> FileName \<Rightarrow> IndexEntry" where
  "leaf_entry rn f = \<lparr>ie_file_record_number = rn, ie_entry_length = of_nat (entry_size f),
     ie_key_length = of_nat (length (fn_name f)), ie_flags = IndexEntryFlags_new, ie_file_name = Some f,
     ie_sub_node_vcn = None, ie_key = fn_name f\<rparr>"

lemma unat_of_nat_small: "n < 2 ^ LENGTH('l) \<Longrightarrow> unat (of_nat n :: 'l::len word) = n"
  by (simp add: unat_of_nat)

lemma new_leaf_entry:
  assumes "entry_size f < 2 ^ 16"
  shows "IndexEntry_new_leaf rn f = Ok (leaf_entry rn f)"
proof -
  have "unat (16 + of_nat (length (fn_name f)) :: u16) = 16 + length (fn_name f)"
    using assms by (simp add: entry_size_def unat_word_ariths unat_of_nat)
  then show ?thesis
    using assms by (simp add: IndexEntry_new_leaf_def leaf_entry_def entry_size_def Let_def INDEX_ENTRY_HEADER_SIZE_def
        add_ck_def unat_of_nat)
qed

lemma FileName_deserialize_total: "FileName_deserialize d \<noteq> Panic"
  by (simp add: FileName_deserialize_def Let_def)

definition raw_entry :: "FileRecordNumber \<Rightarrow> FileName \<Rightarrow> bytes" where
  "raw_entry rn f = to_le_bytes rn @ to_le_bytes (of_nat (entry_size f) :: u16) @ to_le_bytes (of_nat (length (fn_name f)) :: u16)
     @ [0, 0] @ fn_name f @ FileName_serialize f"

lemma length_raw_entry: "length (raw_entry rn f) = 14 + length (fn_name f) + length (FileName_serialize f)"
  by (simp add: raw_entry_def)

lemma serialize_leaf_entry: "IndexEntry_serialize (leaf_entry rn f) = pad8 (raw_entry rn f)"
  by (simp add: IndexEntry_serialize_def leaf_entry_def raw_entry_def entry_size_def IndexEntryFlags_to_u8_def IndexEntryFlags_new_def)

lemma raw_entry_fields:
  "get_le 0 (raw_entry rn f @ z) = rn" "get_le 8 (raw_entry rn f @ z) = (of_nat (entry_size f) :: u16)"
    "get_le 10 (raw_entry rn f @ z) = (of_nat (length (fn_name f)) :: u16)" "(raw_entry rn f @ z) ! 12 = 0"
  by (simp_all add: raw_entry_def nth_append)

lemma raw_key:
  assumes "2 \<le> length (FileName_serialize f)"
  shows "window (length (fn_name f)) 16 (raw_entry rn f @ z) = window (length (fn_name f)) 2 (fn_name f @ FileName_serialize f)"
proof -
  let ?h = "to_le_bytes rn @ to_le_bytes (of_nat (entry_size f) :: u16) @ to_le_bytes (of_nat (length (fn_name f)) :: u16) @ [0, 0]"
  have "window (length (fn_name f)) 16 (?h @ (fn_name f @ FileName_serialize f) @ z)
      = window (length (fn_name f)) 2 ((fn_name f @ FileName_serialize f) @ z)"
    by (subst window_append2) simp_all
  also have "\<dots> = window (length (fn_name f)) 2 (fn_name f @ FileName_serialize f)"
    using assms by (intro window_append1) simp
  finally show ?thesis by (simp add: raw_entry_def)
qed

lemma deserialize_leaf_entry:
  assumes "entry_size f < 2 ^ 16" "2 \<le> length (FileName_serialize f)" "2 \<le> length z"
  obtains e where "IndexEntry_deserialize (raw_entry rn f @ z) = Ok (e, entry_size f)"
    "ie_key e = from_utf8_lossy (window (length (fn_name f)) 2 (fn_name f @ FileName_serialize f))"
    "ie_flags e = IndexEntryFlags_new" "ie_file_record_number e = rn" "ie_entry_length e = of_nat (entry_size f)"
proof -
  have k: "length (fn_name f) < 2 ^ 16" using assms(1) by (simp add: entry_size_def)
  note u = unat_of_nat_small [where 'l = 16, simplified, OF assms(1) [simplified]]
    unat_of_nat_small [where 'l = 16, simplified, OF k [simplified]]
  have lz: "entry_size f \<le> length (raw_entry rn f @ z)" "16 + length (fn_name f) \<le> length (raw_entry rn f @ z)"
    using assms(2,3) by (simp_all add: length_raw_entry entry_size_def)
  have flags: "IndexEntryFlags_from_u8 0 = IndexEntryFlags_new"
    by (simp add: IndexEntryFlags_from_u8_def IndexEntryFlags_new_def)
  obtain g where g: "(case FileName_deserialize (window (entry_size f - (16 + length (fn_name f))) (16 + length (fn_name f))
      (raw_entry rn f @ z)) of Ok fname \<Rightarrow> Ok (Some fname, None) | Err _ \<Rightarrow> Ok (None, None) | Panic \<Rightarrow> Panic)
      = (Ok (g, None) :: (fs_error, FileName option \<times> u64 option) res)"
    using FileName_deserialize_total
    by (cases "FileName_deserialize (window (entry_size f - (16 + length (fn_name f))) (16 + length (fn_name f)) (raw_entry rn f @ z))") auto
  have "IndexEntry_deserialize (raw_entry rn f @ z) = Ok (\<lparr>ie_file_record_number = rn, ie_entry_length = of_nat (entry_size f),
      ie_key_length = of_nat (length (fn_name f)), ie_flags = IndexEntryFlags_new, ie_file_name = g, ie_sub_node_vcn = None,
      ie_key = from_utf8_lossy (window (length (fn_name f)) 2 (fn_name f @ FileName_serialize f))\<rparr>, entry_size f)"
  proof -
    have "16 + length (fn_name f) < entry_size f" using assms(2) unfolding entry_size_def by linarith
    moreover have "slice (raw_entry rn f @ z) 16 (16 + length (fn_name f))
        = (Ok (window (length (fn_name f)) 2 (fn_name f @ FileName_serialize f)) :: (fs_error, bytes) res)"
      using lz(2) raw_key [OF assms(2), of rn z] by (simp only: slice_Ok le_add1 add_diff_cancel_left')
    moreover have "\<not> length (raw_entry rn f @ z) < 16" "\<not> length (raw_entry rn f @ z) < entry_size f" using lz by linarith+
    moreover have "\<not> has_sub_node IndexEntryFlags_new" "\<not> is_last_entry IndexEntryFlags_new" by (simp_all add: IndexEntryFlags_new_def)
    ultimately show ?thesis
      unfolding IndexEntry_deserialize_def INDEX_ENTRY_HEADER_SIZE_def Let_def raw_entry_fields u flags
      by (simp only: if_False if_True not_False_eq_True bind_res.simps g prod.case)
  qed
  then show ?thesis by (rule that) simp_all
qed

lemma length_marker_bytes [simp]: "length marker_bytes = 16"
  by (simp add: marker_bytes_def)

text \<open>Where the reader looks for the entry after the first one.\<close>

lemma after_leaf_entry:
  fixes f :: FileName
  defines "r \<equiv> length (fn_name f) mod 8"
  shows "drop (entry_size f) (pad8 (raw_entry rn f) @ marker_bytes @ z)
    = (if r \<le> 2 then drop r marker_bytes @ z else replicate (8 - r) 0 @ marker_bytes @ z)"
proof -
  obtain q where q: "length (fn_name f) = 8 * q + r" unfolding r_def by (metis mult_div_mod_eq)
  obtain k where k: "length (FileName_serialize f) = 8 * k" by (simp add: length_FileName_serialize)
  have r: "r < 8" by (simp add: r_def)
  have len: "length (raw_entry rn f) = 14 + 8 * (q + k) + r" using q k by (simp add: length_raw_entry)
  have sz: "entry_size f = 16 + 8 * (q + k) + r" using q k by (simp add: entry_size_def)
  have md: "length (raw_entry rn f) mod 8 = (6 + r) mod 8"
  proof -
    have "14 + 8 * (q + k) + r = 6 + r + 8 * (q + k + 1)" by simp
    then show ?thesis by (simp only: len mod_mult_self2)
  qed
  define p where "p = (8 - (6 + r) mod 8) mod 8"
  have p: "pad8 (raw_entry rn f) = raw_entry rn f @ replicate p 0" by (simp add: pad8_eq md p_def)
  show ?thesis
  proof (cases "r \<le> 2")
    case True
    then have "r = 0 \<or> r = 1 \<or> r = 2" by linarith
    then have "p = 2 - r" by (auto simp: p_def)
    with True show ?thesis by (simp add: p len sz)
  next
    case False
    with r have "r = 3 \<or> r = 4 \<or> r = 5 \<or> r = 6 \<or> r = 7" by linarith
    then have "p = 2 + (8 - r)" by (auto simp: p_def)
    with False r show ?thesis by (simp add: p len sz)
  qed
qed

abbreviation parse_next :: "bytes \<Rightarrow> nat \<Rightarrow> nat \<Rightarrow> IndexEntry list \<Rightarrow> (fs_error, IndexEntry \<times> nat) res \<Rightarrow> (fs_error, IndexEntry list) res" where
  "parse_next data limit offset es r \<equiv> bind_res r (\<lambda>(entry, entry_size).
     if is_last entry then Ok (es @ [entry])
     else if entry_size = 0 then Panic
     else parse_entries data limit (offset + entry_size) (es @ [entry]))"

lemma stuck_entry:
  assumes "16 \<le> length d" "get_le 8 d = (0 :: u16)" "d ! 12 AND 2 = 0"
  shows "parse_next data limit offset es (IndexEntry_deserialize d) = Panic"
proof -
  have "\<not> is_last_entry (IndexEntryFlags_from_u8 (d ! 12))" using assms(3) by (simp add: IndexEntryFlags_from_u8_def)
  then show ?thesis
    using assms(1,2)
    by (cases "slice d 16 (16 + unat (get_le 10 d :: u16)) :: (fs_error, bytes) res")
      (simp_all add: IndexEntry_deserialize_def INDEX_ENTRY_HEADER_SIZE_def Let_def slice_def split: if_splits)
qed

lemma get_le_16: "get_le 0 (a # b # z) = (of_nat (unat a + 256 * unat b) :: u16)"
  by (simp add: get_le_def from_le_bytes_def window_def)

lemma small_zeros: "replicate 5 x = [x, x, x, x, x]" "replicate 3 x = [x, x, x]" "replicate (Suc 0) x = [x]"
  by (simp_all add: numeral_eq_Suc)

lemma second_entry_stuck:
  assumes "r = 1 \<or> r = 2 \<or> r = 3 \<or> r = 4 \<or> r = 5 \<or> r = 6" "2 \<le> length z"
  shows "parse_next data limit offset es (IndexEntry_deserialize
    (if r \<le> 2 then drop r marker_bytes @ z else replicate (8 - r) 0 @ marker_bytes @ z)) = Panic"
proof (rule stuck_entry)
  from assms(2) obtain a b z' where z: "z = a # b # z'" by (auto simp: Suc_le_length_iff numeral_2_eq_2)
  let ?d = "if r \<le> 2 then drop r marker_bytes @ z else replicate (8 - r) 0 @ marker_bytes @ z"
  show "16 \<le> length ?d" using assms by auto
  show "get_le 8 ?d = (0 :: u16)"
    using assms(1) by (elim disjE) (simp_all add: marker_bytes_def small_zeros replicate_small replicate_2 get_le_16 drop_Cons')
  have "?d ! 12 = (if r = 4 then 16 else 0)"
    using assms(1) by (elim disjE) (simp_all add: marker_bytes_def z small_zeros replicate_small replicate_2 drop_Cons')
  then show "?d ! 12 AND 2 = 0" by simp
qed

lemma second_entry_short:
  assumes "length z + 17 < 4096"
  shows "IndexEntry_deserialize ([0] @ marker_bytes @ z) = Err InvalidParameter"
proof -
  have "get_le 8 ([0] @ marker_bytes @ z) = (4096 :: u16)" by (simp add: marker_bytes_def get_le_16)
  then show ?thesis using assms by (simp add: IndexEntry_deserialize_def INDEX_ENTRY_HEADER_SIZE_def Let_def)
qed


subsection \<open>Zero bytes in lossy strings\<close>

lemma utf8_step_zero:
  assumes "utf8_step bs = (n, False)" "i < n" "i < length bs"
  shows "bs ! i \<noteq> 0"
proof
  assume "bs ! i = 0"
  with assms(3) have "byte_at bs i = 0" by (simp add: byte_at_def)
  with assms(1,2) show False
    by (auto simp: utf8_step_def Let_def continues_def less_Suc_eq numeral_2_eq_2 numeral_3_eq_3 split: if_splits)
qed

lemma from_utf8_lossy_zero: "0 \<in> set bs \<Longrightarrow> 0 \<in> set (from_utf8_lossy bs)"
proof (induction bs rule: from_utf8_lossy.induct)
  case (1 bs)
  obtain n valid where s: "utf8_step bs = (n, valid)" by fastforce
  from 1(2) have ne: "bs \<noteq> []" by auto
  have eq: "from_utf8_lossy bs = (if valid then take n bs else [0xEF, 0xBF, 0xBD]) @ from_utf8_lossy (drop n bs)"
    using ne s by (subst from_utf8_lossy.simps) simp
  from 1(2) have "0 \<in> set (take n bs) \<or> 0 \<in> set (drop n bs)" by (metis Un_iff append_take_drop_id set_append)
  then show ?case
  proof
    assume "0 \<in> set (take n bs)"
    then have valid using s utf8_step_zero [of bs n] by (cases valid) (auto simp: in_set_conv_nth)
    with \<open>0 \<in> set (take n bs)\<close> show ?thesis by (simp add: eq)
  next
    assume "0 \<in> set (drop n bs)"
    with 1(1) [OF ne s [symmetric]] show ?thesis by (simp add: eq)
  qed
qed

lemma shifted_key_has_zero:
  assumes "fn_name f \<noteq> []" "unat (fn_parent_directory f) < 256"
  shows "0 \<in> set (from_utf8_lossy (window (length (fn_name f)) 2 (fn_name f @ FileName_serialize f)))"
proof (rule from_utf8_lossy_zero)
  obtain t where t: "FileName_serialize f = to_le_bytes (fn_parent_directory f) @ t"
    by (simp add: FileName_serialize_def pad8_eq)
  have "to_le_bytes (fn_parent_directory f) ! 1 = 0"
  proof -
    have n: "(8 :: nat) = Suc (Suc 6)" by simp
    show ?thesis using assms(2) by (simp add: to_le_bytes_def) (simp only: n le_encode.simps nth_Cons_Suc nth_Cons_0, simp)
  qed
  then have z: "FileName_serialize f ! 1 = 0" by (simp add: t nth_append)
  let ?w = "window (length (fn_name f)) 2 (fn_name f @ FileName_serialize f)"
  obtain m where m: "length (fn_name f) = Suc m" using assms(1) by (cases "fn_name f") auto
  have l: "2 \<le> length (FileName_serialize f)" by (simp add: t)
  then have "?w ! m = FileName_serialize f ! 1"
    by (subst nth_window) (simp_all add: m nth_append)
  moreover have "m < length ?w" using l m by simp
  ultimately show "0 \<in> set ?w" using z nth_mem by metis
qed

definition one_name :: "u64 \<Rightarrow> FileRecordNumber \<Rightarrow> FileName \<Rightarrow> IndexNode" where
  "one_name v rn f = insert_entry (leaf_entry rn f) (empty_root v)"

lemma entry_size_bounds:
  "66 \<le> entry_size f" "2 \<le> length (FileName_serialize f)" "length (pad8 (raw_entry rn f)) \<le> entry_size f + 5"
  "entry_size f - 2 \<le> length (pad8 (raw_entry rn f))"
proof -
  define n where "n = 62 + 2 * length (fn_name f) + 7"
  have "n mod 8 < 8" "8 * (n div 8) + n mod 8 = n" "69 \<le> n" by (simp_all add: n_def)
  then have "62 \<le> length (FileName_serialize f)" unfolding length_FileName_serialize n_def [symmetric] by linarith
  then show "66 \<le> entry_size f" "2 \<le> length (FileName_serialize f)" by (simp_all add: entry_size_def)
  show "length (pad8 (raw_entry rn f)) \<le> entry_size f + 5"
    by (simp add: length_pad8 length_raw_entry entry_size_def)
  show "entry_size f - 2 \<le> length (pad8 (raw_entry rn f))"
    using length_pad8_ge [of "raw_entry rn f"] by (simp add: length_raw_entry entry_size_def)
qed

lemma one_name_simps:
  assumes "entry_size f \<le> 4000"
  shows "nd_entries (one_name v rn f) = [leaf_entry rn f, new_end_marker]" "nd_vcn (one_name v rn f) = v"
    "ih_signature (nd_header (one_name v rn f)) = INDX" "entries_offset (nd_header (one_name v rn f)) = 32"
    "unat (index_length (nd_header (one_name v rn f))) = 48 + entry_size f" "is_leaf (nd_header (one_name v rn f))"
proof -
  show e: "nd_entries (one_name v rn f) = [leaf_entry rn f, new_end_marker]"
    using insert_entries [of "empty_root v" "[]" new_end_marker "leaf_entry rn f"] by (simp add: one_name_def)
  show v: "nd_vcn (one_name v rn f) = v" "ih_signature (nd_header (one_name v rn f)) = INDX"
    "entries_offset (nd_header (one_name v rn f)) = 32" "is_leaf (nd_header (one_name v rn f))"
    by (simp_all add: one_name_def insert_entry_def Let_def update_header_def is_leaf_def)
      (simp add: empty_root_def update_header_def IndexNode_new_leaf_def IndexHeader_new_leaf_def)
  have "unat (ie_entry_length (leaf_entry rn f)) = entry_size f"
    using assms by (simp add: leaf_entry_def unat_of_nat)
  then have "calculate_size (one_name v rn f) = 48 + entry_size f"
    by (simp add: calculate_size_eq e v new_end_marker_def INDEX_ENTRY_HEADER_SIZE_def)
  moreover have "index_length (nd_header (one_name v rn f)) = of_nat (calculate_size (one_name v rn f))"
    by (simp add: one_name_def insert_entry_def Let_def)
  moreover have "unat (of_nat (48 + entry_size f) :: u32) = 48 + entry_size f"
    by (rule unat_of_nat_small) (use assms in simp)
  ultimately show "unat (index_length (nd_header (one_name v rn f))) = 48 + entry_size f" by (simp only:)
qed

lemma one_name_bytes:
  assumes "entry_size f \<le> 4000"
  obtains z where "IndexNode_serialize (one_name v rn f)
      = header_bytes (nd_header (one_name v rn f)) @ pad8 (raw_entry rn f) @ marker_bytes @ z"
    "length z = 4048 - length (pad8 (raw_entry rn f))"
proof -
  have "IndexNode_serialize (one_name v rn f) = header_bytes (nd_header (one_name v rn f)) @ pad8 (raw_entry rn f) @ marker_bytes
      @ replicate (4048 - length (pad8 (raw_entry rn f))) 0"
    using entry_size_bounds(3) [of rn f] assms
    by (subst IndexNode_serialize_eq) (simp_all add: one_name_simps [OF assms] serialize_leaf_entry INDEX_NODE_SIZE_def)
  then show ?thesis by (rule that) simp
qed

text \<open>Every read of the node gives an entry under another name, an error, or does not return.\<close>

lemma one_name_reads:
  assumes "entry_size f \<le> 4000" "fn_name f \<noteq> []" "unat (fn_parent_directory f) < 256"
  defines "r \<equiv> length (fn_name f) mod 8"
  shows "r = 0 \<Longrightarrow> \<exists>e. IndexNode_deserialize (IndexNode_serialize (one_name v rn f)) u
           = Ok \<lparr>nd_header = nd_header (one_name v rn f), nd_entries = [e, new_end_marker], nd_vcn = u\<rparr>
         \<and> 0 \<in> set (ie_key e) \<and> ie_file_record_number e = rn \<and> \<not> is_last e"
    and "r = 7 \<Longrightarrow> IndexNode_deserialize (IndexNode_serialize (one_name v rn f)) u = Err InvalidParameter"
    and "r \<noteq> 0 \<Longrightarrow> r \<noteq> 7 \<Longrightarrow> IndexNode_deserialize (IndexNode_serialize (one_name v rn f)) u = Panic"
proof -
  let ?h = "nd_header (one_name v rn f)"
  obtain z where d: "IndexNode_serialize (one_name v rn f) = header_bytes ?h @ pad8 (raw_entry rn f) @ marker_bytes @ z"
    and z: "length z = 4048 - length (pad8 (raw_entry rn f))" by (rule one_name_bytes [OF assms(1)])
  define data where "data = header_bytes ?h @ pad8 (raw_entry rn f) @ marker_bytes @ z"
  note len = entry_size_bounds(1,2) [of f] entry_size_bounds(3) [of rn f] entry_size_bounds(4) [of f rn]
  have ld: "length data = 4096" using z len(3) assms(1) by (simp add: data_def)
  have small: "entry_size f < 2 ^ 16" using assms(1) by simp
  obtain pz where pz: "pad8 (raw_entry rn f) = raw_entry rn f @ pz" by (simp add: pad8_eq)
  obtain e where e: "IndexEntry_deserialize (raw_entry rn f @ pz @ marker_bytes @ z) = Ok (e, entry_size f)"
      "ie_key e = from_utf8_lossy (window (length (fn_name f)) 2 (fn_name f @ FileName_serialize f))"
      "ie_flags e = IndexEntryFlags_new" "ie_file_record_number e = rn"
    by (rule deserialize_leaf_entry [OF small len(2), of "pz @ marker_bytes @ z" rn]) simp_all
  have last: "\<not> is_last e" by (simp add: e(3) IndexEntryFlags_new_def)
  have pos: "entry_size f \<noteq> 0" using len(1) by linarith
  let ?next = "if r \<le> 2 then drop r marker_bytes @ z else replicate (8 - r) 0 @ marker_bytes @ z"
  have step: "parse_entries data (48 + entry_size f) 32 [] = parse_next data (48 + entry_size f) (32 + entry_size f) [e]
      (IndexEntry_deserialize ?next)"
  proof -
    have "drop 32 data = raw_entry rn f @ pz @ marker_bytes @ z" by (simp add: data_def pz)
    then have "parse_entries data (48 + entry_size f) 32 [] = parse_entries data (48 + entry_size f) (32 + entry_size f) [e]"
      by (subst parse_entries_step) (simp_all add: ld e(1) last pos)
    moreover have "drop (32 + entry_size f) data = ?next"
    proof -
      have "drop (32 + entry_size f) data = drop (entry_size f) (pad8 (raw_entry rn f) @ marker_bytes @ z)"
        by (simp add: data_def)
      then show ?thesis unfolding r_def by (simp only: after_leaf_entry)
    qed
    ultimately show ?thesis using assms(1) by (simp only:) (subst parse_entries_step, simp_all add: ld)
  qed
  have node: "IndexNode_deserialize (IndexNode_serialize (one_name v rn f)) u
      = bind_res (parse_entries data (48 + entry_size f) 32 []) (\<lambda>es. Ok \<lparr>nd_header = ?h, nd_entries = es, nd_vcn = u\<rparr>)"
    using IndexHeader_roundtrip [of ?h] one_name_simps [OF assms(1)] ld
    by (simp add: IndexNode_deserialize_def d INDEX_NODE_SIZE_def flip: data_def) (simp add: data_def)
  have lz: "2 \<le> length z" "length z + 17 < 4096" using z len(1,3,4) assms(1) by linarith+
  have r8: "r < 8" by (simp add: r_def)
  { assume "r = 0"
    then have "parse_entries data (48 + entry_size f) 32 [] = Ok [e, new_end_marker]" by (simp add: step deserialize_marker)
    then show "\<exists>e. IndexNode_deserialize (IndexNode_serialize (one_name v rn f)) u
           = Ok \<lparr>nd_header = ?h, nd_entries = [e, new_end_marker], nd_vcn = u\<rparr>
         \<and> 0 \<in> set (ie_key e) \<and> ie_file_record_number e = rn \<and> \<not> is_last e"
      using shifted_key_has_zero [OF assms(2,3)] e(2,4) last by (intro exI [of _ e]) (simp add: node) }
  { assume "r = 7"
    then have "?next = [0] @ marker_bytes @ z" by simp
    then have "IndexEntry_deserialize ?next = Err InvalidParameter" by (simp only: second_entry_short [OF lz(2)])
    then show "IndexNode_deserialize (IndexNode_serialize (one_name v rn f)) u = Err InvalidParameter"
      by (simp only: node step bind_res.simps) }
  { assume "r \<noteq> 0" "r \<noteq> 7"
    then have "r = 1 \<or> r = 2 \<or> r = 3 \<or> r = 4 \<or> r = 5 \<or> r = 6" using r8 by linarith
    then have "parse_next data (48 + entry_size f) (32 + entry_size f) [e] (IndexEntry_deserialize ?next) = Panic"
      by (rule second_entry_stuck [OF _ lz(1)])
    then show "IndexNode_deserialize (IndexNode_serialize (one_name v rn f)) u = Panic"
      by (simp only: node step bind_res.simps) }
qed

section \<open>Nodes on the disk\<close>

text \<open>The first sector of a node, whether it lies in the address space of the driver, and its bytes.\<close>

definition node_at :: "BTreeManager \<Rightarrow> u64 \<Rightarrow> nat" where
  "node_at self v = (unat (bt_index_allocation_start self) + unat v) * (unat (bt_cluster_size self) div 512)"

definition node_in :: "BTreeManager \<Rightarrow> u64 \<Rightarrow> bool" where
  "node_in self v \<longleftrightarrow> 4096 \<le> unat (bt_cluster_size self) \<and> node_at self v + 8 \<le> 2 ^ 28"

definition node_bytes :: "store \<Rightarrow> BTreeManager \<Rightarrow> u64 \<Rightarrow> bytes" where
  "node_bytes f self v = read_sectors f (node_at self v) 8"

lemma node_sector_ok:
  assumes "node_in self v"
  obtains s where "node_sector self v = Ok s" "unat (as_u32 s) = node_at self v"
proof -
  let ?c = "unat (bt_index_allocation_start self) + unat v" and ?k = "unat (bt_cluster_size self) div 512"
  have k: "1 \<le> ?k" using assms div_le_mono [of 4096 "unat (bt_cluster_size self)" 512] by (simp add: node_in_def)
  have n: "?c * ?k < 2 ^ 28" using assms by (simp add: node_in_def node_at_def)
  have "?c * 1 \<le> ?c * ?k" by (rule mult_le_mono2 [OF k])
  with n have c: "?c < 2 ^ 28" unfolding mult_1_right by (rule order.strict_trans1 [rotated])
  define cn where "cn = bt_index_allocation_start self + v"
  have cn: "add_ck (bt_index_allocation_start self) v = (Ok cn :: (fs_error, u64) res)" "unat cn = ?c"
    using c by (simp_all add: add_ck_def cn_def unat_word_ariths)
  have kk: "unat (as_u64 (bt_cluster_size self div 512)) = ?k"
    using div_le_dividend [of "unat (bt_cluster_size self)" 512] unat_bound [of "bt_cluster_size self"]
    by (subst ucast_small) (simp_all add: unat_div)
  define s where "s = cn * as_u64 (bt_cluster_size self div 512)"
  have s: "mul_ck cn (as_u64 (bt_cluster_size self div 512)) = (Ok s :: (fs_error, u64) res)" "unat s = ?c * ?k"
    using n by (simp_all add: mul_ck_def s_def cn(2) kk unat_word_ariths)
  show ?thesis
  proof (rule that [of s])
    show "node_sector self v = Ok s" by (simp add: node_sector_def cn(1) s(1))
    show "unat (as_u32 s) = node_at self v" using n by (subst ucast_small) (simp_all add: s(2) node_at_def)
  qed
qed

lemma node_apart:
  assumes "4096 \<le> unat (bt_cluster_size self)" "u \<noteq> v"
  shows "node_at self u + 8 \<le> node_at self v \<or> node_at self v + 8 \<le> node_at self u"
proof -
  let ?k = "unat (bt_cluster_size self) div 512"
  have k: "8 \<le> ?k" using assms(1) div_le_mono [of 4096 "unat (bt_cluster_size self)" 512] by simp
  have "unat u < unat v \<or> unat v < unat u" using assms(2) by (metis nat_neq_iff unsigned_word_eqI)
  moreover have "node_at self a + 8 \<le> node_at self b" if "unat a < unat b" for a b
  proof -
    have "Suc (unat (bt_index_allocation_start self) + unat a) * ?k \<le> (unat (bt_index_allocation_start self) + unat b) * ?k"
      using that by (intro mult_le_mono1) simp
    then show ?thesis using k by (simp add: node_at_def)
  qed
  ultimately show ?thesis by blast
qed

lemma node_bytes_write_same:
  "length bs = INDEX_NODE_SIZE \<Longrightarrow> node_bytes (write_sectors f (node_at self v) 8 bs) self v = bs"
  by (simp add: node_bytes_def read_write_sectors_same INDEX_NODE_SIZE_def)

lemma node_bytes_write_other:
  "4096 \<le> unat (bt_cluster_size self) \<Longrightarrow> u \<noteq> v \<Longrightarrow>
     node_bytes (write_sectors f (node_at self v) 8 bs) self u = node_bytes f self u"
  unfolding node_bytes_def by (rule read_write_sectors_other) (use node_apart [of self u v] in auto)

context block_device
begin

lemma wp_read_node:
  assumes "ready (dev w) (bt_drive self)" "node_in self v"
    and "\<And>dv. sec dv = sec (dev w) \<Longrightarrow> ready dv = ready (dev w) \<Longrightarrow>
      Q (IndexNode_deserialize (node_bytes (sec (dev w) (bt_drive self)) self v) v) (w\<lparr>dev := dv\<rparr>)"
  shows "wp (read_node B self v) w Q"
proof -
  obtain s where s: "node_sector self v = Ok s" "unat (as_u32 s) = node_at self v"
    using node_sector_ok [OF assms(2)] by blast
  have 8: "unat (8 :: u8) = 8" by simp
  have "wp (dread B (bt_drive self) 8 (as_u32 s) (replicate INDEX_NODE_SIZE 0)) w
      (\<lambda>r w'. case r of Ok d \<Rightarrow> wp (lift_res (IndexNode_deserialize d v)) w' Q | Err e \<Rightarrow> Q (Err e) w' | Panic \<Rightarrow> Q Panic w')"
  proof (rule wp_dread)
    show "unat (as_u32 s) + unat (8 :: u8) \<le> 2 ^ 28" using assms(2) by (simp add: s(2) node_in_def)
    fix dv assume "sec dv = sec (dev w)" "ready dv = ready (dev w)"
    from assms(3) [OF this] show "case Ok (read_sectors (sec (dev w) (bt_drive self)) (unat (as_u32 s)) (unat (8 :: u8))
        @ drop (unat (8 :: u8) * 512) (replicate INDEX_NODE_SIZE 0)) of
          Ok d \<Rightarrow> wp (lift_res (IndexNode_deserialize d v)) (w\<lparr>dev := dv\<rparr>) Q
        | Err e \<Rightarrow> Q (Err e) (w\<lparr>dev := dv\<rparr>) | Panic \<Rightarrow> Q Panic (w\<lparr>dev := dv\<rparr>)"
      by (simp add: wp_lift_res s(2) node_bytes_def INDEX_NODE_SIZE_def)
  qed (use assms(1) in \<open>simp_all add: INDEX_NODE_SIZE_def word_less_nat_alt\<close>)
  then show ?thesis by (simp add: read_node_def wp_bnd wp_lift_res s(1) INDEX_NODE_SIZE_def)
qed

lemma wp_write_node:
  assumes "ready (dev w) (bt_drive self)" "node_in self (nd_vcn n)" "ih_signature (nd_header n) = INDX"
    and "\<And>dv. sec dv = (sec (dev w))(bt_drive self := write_sectors (sec (dev w) (bt_drive self)) (node_at self (nd_vcn n)) 8 (IndexNode_serialize n))
      \<Longrightarrow> ready dv = ready (dev w) \<Longrightarrow> Q (Ok ()) (w\<lparr>dev := dv\<rparr>)"
  shows "wp (write_node B self n) w Q"
proof -
  obtain s where s: "node_sector self (nd_vcn n) = Ok s" "unat (as_u32 s) = node_at self (nd_vcn n)"
    using node_sector_ok [OF assms(2)] by blast
  have "wp (dwrite B (bt_drive self) 8 (as_u32 s) (IndexNode_serialize n)) w Q"
  proof (rule wp_dwrite)
    show "unat (as_u32 s) + unat (8 :: u8) \<le> 2 ^ 28" using assms(2) by (simp add: s(2) node_in_def)
    show "unat (8 :: u8) * 512 \<le> length (IndexNode_serialize n)"
      by (simp add: length_IndexNode_serialize [OF assms(3)] INDEX_NODE_SIZE_def)
    fix dv assume "sec dv = (sec (dev w))(bt_drive self := write_sectors (sec (dev w) (bt_drive self))
        (unat (as_u32 s)) (unat (8 :: u8)) (IndexNode_serialize n))" "ready dv = ready (dev w)"
    then show "Q (Ok ()) (w\<lparr>dev := dv\<rparr>)" by (intro assms(4)) (simp_all add: s(2))
  qed (use assms(1) in \<open>simp_all add: word_less_nat_alt\<close>)
  then show ?thesis by (simp add: write_node_def wp_bnd wp_lift_res s(1) INDEX_NODE_SIZE_def)
qed

end

text \<open>What a search for the name answers afterwards.\<close>

definition lost :: "bytes \<Rightarrow> (fs_error, FileRecordNumber option) res" where
  "lost name = (if length name mod 8 = 0 then Ok None else if length name mod 8 = 7 then Err InvalidParameter else Panic)"

context block_device
begin

lemma wp_insert_first:
  assumes "ready (dev w) (bt_drive self)" "node_in self (root_vcn self)"
    "node_bytes (sec (dev w) (bt_drive self)) self (root_vcn self) = IndexNode_serialize (empty_root v)"
    "entry_size f \<le> 4000"
    and "\<And>dv. sec dv = (sec (dev w))(bt_drive self := write_sectors (sec (dev w) (bt_drive self))
          (node_at self (root_vcn self)) 8 (IndexNode_serialize (one_name (root_vcn self) rn f)))
      \<Longrightarrow> ready dv = ready (dev w) \<Longrightarrow> Q (Ok ()) (self, w\<lparr>dev := dv\<rparr>)"
  shows "wp (BTreeManager_insert (Suc n) B key rn f) (self, w) Q"
proof -
  have e: "(empty_root v)\<lparr>nd_vcn := root_vcn self\<rparr> = empty_root (root_vcn self)"
    by (simp add: empty_root_def update_header_def IndexNode_new_leaf_def calculate_size_def)
  have rd: "IndexNode_deserialize (IndexNode_serialize (empty_root v)) (root_vcn self) = Ok (empty_root (root_vcn self))"
    by (simp only: empty_root_reads e)
  have nf: "\<not> is_full (empty_root (root_vcn self))"
    by (simp add: is_full_def calculate_size_eq new_end_marker_def INDEX_ENTRY_HEADER_SIZE_def INDEX_NODE_SIZE_def)
  have nl: "IndexEntry_new_leaf rn f = Ok (leaf_entry rn f)"
    by (rule new_leaf_entry) (use assms(4) in simp)
  show ?thesis
    unfolding BTreeManager_insert_def wp_self
    unfolding wp_bnd wp_io
  proof (rule wp_read_node [OF assms(1,2)], goal_cases)
    case (1 dv)
    have "wp (insert_recursive (Suc n) B self (root_vcn self) key rn f) (w\<lparr>dev := dv\<rparr>) (\<lambda>r w'. Q r (self, w'))"
      unfolding insert_recursive.simps wp_bnd
    proof (rule wp_read_node, goal_cases)
      case (3 dv')
      have b: "node_bytes (sec (dev (w\<lparr>dev := dv\<rparr>)) (bt_drive self)) self (root_vcn self) = IndexNode_serialize (empty_root v)"
        using assms(3) 1 by simp
      have "wp (write_node B self (one_name (root_vcn self) rn f)) (w\<lparr>dev := dv, dev := dv'\<rparr>) (\<lambda>r w'. Q r (self, w'))"
        by (rule wp_write_node) (use assms 1 3 in \<open>simp_all add: one_name_simps [OF assms(4)]\<close>)
      then show ?case unfolding b rd res.case by (simp add: wp_bnd wp_lift_res nl one_name_def)
    qed (use assms(1,2) 1 in simp_all)
    then show ?case by (simp add: assms(3) rd nf wp_simps)
  qed
qed

lemma search_lost:
  assumes "ready (dev w) (bt_drive self)" "node_in self (root_vcn self)"
    "node_bytes (sec (dev w) (bt_drive self)) self (root_vcn self) = IndexNode_serialize (one_name v rn f)"
    "entry_size f \<le> 4000" "fn_name f \<noteq> []" "0 \<notin> set (fn_name f)" "unat (fn_parent_directory f) < 256"
  shows "wp (BTreeManager_search (Suc n) B self (fn_name f)) w (\<lambda>r w'. r = lost (fn_name f))"
  unfolding BTreeManager_search_def search_from.simps wp_bnd
proof (rule wp_read_node [OF assms(1,2)], goal_cases)
  case (1 dv)
  note rd = one_name_reads [OF assms(4,5,7), of v rn "root_vcn self"]
  consider "length (fn_name f) mod 8 = 0" | "length (fn_name f) mod 8 = 7" | "length (fn_name f) mod 8 \<noteq> 0" "length (fn_name f) mod 8 \<noteq> 7"
    by blast
  then show ?case
  proof cases
    case 1
    from rd(1) [OF this] obtain e where e: "IndexNode_deserialize (IndexNode_serialize (one_name v rn f)) (root_vcn self)
        = Ok \<lparr>nd_header = nd_header (one_name v rn f), nd_entries = [e, new_end_marker], nd_vcn = root_vcn self\<rparr>"
      "0 \<in> set (ie_key e)" by blast
    then have "ie_key e \<noteq> fn_name f" using assms(6) by auto
    then have "find_entry (fn_name f) \<lparr>nd_header = nd_header (one_name v rn f), nd_entries = [e, new_end_marker], nd_vcn = root_vcn self\<rparr> = None"
      by (simp add: find_entry_def)
    with 1 show ?thesis by (simp add: assms(3) e(1) one_name_simps [OF assms(4)] wp_ret lost_def)
  next
    case 2
    then show ?thesis by (simp add: assms(3) rd(2) lost_def)
  next
    case 3
    then show ?thesis by (simp add: assms(3) rd(3) lost_def)
  qed
qed

end

section \<open>Walks over the index\<close>

text \<open>
  An index of height at most \<open>h\<close> below node \<open>v\<close>: every node on the way down reads without error. \<open>leaf_search\<close> and
  \<open>leaf_names\<close> are the answers of a lookup and of a listing on such an index.
\<close>

primrec index_ok :: "nat \<Rightarrow> store \<Rightarrow> BTreeManager \<Rightarrow> u64 \<Rightarrow> bool" where
  "index_ok 0 f self v \<longleftrightarrow> node_in self v \<and>
     (case IndexNode_deserialize (node_bytes f self v) v of Ok n \<Rightarrow> is_leaf (nd_header n) | _ \<Rightarrow> False)"
| "index_ok (Suc h) f self v \<longleftrightarrow> node_in self v \<and>
     (case IndexNode_deserialize (node_bytes f self v) v of
        Ok n \<Rightarrow> is_leaf (nd_header n) \<or> (\<forall>e \<in> set (nd_entries n). case ie_sub_node_vcn e of Some c \<Rightarrow> index_ok h f self c | None \<Rightarrow> True)
      | _ \<Rightarrow> False)"

primrec index_find :: "nat \<Rightarrow> store \<Rightarrow> BTreeManager \<Rightarrow> bytes \<Rightarrow> u64 \<Rightarrow> FileRecordNumber option" where
  "index_find 0 f self key v = (case IndexNode_deserialize (node_bytes f self v) v of Ok n \<Rightarrow> node_map n key | _ \<Rightarrow> None)"
| "index_find (Suc h) f self key v = (case IndexNode_deserialize (node_bytes f self v) v of
     Ok n \<Rightarrow> if is_leaf (nd_header n) then node_map n key
             else (case child_for key (nd_entries n) of Some c \<Rightarrow> index_find h f self key c | None \<Rightarrow> None)
   | _ \<Rightarrow> None)"

definition leaf_names :: "IndexNode \<Rightarrow> (bytes \<times> FileRecordNumber) list" where
  "leaf_names n = map (\<lambda>e. (ie_key e, ie_file_record_number e)) (filter (\<lambda>e. \<not> is_last e) (nd_entries n))"

primrec index_names :: "nat \<Rightarrow> store \<Rightarrow> BTreeManager \<Rightarrow> u64 \<Rightarrow> (bytes \<times> FileRecordNumber) list" where
  "index_names 0 f self v = (case IndexNode_deserialize (node_bytes f self v) v of Ok n \<Rightarrow> leaf_names n | _ \<Rightarrow> [])"
| "index_names (Suc h) f self v = (case IndexNode_deserialize (node_bytes f self v) v of
     Ok n \<Rightarrow> if is_leaf (nd_header n) then leaf_names n
             else concat (map (\<lambda>e. case ie_sub_node_vcn e of Some c \<Rightarrow> index_names h f self c | None \<Rightarrow> []) (nd_entries n))
   | _ \<Rightarrow> [])"

lemma child_for_in: "child_for key es = Some c \<Longrightarrow> \<exists>e \<in> set es. ie_sub_node_vcn e = Some c"
  by (induction key es rule: child_for.induct) (auto split: if_splits option.splits)

lemma node_map_in_names: "node_map n key = Some r \<Longrightarrow> (key, r) \<in> set (leaf_names n)"
  by (auto simp: node_map_def find_entry_def leaf_names_def find_Some_iff)

lemma index_find_in_names: "index_find h f self key v = Some r \<Longrightarrow> (key, r) \<in> set (index_names h f self v)"
proof (induction h arbitrary: v)
  case 0
  then show ?case by (auto split: res.splits intro: node_map_in_names)
next
  case (Suc h)
  from Suc.prems obtain n where n: "IndexNode_deserialize (node_bytes f self v) v = Ok n" by (auto split: res.splits)
  show ?case
  proof (cases "is_leaf (nd_header n)")
    case True
    with Suc.prems n show ?thesis by (auto intro: node_map_in_names)
  next
    case False
    with Suc.prems n obtain c where c: "child_for key (nd_entries n) = Some c" "index_find h f self key c = Some r"
      by (auto split: option.splits)
    from child_for_in [OF c(1)] obtain e where "e \<in> set (nd_entries n)" "ie_sub_node_vcn e = Some c" by blast
    then show ?thesis using Suc.IH [OF c(2)] False n by (auto intro!: bexI [of _ e])
  qed
qed

lemma index_okD:
  assumes "index_ok h f self v"
  obtains n where "node_in self v" "IndexNode_deserialize (node_bytes f self v) v = Ok n"
    "is_leaf (nd_header n) \<or> (\<exists>k. h = Suc k \<and> (\<forall>e \<in> set (nd_entries n). \<forall>c. ie_sub_node_vcn e = Some c \<longrightarrow> index_ok k f self c))"
  using assms by (cases h) (auto split: res.splits option.splits)

text \<open>A call that leaves the disk as it is.\<close>

definition only_reads :: "('v \<Rightarrow> u8 \<Rightarrow> bool) \<Rightarrow> ('v \<Rightarrow> u8 \<Rightarrow> store) \<Rightarrow> 'v world \<Rightarrow> 'v world \<Rightarrow> bool" where
  "only_reads ready sec w w' \<longleftrightarrow> (\<exists>dv. w' = w\<lparr>dev := dv\<rparr> \<and> sec dv = sec (dev w) \<and> ready dv = ready (dev w))"

lemma only_reads_trans: "only_reads ready sec w w' \<Longrightarrow> only_reads ready sec w' w'' \<Longrightarrow> only_reads ready sec w w''"
  by (auto simp: only_reads_def)

lemma only_reads_same: "only_reads ready sec w w' \<Longrightarrow> sec (dev w') = sec (dev w)" "only_reads ready sec w w' \<Longrightarrow> ready (dev w') = ready (dev w)"
  by (auto simp: only_reads_def)

context block_device
begin

lemma wp_read_good:
  assumes "ready (dev w) (bt_drive self)" "node_in self v"
    "IndexNode_deserialize (node_bytes (sec (dev w) (bt_drive self)) self v) v = Ok n"
    "\<And>w'. only_reads ready sec w w' \<Longrightarrow> wp (k n) w' Q"
  shows "wp (bnd (read_node B self v) k) w Q"
  unfolding wp_bnd
  by (rule wp_read_node [OF assms(1,2)]) (auto intro!: assms(4) simp: assms(3) only_reads_def)

lemma wp_search_from:
  assumes "ready (dev w) (bt_drive self)" "index_ok h (sec (dev w) (bt_drive self)) self v" "h < n"
  shows "wp (search_from n B self key v) w (\<lambda>r w'. r = Ok (index_find h (sec (dev w) (bt_drive self)) self key v) \<and> only_reads ready sec w w')"
  using assms
proof (induction n arbitrary: h v w)
  case 0
  then show ?case by simp
next
  case (Suc n)
  obtain nd where nd: "node_in self v" "IndexNode_deserialize (node_bytes (sec (dev w) (bt_drive self)) self v) v = Ok nd"
    "is_leaf (nd_header nd) \<or> (\<exists>k. h = Suc k \<and> (\<forall>e \<in> set (nd_entries nd). \<forall>c. ie_sub_node_vcn e = Some c
        \<longrightarrow> index_ok k (sec (dev w) (bt_drive self)) self c))"
    using Suc.prems(2) by (rule index_okD)
  show ?case
    unfolding search_from.simps
  proof (rule wp_read_good [OF Suc.prems(1) nd(1,2)])
    fix w' assume w': "only_reads ready sec w w'"
    show "wp (if is_leaf (nd_header nd)
        then case find_entry key nd of None \<Rightarrow> ret None | Some entry \<Rightarrow> ret (Some (ie_file_record_number entry))
        else case child_for key (nd_entries nd) of None \<Rightarrow> ret None | Some x \<Rightarrow> search_from n B self key x) w'
      (\<lambda>r w'. r = Ok (index_find h (sec (dev w) (bt_drive self)) self key v) \<and> only_reads ready sec w w')"
    proof (cases "is_leaf (nd_header nd)")
      case True
      then show ?thesis using w' nd(2) by (cases h) (simp_all add: wp_ret node_map_def split: option.splits)
    next
      case False
      with nd(3) obtain k where k: "h = Suc k" "\<And>e c. e \<in> set (nd_entries nd) \<Longrightarrow> ie_sub_node_vcn e = Some c
          \<Longrightarrow> index_ok k (sec (dev w) (bt_drive self)) self c" by blast
      show ?thesis
      proof (cases "child_for key (nd_entries nd)")
        case None
        then show ?thesis using False w' nd(2) k(1) by (simp add: wp_ret)
      next
        case (Some c)
        then have "index_ok k (sec (dev w') (bt_drive self)) self c"
          using child_for_in [OF Some] k(2) only_reads_same(1) [OF w'] by auto
        moreover have "ready (dev w') (bt_drive self)" using Suc.prems(1) only_reads_same(2) [OF w'] by simp
        ultimately have "wp (search_from n B self key c) w' (\<lambda>r w''. r = Ok (index_find k (sec (dev w') (bt_drive self)) self key c) \<and> only_reads ready sec w' w'')"
          using Suc.prems(3) k(1) by (intro Suc.IH) simp_all
        then have "wp (search_from n B self key c) w' (\<lambda>r w''. r = Ok (index_find h (sec (dev w) (bt_drive self)) self key v) \<and> only_reads ready sec w w'')"
          by (rule wp_mono) (use False Some nd(2) k(1) only_reads_same(1) [OF w'] only_reads_trans [OF w'] in auto)
        then show ?thesis using False Some by simp
      qed
    qed
  qed
qed

lemma wp_fold_prog:
  assumes "I s w" "\<And>x s w. x \<in> set xs \<Longrightarrow> I s w \<Longrightarrow> wp (f x s) w (\<lambda>r w'. \<exists>t. r = Ok (s @ t) \<and> t = g x \<and> I (s @ t) w')"
  shows "wp (fold_prog f xs s) w (\<lambda>r w'. r = Ok (s @ concat (map g xs)) \<and> I (s @ concat (map g xs)) w')"
  using assms
proof (induction xs arbitrary: s w)
  case Nil
  then show ?case by (simp add: wp_def)
next
  case (Cons x xs)
  have "wp (f x s) w (\<lambda>r w'. \<exists>t. r = Ok (s @ t) \<and> t = g x \<and> I (s @ t) w')" by (rule Cons.prems(2)) (simp_all add: Cons.prems(1))
  then have "wp (f x s) w (\<lambda>r w'. case r of Ok y \<Rightarrow> wp (fold_prog f xs y) w'
      (\<lambda>r w'. r = Ok (s @ concat (map g (x # xs))) \<and> I (s @ concat (map g (x # xs))) w') | Err e \<Rightarrow> False | Panic \<Rightarrow> False)"
  proof (rule wp_mono)
    fix r w' assume "\<exists>t. r = Ok (s @ t) \<and> t = g x \<and> I (s @ t) w'"
    then have r: "r = Ok (s @ g x)" and i: "I (s @ g x) w'" by auto
    from Cons.IH [OF i] Cons.prems(2) show "case r of Ok y \<Rightarrow> wp (fold_prog f xs y) w'
        (\<lambda>r w'. r = Ok (s @ concat (map g (x # xs))) \<and> I (s @ concat (map g (x # xs))) w') | Err e \<Rightarrow> False | Panic \<Rightarrow> False"
      by (simp add: r)
  qed
  then show ?case unfolding fold_prog.simps wp_bnd by (rule wp_mono) (auto split: res.splits)
qed

lemma wp_list_recursive:
  assumes "ready (dev w) (bt_drive self)" "index_ok h (sec (dev w) (bt_drive self)) self v" "h < n"
  shows "wp (list_recursive n B self v res) w (\<lambda>r w'. r = Ok (res @ index_names h (sec (dev w) (bt_drive self)) self v) \<and> only_reads ready sec w w')"
  using assms
proof (induction n arbitrary: h v w res)
  case 0
  then show ?case by simp
next
  case (Suc n)
  let ?f = "sec (dev w) (bt_drive self)"
  obtain nd where nd: "node_in self v" "IndexNode_deserialize (node_bytes ?f self v) v = Ok nd"
    "is_leaf (nd_header nd) \<or> (\<exists>k. h = Suc k \<and> (\<forall>e \<in> set (nd_entries nd). \<forall>c. ie_sub_node_vcn e = Some c \<longrightarrow> index_ok k ?f self c))"
    using Suc.prems(2) by (rule index_okD)
  let ?g = "\<lambda>k e. case ie_sub_node_vcn e of Some c \<Rightarrow> index_names k ?f self c | None \<Rightarrow> []"
  let ?walk = "\<lambda>e results. case ie_sub_node_vcn e of Some c \<Rightarrow> list_recursive n B self c results | None \<Rightarrow> ret results"
  show ?case
    unfolding list_recursive.simps
  proof (rule wp_read_good [OF Suc.prems(1) nd(1,2)])
    fix w' assume w': "only_reads ready sec w w'"
    show "wp (if is_leaf (nd_header nd)
        then ret (res @ map (\<lambda>e. (ie_key e, ie_file_record_number e)) (filter (\<lambda>e. \<not> is_last e) (nd_entries nd)))
        else fold_prog ?walk (nd_entries nd) res) w' (\<lambda>r w'. r = Ok (res @ index_names h ?f self v) \<and> only_reads ready sec w w')"
    proof (cases "is_leaf (nd_header nd)")
      case True
      then show ?thesis using w' nd(2) by (cases h) (simp_all add: wp_ret leaf_names_def)
    next
      case False
      with nd(3) obtain k where k: "h = Suc k" "\<And>e c. e \<in> set (nd_entries nd) \<Longrightarrow> ie_sub_node_vcn e = Some c
          \<Longrightarrow> index_ok k ?f self c" by blast
      have "wp (?walk e s) w1 (\<lambda>r w2. \<exists>t. r = Ok (s @ t) \<and> t = ?g k e \<and> only_reads ready sec w w2)"
        if e: "e \<in> set (nd_entries nd)" and w1: "only_reads ready sec w w1" for e s w1
      proof (cases "ie_sub_node_vcn e")
        case None
        then show ?thesis using w1 by (simp add: wp_ret)
      next
        case (Some c)
        have "wp (list_recursive n B self c s) w1 (\<lambda>r w2. r = Ok (s @ index_names k (sec (dev w1) (bt_drive self)) self c) \<and> only_reads ready sec w1 w2)"
          using Suc.prems(1,3) k e Some only_reads_same [OF w1] by (intro Suc.IH) simp_all
        then have "wp (list_recursive n B self c s) w1 (\<lambda>r w2. \<exists>t. r = Ok (s @ t) \<and> t = ?g k e \<and> only_reads ready sec w w2)"
          by (rule wp_mono) (use Some only_reads_same(1) [OF w1] only_reads_trans [OF w1] in auto)
        then show ?thesis using Some by simp
      qed
      then have "wp (fold_prog ?walk (nd_entries nd) res) w' (\<lambda>r w'. r = Ok (res @ concat (map (?g k) (nd_entries nd))) \<and> only_reads ready sec w w')"
        using w' by (intro wp_fold_prog) simp_all
      then show ?thesis using False nd(2) k(1) by simp
    qed
  qed
qed

end

section \<open>Splitting the root on the disk\<close>

lemma write_sectors_twice: "write_sectors (write_sectors f a n x) a n y = write_sectors f a n y"
  by (auto simp: write_sectors_def)

lemma IndexNode_deserialize_Ok:
  "IndexNode_deserialize d v = Ok n \<Longrightarrow> ih_signature (nd_header n) = INDX \<and> nd_vcn n = v"
  by (auto simp: IndexNode_deserialize_def IndexHeader_deserialize_def Let_def split: if_splits elim!: bind_res_OkE)

lemma new_internal_ok:
  assumes "length key < 60000"
  obtains e where "IndexEntry_new_internal key c = Ok e" "ie_sub_node_vcn e = Some c" "ie_key e = key" "\<not> is_last e"
proof -
  have "unat (16 + of_nat (length key) :: u16) = 16 + length key" using assms by (simp add: unat_word_ariths unat_of_nat)
  with assms have "IndexEntry_new_internal key c = Ok \<lparr>ie_file_record_number = 0, ie_entry_length = 24 + of_nat (length key),
      ie_key_length = of_nat (length key), ie_flags = IndexEntryFlags_new\<lparr>has_sub_node := True\<rparr>, ie_file_name = None,
      ie_sub_node_vcn = Some c, ie_key = key\<rparr>"
    by (simp add: IndexEntry_new_internal_def Let_def INDEX_ENTRY_HEADER_SIZE_def add_ck_def unat_of_nat)
  then show ?thesis by (rule that) (simp_all add: IndexEntryFlags_new_def)
qed

lemma insert_entry_header:
  "ih_signature (nd_header (insert_entry e n)) = ih_signature (nd_header n)" "nd_vcn (insert_entry e n) = nd_vcn n"
  by (simp_all add: insert_entry_def Let_def update_header_def)

lemma set_insert_entry: "set (nd_entries (insert_entry e n)) = {e} \<union> set (nd_entries n)"
proof -
  have "set (take k xs @ e # drop k xs) = {e} \<union> set xs" for k and xs :: "IndexEntry list"
    by (metis Un_insert_left Un_insert_right append_take_drop_id list.simps(15) set_append sup_bot_left)
  then show ?thesis by (simp add: insert_entry_def Let_def)
qed

lemma wp_allocate_vcn:
  "unat (NEXT_VCN w) + 1 < 2 ^ 64 \<Longrightarrow> wp allocate_vcn w Q \<longleftrightarrow> Q (Ok (NEXT_VCN w)) (w\<lparr>NEXT_VCN := NEXT_VCN w + 1\<rparr>)"
  by (simp add: allocate_vcn_def wp_def add_ck_def)

context block_device
begin

lemma wp_split_root:
  assumes r: "ready (dev w) (bt_drive self)" and i: "\<And>v. v \<in> {root_vcn self, root_vcn self + 1} \<Longrightarrow> node_in self v"
    and n: "IndexNode_deserialize (node_bytes (sec (dev w) (bt_drive self)) self (root_vcn self)) (root_vcn self) = Ok n"
      "nd_entries n = xs @ [m]" "\<And>e. e \<in> set (nd_entries n) \<Longrightarrow> length (ie_key e) < 60000"
    and v: "NEXT_VCN w = root_vcn self + 1" "unat (root_vcn self) + 3 < 2 ^ 64"
    and q: "\<And>nr dv. ie_sub_node_vcn ` set (nd_entries nr) = {None, Some (root_vcn self), Some (root_vcn self + 2)} \<Longrightarrow> ih_signature (nd_header nr) = INDX
      \<Longrightarrow> sec dv = (sec (dev w))(bt_drive self :=
            write_sectors (write_sectors (sec (dev w) (bt_drive self)) (node_at self (root_vcn self)) 8
               (IndexNode_serialize (update_header (n\<lparr>nd_entries := take (Suc (length xs) div 2) xs @ [m]\<rparr>))))
              (node_at self (root_vcn self + 1)) 8 (IndexNode_serialize nr))
      \<Longrightarrow> ready dv = ready (dev w)
      \<Longrightarrow> Q (Ok ()) (self\<lparr>root_vcn := root_vcn self + 1\<rparr>, w\<lparr>dev := dv, NEXT_VCN := root_vcn self + 3\<rparr>)"
  shows "wp (split_root B) (self, w) Q"
proof -
  have nv: "nd_vcn n = root_vcn self" "ih_signature (nd_header n) = INDX" using IndexNode_deserialize_Ok [OF n(1)] by simp_all
  define l where "l = update_header (n\<lparr>nd_entries := take (Suc (length xs) div 2) xs @ [m]\<rparr>)"
  define u where "u = update_header ((if is_leaf (nd_header n) then IndexNode_new_leaf (nd_vcn n + 1) else IndexNode_new_internal (nd_vcn n + 1))
       \<lparr>nd_entries := drop (Suc (length xs) div 2) xs @ [new_end_marker]\<rparr>)"
  have sp: "IndexNode_split n = Ok (l, u)"
    unfolding l_def u_def by (rule split_entries [OF n(2)]) (use v(2) nv in simp)
  have keys: "length (ie_key e) < 60000" if "e \<in> set (nd_entries l) \<union> set (nd_entries u)" for e
    using that n(2,3) by (auto simp: l_def u_def new_end_marker_def dest: in_set_takeD in_set_dropD)
  obtain a as where a: "nd_entries l = a # as" by (cases "nd_entries l") (auto simp: l_def)
  obtain b bs where b: "nd_entries u = b # bs" by (cases "nd_entries u") (auto simp: u_def)
  obtain e1 where e1: "IndexEntry_new_internal (ie_key a) (root_vcn self) = Ok e1" "ie_sub_node_vcn e1 = Some (root_vcn self)"
    by (rule new_internal_ok [of "ie_key a"]) (use keys a in auto)
  obtain e2 where e2: "IndexEntry_new_internal (ie_key b) (root_vcn self + 2) = Ok e2" "ie_sub_node_vcn e2 = Some (root_vcn self + 2)"
    by (rule new_internal_ok [of "ie_key b"]) (use keys b in auto)
  define nr where "nr = insert_entry e2 (insert_entry e1 (IndexNode_new_internal (root_vcn self + 1)))"
  have nr: "ie_sub_node_vcn ` set (nd_entries nr) = {None, Some (root_vcn self), Some (root_vcn self + 2)}"
    "ih_signature (nd_header nr) = INDX" "nd_vcn nr = root_vcn self + 1"
    by (auto simp: nr_def set_insert_entry insert_entry_header e1(2) e2(2) IndexNode_new_internal_def new_end_marker_def IndexHeader_new_internal_def)
  have lu: "nd_vcn l = root_vcn self" "ih_signature (nd_header l) = INDX" "nd_vcn u = root_vcn self + 1" "ih_signature (nd_header u) = INDX"
    using nv by (simp_all add: l_def u_def update_header_def IndexNode_new_internal_def IndexNode_new_leaf_def
        IndexHeader_new_internal_def IndexHeader_new_leaf_def)
  have nx: "unat (root_vcn self + 1) + 1 < 2 ^ 64" "unat (root_vcn self + 1 + 1) + 1 < 2 ^ 64"
    using v(2) by (simp_all add: unat_word_ariths)
  have two: "root_vcn self + 1 + 1 = root_vcn self + 2" by simp
  show ?thesis
    unfolding split_root_def wp_self
    unfolding wp_bnd wp_io
  proof (rule wp_read_node [OF r i], simp, goal_cases)
    case (1 dv)
    define w1 where "w1 = w\<lparr>dev := dv, NEXT_VCN := root_vcn self + 3\<rparr>"
    have w1: "sec (dev w1) = sec (dev w)" "ready (dev w1) = ready (dev w)" using 1 by (simp_all add: w1_def)
    have "wp (write_node B self l) w1 (\<lambda>r w'. r = Ok () \<and> wp (write_node B self u) w' (\<lambda>r w'. r = Ok ()
        \<and> wp (write_node B self nr) w' (\<lambda>r w'. r = Ok () \<and> Q (Ok ()) (self\<lparr>root_vcn := root_vcn self + 1\<rparr>, w'))))"
    proof (rule wp_write_node, goal_cases)
      case (4 dv1)
      show ?case
      proof (rule conjI [OF refl], rule wp_write_node, goal_cases)
        case (4 dv2)
        show ?case
        proof (rule conjI [OF refl], rule wp_write_node, goal_cases)
          case (4 dv3)
          have "w1\<lparr>dev := dv1, dev := dv2, dev := dv3\<rparr> = w\<lparr>dev := dv3, NEXT_VCN := root_vcn self + 3\<rparr>" by (simp add: w1_def)
          moreover have "sec dv3 = (sec (dev w))(bt_drive self := write_sectors (write_sectors (sec (dev w) (bt_drive self))
              (node_at self (root_vcn self)) 8 (IndexNode_serialize l)) (node_at self (root_vcn self + 1)) 8 (IndexNode_serialize nr))"
            using 4 \<open>sec dv2 = _\<close> \<open>sec dv1 = _\<close> w1 by (simp add: lu nr write_sectors_twice)
          moreover have "ready dv3 = ready (dev w)" using 4 \<open>ready dv2 = _\<close> \<open>ready dv1 = _\<close> w1 by simp
          ultimately show ?case using q [OF nr(1,2), of dv3] by (simp add: l_def)
        qed (use r i \<open>ready dv2 = _\<close> \<open>ready dv1 = _\<close> w1 lu nr in simp_all)
      qed (use r i \<open>ready dv1 = _\<close> w1 lu nr in simp_all)
    qed (use r i w1 lu nr in simp_all)
    then have "wp (write_node B self l) w1 (\<lambda>r w'. case r of
        Ok x \<Rightarrow> wp (write_node B self u) w' (\<lambda>r w'. case r of
          Ok x \<Rightarrow> wp (write_node B self nr) w' (\<lambda>r w'. case r of
            Ok x \<Rightarrow> Q (Ok ()) (self\<lparr>root_vcn := root_vcn self + 1\<rparr>, w')
          | Err e \<Rightarrow> Q (Err e) (self, w') | Panic \<Rightarrow> Q Panic (self, w'))
        | Err e \<Rightarrow> Q (Err e) (self, w') | Panic \<Rightarrow> Q Panic (self, w'))
      | Err e \<Rightarrow> Q (Err e) (self, w') | Panic \<Rightarrow> Q Panic (self, w'))"
      by - (erule wp_mono, clarsimp, erule wp_mono, clarsimp, erule wp_mono, clarsimp)
    moreover have "wp allocate_vcn (w\<lparr>dev := dv\<rparr>) P \<longleftrightarrow> P (Ok (root_vcn self + 1)) (w\<lparr>dev := dv, NEXT_VCN := root_vcn self + 2\<rparr>)" for P
      using nx(1) v(1) by (subst wp_allocate_vcn) (simp_all add: two)
    moreover have "wp allocate_vcn (w\<lparr>dev := dv, NEXT_VCN := root_vcn self + 2\<rparr>) P \<longleftrightarrow> P (Ok (root_vcn self + 2)) w1" for P
      using nx(2) by (subst wp_allocate_vcn) (simp_all add: two w1_def add.commute)
    ultimately show ?case
      by (simp add: n(1) wp_simps sp first_key_def a b lu e1(1) e2(1) cong: res.case_cong flip: nr_def)
  qed
qed

end

section \<open>A disk with one node\<close>

definition index_world :: "IndexNode \<Rightarrow> ram world" where
  "index_world n = (blank_world 64)\<lparr>dev := [0 \<mapsto> \<lparr>rd_sectors = 64, rd_data = write_sectors (\<lambda>_. replicate 512 0) 0 8 (IndexNode_serialize n)\<rparr>]\<rparr>"

definition demo_index :: BTreeManager where
  "demo_index = BTreeManager_new 0 0 0 4096"

lemma demo_index_simps [simp]: "bt_drive demo_index = 0" "root_vcn demo_index = 0" "bt_cluster_size demo_index = 4096"
  "node_at demo_index v = unat v * 8" "node_in demo_index 0" "node_in demo_index 1"
  by (simp_all add: demo_index_def BTreeManager_new_def node_at_def node_in_def)

lemma index_world_ready [simp]: "ram_ready (dev (index_world n)) 0" "NEXT_VCN (index_world n) = 1"
  by (simp_all add: index_world_def ram_ready_def blank_world_def)

lemma index_world_node:
  assumes "ih_signature (nd_header n) = INDX"
  shows "node_bytes (ram_sec (dev (index_world n)) 0) demo_index 0 = IndexNode_serialize n"
proof -
  have b: "dev (index_world n) = (blank_disk 64)(0 \<mapsto> (\<lparr>rd_sectors = 64, rd_data = (\<lambda>_. replicate 512 0)\<rparr>)
      \<lparr>rd_data := write_sectors (rd_data \<lparr>rd_sectors = 64, rd_data = (\<lambda>_. replicate 512 0)\<rparr>) 0 8 (IndexNode_serialize n)\<rparr>)"
    by (simp add: index_world_def blank_disk_def)
  have "ram_sec (dev (index_world n)) = (ram_sec (blank_disk 64))(0 := write_sectors (ram_sec (blank_disk 64) 0) 0 8 (IndexNode_serialize n))"
    unfolding b by (rule ram_sec_write)
      (simp_all add: blank_disk_def length_IndexNode_serialize [OF assms] INDEX_NODE_SIZE_def)
  then show ?thesis
    using node_bytes_write_same [of "IndexNode_serialize n" _ demo_index 0] length_IndexNode_serialize [OF assms] by simp
qed


section \<open>Properties\<close>

text \<open>
  C31: An index node implements a finite map from names to file records: along every sequence of
  insertions of fresh names and deletions that starts from an empty leaf, the names stay in order before
  a single end marker, the header holds the length, and lookups answer as the map does.
\<close>

theorem index_node_refines_map:
  fixes v :: u64
  assumes "allowed ie_key ie_file_record_number (\<lambda>e. \<not> is_last e \<and> ie_key e \<noteq> []) (\<lambda>k. k \<noteq> []) ops Map.empty"
  defines "n \<equiv> fold (apply_op insert_entry (\<lambda>k n. snd (remove_entry k n))) ops (update_header (IndexNode_new_leaf v))"
  shows "node_ok n \<and> (\<forall>k. map_option ie_file_record_number (find_entry k n) = fold (map_op ie_key ie_file_record_number) ops Map.empty k)"
proof -
  have d: "node_delete = (\<lambda>k n. snd (remove_entry k n))" by (simp add: fun_eq_iff node_delete_def)
  from node.history_refines [OF new_leaf_ok(1) [of v], of ops] assms(1)
  have "node_ok n \<and> node_map n = fold (map_op ie_key ie_file_record_number) ops Map.empty"
    by (simp add: n_def new_leaf_ok(2) d)
  then show ?thesis by (simp add: fun_eq_iff node_map_def)
qed

theorem index_node_refines_map_witness:
  "map_option ie_file_record_number (find_entry [99] (fold (apply_op insert_entry (\<lambda>k n. snd (remove_entry k n)))
     [Insert (leaf_entry 17 (FileName_new 5 [99] False)), Insert (leaf_entry 16 (FileName_new 5 [97] False)), Delete [97]]
     (update_header (IndexNode_new_leaf 0)))) = Some 17"
  using index_node_refines_map [of "[Insert (leaf_entry 17 (FileName_new 5 [99] False)),
      Insert (leaf_entry 16 (FileName_new 5 [97] False)), Delete [97]]" 0]
  by (simp add: leaf_entry_def FileName_new_def IndexEntryFlags_new_def)

text \<open>
  Splitting a node moves the upper half of its names, in order, to a new node: both halves satisfy the
  node invariant, every name is found in exactly the half that holds it, all names of the left half are
  below those of the right, and the lengths account for one more header and end marker.
\<close>

theorem split_partitions_names:
  assumes "node_ok n" "unat (nd_vcn n) + 1 < 2 ^ 64"
  shows "\<exists>l r. IndexNode_split n = Ok (l, r) \<and> node_ok l \<and> node_ok r \<and> body l @ body r = body n
    \<and> (\<forall>x \<in> set (body l). \<forall>y \<in> set (body r). ie_key x < ie_key y)
    \<and> node_map l ++ node_map r = node_map n
    \<and> length (body l) = Suc (length (body n)) div 2 \<and> nd_vcn r = nd_vcn n + 1
    \<and> is_leaf (nd_header r) = is_leaf (nd_header n)
    \<and> calculate_size l + calculate_size r = calculate_size n + 48"
  by (rule split_ok [OF assms]) blast

theorem split_partitions_names_witness:
  "\<exists>l r. IndexNode_split (insert_entry (leaf_entry 17 (FileName_new 5 [99] False)) (empty_root 0)) = Ok (l, r)
    \<and> node_map l ++ node_map r = [[99] \<mapsto> 17]"
proof -
  let ?e = "leaf_entry 17 (FileName_new 5 [99] False)"
  have e: "\<not> is_last ?e" "ie_key ?e = [99]" "ie_file_record_number ?e = 17"
    by (simp_all add: leaf_entry_def FileName_new_def IndexEntryFlags_new_def)
  have "node_ok (insert_entry ?e (empty_root 0))" "node_map (insert_entry ?e (empty_root 0)) = [[99] \<mapsto> 17]"
    using insert_entry_refines [of "empty_root 0" ?e] new_leaf_ok [of 0] e by (simp_all add: empty_root_def)
  moreover have "nd_vcn (insert_entry ?e (empty_root 0)) = 0" by (simp add: insert_entry_header)
  ultimately show ?thesis using split_partitions_names [of "insert_entry ?e (empty_root 0)"] by force
qed



text \<open>
  C33: A name inserted into an empty directory is not found again: the entry is written with a header of 14
  bytes and read with one of 16, so a lookup of the name answers that there is none, reports an invalid
  parameter, or does not return, depending on the length of the name modulo 8.
\<close>

theorem inserted_name_is_lost:
  assumes "block_device B ready sec" "ready (dev w) (bt_drive self)" "node_in self (root_vcn self)"
    "node_bytes (sec (dev w) (bt_drive self)) self (root_vcn self) = IndexNode_serialize (update_header (IndexNode_new_leaf v))"
    "name \<noteq> []" "0 \<notin> set name" "length name \<le> 255" "unat parent < 256"
  shows "\<exists>w'. BTreeManager_insert (Suc n) B name rn (FileName_new parent name is_dir) (self, w) = (Ok (), self, w')
    \<and> fst (BTreeManager_search (Suc m) B self name w')
      = (if length name mod 8 = 0 then Ok None else if length name mod 8 = 7 then Err InvalidParameter else Panic)"
proof -
  let ?f = "FileName_new parent name is_dir"
  have f: "fn_name ?f = name" "fn_parent_directory ?f = parent" by (simp_all add: FileName_new_def)
  have sz: "entry_size ?f \<le> 4000" using assms(7) by (simp add: entry_size_def length_FileName_serialize f)
  have "wp (BTreeManager_insert (Suc n) B name rn ?f) (self, w) (\<lambda>r s. r = Ok () \<and> fst s = self
      \<and> fst (BTreeManager_search (Suc m) B self name (snd s)) = lost name)"
  proof (rule block_device.wp_insert_first [OF assms(1-4) [folded empty_root_def] sz], goal_cases)
    case (1 dv)
    have "wp (BTreeManager_search (Suc m) B self (fn_name ?f)) (w\<lparr>dev := dv\<rparr>) (\<lambda>r w'. r = lost (fn_name ?f))"
    proof (rule block_device.search_lost [OF assms(1)])
      show "node_bytes (sec (dev (w\<lparr>dev := dv\<rparr>)) (bt_drive self)) self (root_vcn self)
          = IndexNode_serialize (one_name (root_vcn self) rn ?f)"
        using 1 by (simp add: node_bytes_write_same length_IndexNode_serialize one_name_simps [OF sz])
    qed (use assms 1 sz f in simp_all)
    then show ?case by (simp add: wp_def f split: prod.splits)
  qed
  then show ?thesis by (auto simp: wp_def lost_def split: prod.splits)
qed

theorem inserted_name_is_lost_witness:
  "\<exists>w'. BTreeManager_insert 1 ram_bdev [97, 98, 99, 46, 116, 120, 116, 33] 16 (FileName_new 5 [97, 98, 99, 46, 116, 120, 116, 33] False)
       (demo_index, index_world (empty_root 0)) = (Ok (), demo_index, w')
    \<and> fst (BTreeManager_search 1 ram_bdev demo_index [97, 98, 99, 46, 116, 120, 116, 33] w') = Ok None"
  using inserted_name_is_lost [OF ram.block_device_axioms, of "index_world (empty_root 0)" demo_index 0
      "[97, 98, 99, 46, 116, 120, 116, 33]" 5 0 16 False 0]
  by (simp add: index_world_node flip: empty_root_def)

text \<open>
  C34: Splitting the root loses its upper half. With the counter of node numbers just above the root, as it is
  after a format, the new node and the new root get the same place: the new root overwrites the names that
  were moved, points to the next place for them, and nothing was written there.
\<close>

theorem split_root_loses_upper_half:
  assumes "block_device B ready sec" "ready (dev w) (bt_drive self)"
    "node_in self (root_vcn self)" "node_in self (root_vcn self + 1)"
    "IndexNode_deserialize (node_bytes (sec (dev w) (bt_drive self)) self (root_vcn self)) (root_vcn self) = Ok n"
    "nd_entries n = xs @ [m]" "\<forall>e \<in> set (nd_entries n). length (ie_key e) < 60000"
    "NEXT_VCN w = root_vcn self + 1" "unat (root_vcn self) + 3 < 2 ^ 64"
  shows "\<exists>self' w' new_root. split_root B (self, w) = (Ok (), self', w')
    \<and> root_vcn self' = root_vcn self + 1
    \<and> node_bytes (sec (dev w') (bt_drive self)) self (root_vcn self)
        = IndexNode_serialize (update_header (n\<lparr>nd_entries := take (Suc (length xs) div 2) xs @ [m]\<rparr>))
    \<and> node_bytes (sec (dev w') (bt_drive self)) self (root_vcn self + 1) = IndexNode_serialize new_root
    \<and> ie_sub_node_vcn ` set (nd_entries new_root) = {None, Some (root_vcn self), Some (root_vcn self + 2)}
    \<and> (\<forall>v. v \<noteq> root_vcn self \<longrightarrow> v \<noteq> root_vcn self + 1 \<longrightarrow>
         node_bytes (sec (dev w') (bt_drive self)) self v = node_bytes (sec (dev w) (bt_drive self)) self v)"
proof -
  let ?f = "sec (dev w) (bt_drive self)" and ?l = "update_header (n\<lparr>nd_entries := take (Suc (length xs) div 2) xs @ [m]\<rparr>)"
  have c: "4096 \<le> unat (bt_cluster_size self)" using assms(3) by (simp add: node_in_def)
  have l: "length (IndexNode_serialize ?l) = INDEX_NODE_SIZE"
    using IndexNode_deserialize_Ok [OF assms(5)] by (intro length_IndexNode_serialize) (simp add: update_header_def)
  have ne: "root_vcn self \<noteq> root_vcn self + 1" by simp
  have "wp (split_root B) (self, w) (\<lambda>r s. \<exists>new_root. r = Ok () \<and> root_vcn (fst s) = root_vcn self + 1
      \<and> ie_sub_node_vcn ` set (nd_entries new_root) = {None, Some (root_vcn self), Some (root_vcn self + 2)}
      \<and> length (IndexNode_serialize new_root) = INDEX_NODE_SIZE
      \<and> sec (dev (snd s)) (bt_drive self) = write_sectors (write_sectors ?f (node_at self (root_vcn self)) 8 (IndexNode_serialize ?l))
            (node_at self (root_vcn self + 1)) 8 (IndexNode_serialize new_root))"
  proof (rule block_device.wp_split_root [OF assms(1,2) _ assms(5,6) _ assms(8,9)], goal_cases)
    case (3 nr dv)
    then show ?case by (intro exI [of _ nr]) (simp add: length_IndexNode_serialize)
  qed (use assms(3,4,7) in auto)
  then obtain s new_root where s: "split_root B (self, w) = (Ok (), s)" "root_vcn (fst s) = root_vcn self + 1"
      "ie_sub_node_vcn ` set (nd_entries new_root) = {None, Some (root_vcn self), Some (root_vcn self + 2)}"
      "length (IndexNode_serialize new_root) = INDEX_NODE_SIZE"
      "sec (dev (snd s)) (bt_drive self) = write_sectors (write_sectors ?f (node_at self (root_vcn self)) 8 (IndexNode_serialize ?l))
            (node_at self (root_vcn self + 1)) 8 (IndexNode_serialize new_root)"
    by (auto simp: wp_def split: prod.splits)
  have "node_bytes (sec (dev (snd s)) (bt_drive self)) self (root_vcn self) = IndexNode_serialize ?l"
    unfolding s(5) by (simp only: node_bytes_write_other [OF c ne] node_bytes_write_same [OF l])
  moreover have "node_bytes (sec (dev (snd s)) (bt_drive self)) self (root_vcn self + 1) = IndexNode_serialize new_root"
    unfolding s(5) by (rule node_bytes_write_same [OF s(4)])
  moreover have "node_bytes (sec (dev (snd s)) (bt_drive self)) self v = node_bytes ?f self v"
    if "v \<noteq> root_vcn self" "v \<noteq> root_vcn self + 1" for v
    unfolding s(5) by (simp only: node_bytes_write_other [OF c that(1)] node_bytes_write_other [OF c that(2)])
  ultimately show ?thesis using s(1,2,3) by (intro exI [of _ "fst s"] exI [of _ "snd s"] exI [of _ new_root]) simp
qed

theorem split_root_loses_upper_half_witness:
  "\<exists>self' w'. split_root ram_bdev (demo_index, index_world (empty_root 0)) = (Ok (), self', w') \<and> root_vcn self' = 1"
proof -
  have "IndexNode_deserialize (node_bytes (ram_sec (dev (index_world (empty_root 0))) 0) demo_index 0) 0 = Ok (empty_root 0)"
    by (simp add: index_world_node empty_root_reads)
  then show ?thesis
    using split_root_loses_upper_half [OF ram.block_device_axioms, of "index_world (empty_root 0)" demo_index "empty_root 0" "[]" new_end_marker]
    by (auto simp: new_end_marker_def)
qed

end
