(* ===== verification/Galleon_Fs.thy ===== *)
theory Galleon_Fs
  imports Super_Block Allocation BTree
begin

text \<open>
  The filesystem as a whole, \<^verbatim>\<open>crates/galleon2/src/galleon_fs.rs\<close>: the extended super block with the layout
  of the disk, \<^verbatim>\<open>format\<close> and \<^verbatim>\<open>mount\<close>, and the operations that combine the file records, the directory
  index, the journal and the cluster allocator.
\<close>

section \<open>The extended super block\<close>

record GalleonSuperBlock =
  legacy_super_block :: SuperBlock
  gs_mft_start_cluster :: u64
  gs_mft_mirror_cluster :: u64
  gs_journal_start_cluster :: u64
  gs_journal_size_clusters :: u64
  gs_bitmap_start_cluster :: u64
  gs_bitmap_size_clusters :: u64
  gs_index_allocation_start :: u64
  gs_cluster_size :: u32

definition clamp :: "u64 \<Rightarrow> u64 \<Rightarrow> u64 \<Rightarrow> u64" where
  "clamp x lo hi = (if x < lo then lo else if x > hi then hi else x)"

text \<open>The sums up to the start of the bitmap are below 700, so their additions cannot overflow.\<close>

definition GalleonSuperBlock_new :: "u64 \<Rightarrow> u32 \<Rightarrow> (fs_error, GalleonSuperBlock) res" where
  "GalleonSuperBlock_new total_clusters cluster_size =
     (let mft_size_clusters = clamp (total_clusters div 128) 16 256;
          mft_start_cluster = 16;
          mft_mirror_cluster = mft_start_cluster + mft_size_clusters;
          journal_start_cluster = mft_mirror_cluster + mft_size_clusters div 4;
          journal_size_clusters = clamp (total_clusters div 256) 8 64;
          bitmap_start_cluster = journal_start_cluster + journal_size_clusters;
          cluster_bits = 8 * as_u64 cluster_size
      in bind_res (add_ck total_clusters cluster_bits) (\<lambda>n.
         bind_res (sub_ck n 1) (\<lambda>n.
         if cluster_bits = 0 then Panic
         else
           let bitmap_size_clusters = max (n div cluster_bits) 1 in
           bind_res (add_ck bitmap_start_cluster bitmap_size_clusters) (\<lambda>index_allocation_start.
             Ok \<lparr>legacy_super_block = SuperBlock_new cluster_size total_clusters MFT_RECORD_ROOT,
                 gs_mft_start_cluster = mft_start_cluster, gs_mft_mirror_cluster = mft_mirror_cluster,
                 gs_journal_start_cluster = journal_start_cluster, gs_journal_size_clusters = journal_size_clusters,
                 gs_bitmap_start_cluster = bitmap_start_cluster, gs_bitmap_size_clusters = bitmap_size_clusters,
                 gs_index_allocation_start = index_allocation_start, gs_cluster_size = cluster_size\<rparr>))))"

definition GalleonSuperBlock_serialize :: "GalleonSuperBlock \<Rightarrow> bytes" where
  "GalleonSuperBlock_serialize self =
     (let s = as_sector (legacy_super_block self);
          s = splice s 256 (to_le_bytes (gs_mft_start_cluster self));
          s = splice s 264 (to_le_bytes (gs_mft_mirror_cluster self));
          s = splice s 272 (to_le_bytes (gs_journal_start_cluster self));
          s = splice s 280 (to_le_bytes (gs_journal_size_clusters self));
          s = splice s 288 (to_le_bytes (gs_bitmap_start_cluster self));
          s = splice s 296 (to_le_bytes (gs_bitmap_size_clusters self));
          s = splice s 304 (to_le_bytes (gs_cluster_size self));
          s = splice s 308 (to_le_bytes (gs_index_allocation_start self))
      in s)"

definition GalleonSuperBlock_deserialize :: "bytes \<Rightarrow> (fs_error, GalleonSuperBlock) res" where
  "GalleonSuperBlock_deserialize sector =
     (let legacy = from_sector sector in
      if length sector < 256 + 60 then Err InvalidBootBlock
      else
        let mft_start_cluster = get_le 256 sector;
            mft_mirror_cluster = get_le 264 sector;
            journal_start_cluster = get_le 272 sector;
            journal_size_clusters = get_le 280 sector;
            bitmap_start_cluster = get_le 288 sector;
            bitmap_size_clusters = get_le 296 sector;
            cluster_size = get_le 304 sector;
            index_allocation_start = get_le 308 sector
        in if cluster_size = 0 \<or> cluster_size > 65536 then Err InvalidBootBlock
           else if mft_start_cluster = 0 then Err InvalidBootBlock
           else Ok \<lparr>legacy_super_block = legacy,
               gs_mft_start_cluster = mft_start_cluster, gs_mft_mirror_cluster = mft_mirror_cluster,
               gs_journal_start_cluster = journal_start_cluster, gs_journal_size_clusters = journal_size_clusters,
               gs_bitmap_start_cluster = bitmap_start_cluster, gs_bitmap_size_clusters = bitmap_size_clusters,
               gs_index_allocation_start = index_allocation_start, gs_cluster_size = cluster_size\<rparr>)"


section \<open>Format and mount\<close>

record GalleonFilesystem =
  gf_super_block :: GalleonSuperBlock
  gf_mft_manager :: MftManager
  gf_journal_manager :: JournalManager
  gf_file_manager :: FileRecordManager
  gf_btree_manager :: BTreeManager
  gf_allocator :: ClusterAllocator
  gf_drive :: u8

text \<open>\<open>run_on\<close> calls a method of a local value; \<open>attempt\<close> is a \<^verbatim>\<open>match\<close> on a call's result.\<close>

definition run_on :: "'s \<Rightarrow> ('s, 'v, 'a) meth \<Rightarrow> ('v, 's) fs" where
  "run_on s m = (\<lambda>w. case m (s, w) of
      (Ok x, (s', w')) \<Rightarrow> (Ok s', w')
    | (Err e, (s', w')) \<Rightarrow> (Err e, w')
    | (Panic, (s', w')) \<Rightarrow> (Panic, w'))"

definition attempt :: "('w, 'e, 'a) prog \<Rightarrow> ('w, 'e, 'e + 'a) prog" where
  "attempt m = (\<lambda>w. case m w of
      (Ok x, w') \<Rightarrow> (Ok (Inr x), w')
    | (Err e, w') \<Rightarrow> (Ok (Inl e), w')
    | (Panic, w') \<Rightarrow> (Panic, w'))"

text \<open>\<^verbatim>\<open>impl Clone for JournalManager\<close>: the copy starts without transactions.\<close>

definition JournalManager_clone :: "JournalManager \<Rightarrow> JournalManager" where
  "JournalManager_clone self = self\<lparr>active_transactions := []\<rparr>"

definition create_system_files :: "'v bdev \<Rightarrow> MftManager \<Rightarrow> ('v, unit) fs" where
  "create_system_files B mm =
     bnd (write_record B mm (MftRecord_new 0)) (\<lambda>_.
       write_record B mm (MftRecord_new MFT_RECORD_ROOT))"

definition initialize_btree_root :: "'v bdev \<Rightarrow> BTreeManager \<Rightarrow> ('v, unit) fs" where
  "initialize_btree_root B bt = write_node B bt (update_header (IndexNode_new_leaf 0))"

definition sectors_of :: "u64 \<Rightarrow> u32 \<Rightarrow> (fs_error, u64) res" where
  "sectors_of n cluster_size = mul_ck n (as_u64 (cluster_size div 512))"

definition GalleonFilesystem_format :: "'v bdev \<Rightarrow> u8 \<Rightarrow> ('v, GalleonFilesystem) fs" where
  "GalleonFilesystem_format B drive =
     bnd (dsize B drive) (\<lambda>disk_size_bytes.
     let cluster_size = 4096; total_clusters = disk_size_bytes div as_u64 (cluster_size :: u32) in
     if total_clusters < 100 then fail InsufficientSpace
     else
     bnd (lift_res (GalleonSuperBlock_new total_clusters cluster_size)) (\<lambda>super_block.
     bnd (dwrite B drive 1 0 (GalleonSuperBlock_serialize super_block)) (\<lambda>_.
     bnd (lift_res (sectors_of (gs_bitmap_start_cluster super_block) cluster_size)) (\<lambda>bitmap_start_sector.
     bnd (lift_res (ClusterBitmap_new drive bitmap_start_sector total_clusters)) (\<lambda>bitmap.
     bnd (lift_res (add_ck (gs_index_allocation_start super_block) 100)) (\<lambda>system_clusters.
     bnd (run_on (ClusterAllocator_new bitmap FirstFit)
            (bnd (for_each (\<lambda>cluster. on_bitmap (set_cluster_used B cluster)) (u64_range 0 system_clusters)) (\<lambda>_.
              on_bitmap (flush_bitmap B)))) (\<lambda>allocator.
     let mm = MftManager_new drive (gs_mft_start_cluster super_block) cluster_size in
     bnd (lift_res (sectors_of (gs_journal_start_cluster super_block) cluster_size)) (\<lambda>journal_start_sector.
     bnd (lift_res (sectors_of (gs_journal_size_clusters super_block) cluster_size)) (\<lambda>journal_size_sectors.
     let jm = JournalManager_new drive journal_start_sector journal_size_sectors;
         fm = FileRecordManager_new mm (JournalManager_clone jm);
         bt = BTreeManager_new drive 0 (gs_index_allocation_start super_block) cluster_size
     in
     bnd (create_system_files B mm) (\<lambda>_.
     bnd (initialize_btree_root B bt) (\<lambda>_.
       ret \<lparr>gf_super_block = super_block, gf_mft_manager = mm, gf_journal_manager = jm, gf_file_manager = fm,
            gf_btree_manager = bt, gf_allocator = allocator, gf_drive = drive\<rparr>)))))))))))"

definition verify_root :: "'v bdev \<Rightarrow> BTreeManager \<Rightarrow> ('v, unit) fs" where
  "verify_root B bt =
     bnd (attempt (read_node B bt 0)) (\<lambda>r.
     let needs_init = (case r of Inr node \<Rightarrow> \<not> is_leaf (nd_header node) | Inl e \<Rightarrow> True) in
     if needs_init then
       bnd (initialize_btree_root B bt) (\<lambda>_.
       bnd (read_node B bt 0) (\<lambda>node. ret ()))
     else ret ())"

definition GalleonFilesystem_mount :: "'v bdev \<Rightarrow> u8 \<Rightarrow> ('v, GalleonFilesystem) fs" where
  "GalleonFilesystem_mount B drive =
     (if drive > 3 then fail InvalidParameter
      else
        bnd (dread B drive 1 1 (replicate 512 0)) (\<lambda>sector.
        if \<not> is_valid sector then fail InvalidBootBlock
        else
        bnd (lift_res (GalleonSuperBlock_deserialize sector)) (\<lambda>super_block.
        if gs_cluster_size super_block = 0 then fail InvalidBootBlock
        else
        let cluster_size = gs_cluster_size super_block in
        bnd (lift_res (sectors_of (gs_bitmap_start_cluster super_block) cluster_size)) (\<lambda>bitmap_start.
        bnd (lift_res (ClusterBitmap_new drive bitmap_start (sb_total_blocks (legacy_super_block super_block)))) (\<lambda>bitmap.
        let allocator = ClusterAllocator_new bitmap FirstFit;
            mm = MftManager_new drive (gs_mft_start_cluster super_block) cluster_size
        in
        bnd (lift_res (sectors_of (gs_journal_start_cluster super_block) cluster_size)) (\<lambda>journal_start.
        bnd (lift_res (sectors_of (gs_journal_size_clusters super_block) cluster_size)) (\<lambda>journal_size.
        let jm = JournalManager_new drive journal_start journal_size in
        bnd (recover B jm) (\<lambda>_.
        let fm = FileRecordManager_new mm (JournalManager_clone jm);
            bt = BTreeManager_new drive 0 (gs_index_allocation_start super_block) cluster_size
        in
        bnd (verify_root B bt) (\<lambda>_.
          ret \<lparr>gf_super_block = super_block, gf_mft_manager = mm, gf_journal_manager = jm, gf_file_manager = fm,
               gf_btree_manager = bt, gf_allocator = allocator, gf_drive = drive\<rparr>)))))))))"


section \<open>Operations\<close>

definition with_files :: "(FileRecordManager, 'v, 'a) meth \<Rightarrow> (GalleonFilesystem, 'v, 'a) meth" where
  "with_files m = zoom gf_file_manager (\<lambda>x s. s\<lparr>gf_file_manager := x\<rparr>) m"

definition with_btree :: "(BTreeManager, 'v, 'a) meth \<Rightarrow> (GalleonFilesystem, 'v, 'a) meth" where
  "with_btree m = zoom gf_btree_manager (\<lambda>x s. s\<lparr>gf_btree_manager := x\<rparr>) m"

definition with_allocator :: "(ClusterAllocator, 'v, 'a) meth \<Rightarrow> (GalleonFilesystem, 'v, 'a) meth" where
  "with_allocator m = zoom gf_allocator (\<lambda>x s. s\<lparr>gf_allocator := x\<rparr>) m"

definition GalleonFilesystem_create_file :: "nat \<Rightarrow> 'v bdev \<Rightarrow> FileRecordNumber \<Rightarrow> bytes \<Rightarrow> bytes option
    \<Rightarrow> (GalleonFilesystem, 'v, FileRecordNumber) meth" where
  "GalleonFilesystem_create_file n B parent_dir name data =
     bnd (with_files (create_file B parent_dir name data)) (\<lambda>rn.
     let file_name = FileName_new parent_dir name False in
     bnd (with_btree (BTreeManager_insert n B (fn_name file_name) rn file_name)) (\<lambda>_.
       ret rn))"

definition GalleonFilesystem_create_directory :: "nat \<Rightarrow> 'v bdev \<Rightarrow> FileRecordNumber \<Rightarrow> bytes
    \<Rightarrow> (GalleonFilesystem, 'v, FileRecordNumber) meth" where
  "GalleonFilesystem_create_directory n B parent_dir name =
     bnd (with_files (create_directory B parent_dir)) (\<lambda>dir_record.
     let file_name = FileName_new parent_dir name True in
     bnd (with_btree (BTreeManager_insert n B (fn_name file_name) dir_record file_name)) (\<lambda>_.
       ret dir_record))"

definition GalleonFilesystem_read_file :: "'v bdev \<Rightarrow> FileRecordNumber \<Rightarrow> (GalleonFilesystem, 'v, bytes) meth" where
  "GalleonFilesystem_read_file B rn = with_files (read_file B rn)"

definition GalleonFilesystem_write_file :: "'v bdev \<Rightarrow> FileRecordNumber \<Rightarrow> bytes \<Rightarrow> (GalleonFilesystem, 'v, unit) meth" where
  "GalleonFilesystem_write_file B rn data = with_files (write_file B rn data)"

definition GalleonFilesystem_delete_file :: "nat \<Rightarrow> 'v bdev \<Rightarrow> FileRecordNumber \<Rightarrow> bytes \<Rightarrow> (GalleonFilesystem, 'v, unit) meth" where
  "GalleonFilesystem_delete_file n B rn name =
     bnd (gets gf_btree_manager) (\<lambda>bt.
     bnd (io (BTreeManager_delete n B bt name)) (\<lambda>_.
     bnd (with_allocator (deallocate_all_clusters B rn)) (\<lambda>_.
       with_files (delete_file B rn))))"

definition GalleonFilesystem_list_directory :: "nat \<Rightarrow> 'v bdev \<Rightarrow> GalleonFilesystem \<Rightarrow> ('v, (bytes \<times> FileRecordNumber) list) fs" where
  "GalleonFilesystem_list_directory n B self = BTreeManager_list_directory n B (gf_btree_manager self)"

definition GalleonFilesystem_find_file :: "nat \<Rightarrow> 'v bdev \<Rightarrow> GalleonFilesystem \<Rightarrow> bytes \<Rightarrow> ('v, FileRecordNumber option) fs" where
  "GalleonFilesystem_find_file n B self name = BTreeManager_search n B (gf_btree_manager self) name"

definition get_btree_diag :: "GalleonFilesystem \<Rightarrow> (fs_error, u64 \<times> u32 \<times> u64 \<times> u64 \<times> u8) res" where
  "get_btree_diag self =
     (let index_allocation_start = gs_index_allocation_start (gf_super_block self);
          cluster_size = gs_cluster_size (gf_super_block self)
      in bind_res (sectors_of index_allocation_start cluster_size) (\<lambda>sector_start.
           Ok (index_allocation_start, cluster_size, index_allocation_start, sector_start, 8)))"

record FilesystemStats =
  total_space :: u64
  free_space :: u64
  used_space :: u64
  fst_cluster_size :: u32
  fst_total_clusters :: u64

definition get_stats :: "'v bdev \<Rightarrow> (GalleonFilesystem, 'v, FilesystemStats) meth" where
  "get_stats B =
     bnd (with_allocator (get_free_space B)) (\<lambda>free.
     bnd (gets gf_super_block) (\<lambda>sb.
     bnd (lift_res (mul_ck (sb_total_blocks (legacy_super_block sb)) (as_u64 (gs_cluster_size sb)))) (\<lambda>tot.
     bnd (lift_res (sub_ck tot free)) (\<lambda>used.
       ret \<lparr>total_space = tot, free_space = free, used_space = used, fst_cluster_size = gs_cluster_size sb,
            fst_total_clusters = sb_total_blocks (legacy_super_block sb)\<rparr>))))"

definition GalleonFilesystem_defragment :: "'v bdev \<Rightarrow> (GalleonFilesystem, 'v, unit) meth" where
  "GalleonFilesystem_defragment B =
     for_each (\<lambda>rn. bnd (attempt (with_allocator (defragment_file B rn))) (\<lambda>_. ret ())) (u64_range 10 1000)"

definition GalleonFilesystem_sync :: "'v bdev \<Rightarrow> (GalleonFilesystem, 'v, unit) meth" where
  "GalleonFilesystem_sync B =
     bnd (with_allocator (on_bitmap (flush_bitmap B))) (\<lambda>_.
       modify (\<lambda>self. self\<lparr>gf_journal_manager := cleanup_completed_transactions (gf_journal_manager self)\<rparr>))"

text \<open>\<^verbatim>\<open>zero_out_sectors\<close> of \<^verbatim>\<open>fs.rs\<close>, which writes from a buffer of 50 sectors.\<close>

definition zero_out_sectors :: "'v bdev \<Rightarrow> u8 \<Rightarrow> u64 \<Rightarrow> u8 \<Rightarrow> ('v, ide_error, unit) prog" where
  "zero_out_sectors B drive start_sector sector_count =
     bd_write B drive sector_count (as_u32 start_sector) (replicate (50 * 512) 0)"

section \<open>The super block on disk\<close>

lemma length_GalleonSuperBlock_serialize:
  "length (sb_magic (legacy_super_block s)) = 64 \<Longrightarrow> length (GalleonSuperBlock_serialize s) = 512"
  by (simp add: GalleonSuperBlock_serialize_def Let_def)

lemma legacy_fields:
  assumes "length (sb_magic (legacy_super_block s)) = 64"
  shows "from_sector (GalleonSuperBlock_serialize s) = legacy_super_block s"
    "is_valid (GalleonSuperBlock_serialize s) \<longleftrightarrow> sb_magic (legacy_super_block s) = EXPECTED_MAGIC"
proof -
  let ?a = "as_sector (legacy_super_block s)"
  have w: "window n i (GalleonSuperBlock_serialize s) = window n i ?a" if "i + n \<le> 256" for n i
    using that assms by (simp add: GalleonSuperBlock_serialize_def Let_def)
  have "from_sector (GalleonSuperBlock_serialize s) = from_sector ?a"
    by (simp add: from_sector_def get_le_def w)
  then show "from_sector (GalleonSuperBlock_serialize s) = legacy_super_block s" by (simp add: from_as_sector assms)
  show "is_valid (GalleonSuperBlock_serialize s) \<longleftrightarrow> sb_magic (legacy_super_block s) = EXPECTED_MAGIC"
    using is_valid_as_sector [OF assms] by (simp add: is_valid_def w)
qed

lemma GalleonSuperBlock_roundtrip:
  assumes "length (sb_magic (legacy_super_block s)) = 64" "gs_cluster_size s \<noteq> 0" "gs_cluster_size s \<le> 65536"
    "gs_mft_start_cluster s \<noteq> 0"
  shows "GalleonSuperBlock_deserialize (GalleonSuperBlock_serialize s) = Ok s"
  using assms legacy_fields(1) [OF assms(1)] length_GalleonSuperBlock_serialize [OF assms(1)]
  unfolding GalleonSuperBlock_deserialize_def Let_def
  by (simp add: not_less) (simp add: GalleonSuperBlock_serialize_def Let_def)


section \<open>The layout\<close>

text \<open>The sizes of the table and the journal for a volume of \<open>t\<close> clusters of 4096 bytes.\<close>

definition mft_clusters :: "nat \<Rightarrow> nat" where
  "mft_clusters t = max 16 (min 256 (t div 128))"

definition journal_clusters :: "nat \<Rightarrow> nat" where
  "journal_clusters t = max 8 (min 64 (t div 256))"

definition bitmap_clusters :: "nat \<Rightarrow> nat" where
  "bitmap_clusters t = max 1 ((t + 32767) div 32768)"

definition bitmap_at :: "nat \<Rightarrow> nat" where
  "bitmap_at t = 16 + mft_clusters t + mft_clusters t div 4 + journal_clusters t"

definition index_at :: "nat \<Rightarrow> nat" where
  "index_at t = bitmap_at t + bitmap_clusters t"

lemma unat_clamp:
  assumes "lo \<le> hi"
  shows "unat (clamp x lo hi) = max (unat lo) (min (unat hi) (unat x))"
  using assms by (auto simp: clamp_def word_le_nat_alt word_less_nat_alt)

lemma layout_bounds:
  "16 \<le> mft_clusters t" "mft_clusters t \<le> 256" "8 \<le> journal_clusters t" "journal_clusters t \<le> 64"
  "44 \<le> bitmap_at t" "bitmap_at t \<le> 400" "1 \<le> bitmap_clusters t"
proof -
  show m: "16 \<le> mft_clusters t" "mft_clusters t \<le> 256" "8 \<le> journal_clusters t" "journal_clusters t \<le> 64" "1 \<le> bitmap_clusters t"
    by (simp_all add: mft_clusters_def journal_clusters_def bitmap_clusters_def)
  have "16 div 4 \<le> mft_clusters t div 4" "mft_clusters t div 4 \<le> 256 div 4" using m by (auto intro: div_le_mono)
  then show "44 \<le> bitmap_at t" "bitmap_at t \<le> 400" using m by (simp_all add: bitmap_at_def)
qed

text \<open>The system area and the 100 clusters reserved behind it fit exactly from 145 clusters on.\<close>

lemma layout_fits: "index_at t + 100 \<le> t \<longleftrightarrow> 145 \<le> t"
proof (cases "t < 2048")
  case True
  then have "t div 128 < 16" "t div 256 < 8" "(t + 32767) div 32768 \<le> 1"
    by (simp_all add: div_less_iff_less_mult less_mult_imp_div_less)
  then have "index_at t = 45"
    by (simp add: index_at_def bitmap_at_def mft_clusters_def journal_clusters_def bitmap_clusters_def)
  then show ?thesis by simp
next
  case False
  have d: "128 * (t div 128) \<le> t" "256 * (t div 256) \<le> t" "32768 * ((t + 32767) div 32768) \<le> t + 32767"
    by (rule times_div_less_eq_dividend)+
  have "4 * (mft_clusters t div 4) \<le> mft_clusters t" by (rule times_div_less_eq_dividend)
  moreover have "mft_clusters t \<le> 16 + t div 128" "journal_clusters t \<le> 8 + t div 256" "bitmap_clusters t \<le> 1 + (t + 32767) div 32768"
    by (simp_all add: mft_clusters_def journal_clusters_def bitmap_clusters_def)
  ultimately have "index_at t + 100 \<le> t" using False d unfolding index_at_def bitmap_at_def by linarith
  with False show ?thesis by simp
qed

lemma layout:
  assumes "unat T < 2 ^ 60"
  obtains sb where "GalleonSuperBlock_new T 4096 = Ok sb" "legacy_super_block sb = SuperBlock_new 4096 T 5"
    "gs_mft_start_cluster sb = 16" "unat (gs_mft_mirror_cluster sb) = 16 + mft_clusters (unat T)"
    "unat (gs_journal_start_cluster sb) = 16 + mft_clusters (unat T) + mft_clusters (unat T) div 4"
    "unat (gs_journal_size_clusters sb) = journal_clusters (unat T)"
    "unat (gs_bitmap_start_cluster sb) = bitmap_at (unat T)" "unat (gs_bitmap_size_clusters sb) = bitmap_clusters (unat T)"
    "unat (gs_index_allocation_start sb) = index_at (unat T)" "gs_cluster_size sb = 4096"
proof -
  let ?t = "unat T"
  note b = layout_bounds [of ?t]
  define m where "m = clamp (T div 128) 16 256"
  define j where "j = clamp (T div 256) 8 64"
  have m: "unat m = mft_clusters ?t" and j: "unat j = journal_clusters ?t"
    by (simp_all add: m_def j_def unat_clamp mft_clusters_def journal_clusters_def unat_div word_le_nat_alt)
  define mi where "mi = 16 + m"
  define js where "js = mi + m div 4"
  define bs where "bs = js + j"
  have mi: "unat mi = 16 + mft_clusters ?t" using b m by (simp add: mi_def unat_add_no_wrap)
  have q: "mft_clusters ?t div 4 \<le> 256 div 4" using b(2) by (rule div_le_mono)
  have js: "unat js = 16 + mft_clusters ?t + mft_clusters ?t div 4"
    using b q m mi by (simp add: js_def unat_add_no_wrap unat_div)
  have bs: "unat bs = bitmap_at ?t" using b q js j by (simp add: bs_def unat_add_no_wrap bitmap_at_def)
  define n where "n = T + 32768 - 1"
  have n: "add_ck T 32768 = (Ok (T + 32768) :: (fs_error, u64) res)" "sub_ck (T + 32768) 1 = (Ok n :: (fs_error, u64) res)"
    "unat n = ?t + 32767"
    using assms by (simp_all add: add_ck_def sub_ck_def n_def word_le_nat_alt unat_sub unat_add_no_wrap)
  define z where "z = max (n div 32768) 1"
  have z: "unat z = bitmap_clusters ?t"
    using n(3) by (auto simp: z_def bitmap_clusters_def max_def word_le_nat_alt unat_div)
  have zb: "bitmap_clusters ?t \<le> 2 ^ 60"
  proof -
    have "(?t + 32767) div 32768 \<le> ?t + 32767" by (rule div_le_dividend)
    moreover have "(?t + 32767) div 32768 \<le> (2 ^ 60 + 32767) div 32768" using assms by (intro div_le_mono) simp
    ultimately show ?thesis by (simp add: bitmap_clusters_def)
  qed
  have i: "add_ck bs z = (Ok (bs + z) :: (fs_error, u64) res)" "unat (bs + z) = index_at ?t"
    using b(6) zb bs z by (simp_all add: add_ck_def unat_add_no_wrap index_at_def)
  define sb where "sb = \<lparr>legacy_super_block = SuperBlock_new 4096 T MFT_RECORD_ROOT,
      gs_mft_start_cluster = 16, gs_mft_mirror_cluster = mi, gs_journal_start_cluster = js, gs_journal_size_clusters = j,
      gs_bitmap_start_cluster = bs, gs_bitmap_size_clusters = z, gs_index_allocation_start = bs + z, gs_cluster_size = 4096\<rparr>"
  have cb: "8 * as_u64 (4096 :: u32) = 32768" by simp
  have "GalleonSuperBlock_new T 4096 = Ok sb"
    unfolding GalleonSuperBlock_new_def Let_def cb n(1,2) bind_res.simps m_def [symmetric] j_def [symmetric] mi_def [symmetric]
      js_def [symmetric] bs_def [symmetric] z_def [symmetric] i(1)
    by (simp add: sb_def)
  then show ?thesis
    by (rule that) (simp_all add: sb_def MFT_RECORD_ROOT_def mi js j bs z i(2))
qed

section \<open>Formatting\<close>

lemma wp_run_on:
  "wp (run_on s m) w Q \<longleftrightarrow> wp m (s, w) (\<lambda>r t. case r of Ok x \<Rightarrow> Q (Ok (fst t)) (snd t) | Err e \<Rightarrow> Q (Err e) (snd t) | Panic \<Rightarrow> Q Panic (snd t))"
  by (auto simp: wp_def run_on_def split: prod.splits res.splits)

lemma writable_new: "writable (MftRecord_new rn)"
proof -
  have "MftRecord_serialize (MftRecord_new rn) = Ok (record_header_bytes (mr_header (MftRecord_new rn)) @ replicate 14 0
      @ attr_bytes (MftRecord_new rn) @ to_le_bytes (0xFFFFFFFF :: u32) @ replicate (964 - length (attr_bytes (MftRecord_new rn))) 0)"
    by (rule MftRecord_serialize_any) (simp_all add: MftRecord_new_def MftRecordHeader_new_def header_ok_def FILE_SIGNATURE_def MFT_RECORD_SIZE_def)
  moreover have "length (record_header_bytes (mr_header (MftRecord_new rn))) = 42"
    by (rule length_record_header_bytes) (simp add: MftRecord_new_def MftRecordHeader_new_def FILE_SIGNATURE_def)
  ultimately show ?thesis by (simp add: writable_def MftRecord_new_def MFT_RECORD_SIZE_def)
qed

text \<open>The sectors that a format of a volume with \<open>t\<close> clusters writes.\<close>

definition format_writes :: "nat \<Rightarrow> nat set" where
  "format_writes t = {0} \<union> {128..<144} \<union> {8 * bitmap_at t..<8 * bitmap_at t + 8 * bitmap_clusters t}
     \<union> {8 * index_at t..<8 * index_at t + 8}"

definition fs_bitmap :: "u8 \<Rightarrow> u64 \<Rightarrow> ClusterBitmap" where
  "fs_bitmap d T = \<lparr>bm_drive = d, bitmap_start_sector = of_nat (8 * bitmap_at (unat T)),
     bitmap_size_sectors = ((T + 7) div 8 + 511) div 512, bm_total_clusters = T, clusters_per_sector = 4096,
     cached_bitmap = None, bm_dirty = False\<rparr>"

definition system_area :: "nat \<Rightarrow> nat list" where
  "system_area t = [0..<index_at t + 100]"

definition formatted :: "('v \<Rightarrow> u8 \<Rightarrow> bool) \<Rightarrow> ('v \<Rightarrow> u8 \<Rightarrow> store) \<Rightarrow> u8 \<Rightarrow> u64 \<Rightarrow> GalleonFilesystem \<Rightarrow> 'v world \<Rightarrow> 'v world \<Rightarrow> bool" where
  "formatted ready sec d T fs w w' \<longleftrightarrow> (\<exists>v. w' = w\<lparr>dev := v\<rparr>) \<and> ready (dev w') = ready (dev w)
     \<and> GalleonSuperBlock_new T 4096 = Ok (gf_super_block fs) \<and> gf_drive fs = d
     \<and> sec (dev w') d 0 = GalleonSuperBlock_serialize (gf_super_block fs)
     \<and> gf_mft_manager fs = MftManager_new d 16 4096
     \<and> stored sec (gf_mft_manager fs) (MftRecord_new 0) (dev w') \<and> stored sec (gf_mft_manager fs) (MftRecord_new MFT_RECORD_ROOT) (dev w')
     \<and> gf_file_manager fs = FileRecordManager_new (gf_mft_manager fs) (gf_journal_manager fs)
     \<and> gf_journal_manager fs = JournalManager_new d (journal_start_sector (gf_journal_manager fs)) (journal_size_sectors (gf_journal_manager fs))
     \<and> unat (journal_start_sector (gf_journal_manager fs)) = 8 * (16 + mft_clusters (unat T) + mft_clusters (unat T) div 4)
     \<and> unat (journal_size_sectors (gf_journal_manager fs)) = 8 * journal_clusters (unat T)
     \<and> gf_btree_manager fs = BTreeManager_new d 0 (of_nat (index_at (unat T))) 4096
     \<and> node_bytes (sec (dev w') d) (gf_btree_manager fs) 0 = IndexNode_serialize (empty_root 0)
     \<and> allocated_runs (gf_allocator fs) = Map.empty
     \<and> al_bitmap (gf_allocator fs) = (fs_bitmap d T)\<lparr>cached_bitmap :=
          Some (fold mark (system_area (unat T)) (bm_disk sec (fs_bitmap d T) (dev w)))\<rparr>
     \<and> bm_disk sec (fs_bitmap d T) (dev w') = fold mark (system_area (unat T)) (bm_disk sec (fs_bitmap d T) (dev w))
     \<and> (\<forall>e k. e \<noteq> d \<or> k \<notin> format_writes (unat T) \<longrightarrow> sec (dev w') e k = sec (dev w) e k)"

lemma fs_bitmap_size:
  assumes "unat T \<le> 1044480"
  shows "unat (bitmap_size_sectors (fs_bitmap d T)) = ((unat T + 7) div 8 + 511) div 512"
    "unat T \<le> 4096 * unat (bitmap_size_sectors (fs_bitmap d T))"
    "unat (bitmap_size_sectors (fs_bitmap d T)) \<le> 8 * bitmap_clusters (unat T)"
    "unat (bitmap_size_sectors (fs_bitmap d T)) < 256"
    "unat (bitmap_start_sector (fs_bitmap d T)) = 8 * bitmap_at (unat T)"
proof -
  let ?t = "unat T"
  have a: "unat (T + 7) = ?t + 7" using assms by (simp add: unat_add_no_wrap)
  have "(?t + 7) div 8 \<le> (1044480 + 7) div 8" using assms by (intro div_le_mono) simp
  then have b: "unat ((T + 7) div 8 + 511) = (?t + 7) div 8 + 511"
    using a by (simp add: unat_add_no_wrap unat_div)
  show s: "unat (bitmap_size_sectors (fs_bitmap d T)) = ((?t + 7) div 8 + 511) div 512"
    by (simp add: fs_bitmap_def unat_div b)
  define q where "q = (?t + 7) div 8"
  define z where "z = (q + 511) div 512"
  define c where "c = (?t + 32767) div 32768"
  have q: "8 * q + (?t + 7) mod 8 = ?t + 7" "(?t + 7) mod 8 < 8" by (simp_all add: q_def)
  have z: "512 * z + (q + 511) mod 512 = q + 511" "(q + 511) mod 512 < 512" by (simp_all add: z_def)
  have c: "32768 * c + (?t + 32767) mod 32768 = ?t + 32767" "(?t + 32767) mod 32768 < 32768" by (simp_all add: c_def)
  have sz: "unat (bitmap_size_sectors (fs_bitmap d T)) = z" by (simp add: s z_def q_def)
  show "?t \<le> 4096 * unat (bitmap_size_sectors (fs_bitmap d T))" unfolding sz using q z by linarith
  have "z \<le> 8 * c"
  proof (rule ccontr)
    assume "\<not> z \<le> 8 * c"
    then have "8 * c + 1 \<le> z" by simp
    then have "4096 * c + 512 \<le> 512 * z" by linarith
    moreover have "512 * z \<le> q + 511" "8 * q \<le> ?t + 7" unfolding z_def q_def by (rule times_div_less_eq_dividend)+
    moreover have "?t \<le> 32768 * c" using c by linarith
    ultimately have "4096 * c + 1 \<le> q" "8 * q \<le> 32768 * c + 7" by linarith+
    then show False by linarith
  qed
  moreover have "c \<le> bitmap_clusters ?t" by (simp add: bitmap_clusters_def c_def)
  ultimately show "unat (bitmap_size_sectors (fs_bitmap d T)) \<le> 8 * bitmap_clusters ?t" unfolding sz by linarith
  have "z \<le> ((1044480 + 7) div 8 + 511) div 512" unfolding z_def q_def using assms by (intro div_le_mono add_le_mono) simp_all
  then show "unat (bitmap_size_sectors (fs_bitmap d T)) < 256" unfolding sz by simp
  show "unat (bitmap_start_sector (fs_bitmap d T)) = 8 * bitmap_at ?t"
    using layout_bounds(6) [of ?t] by (simp only: fs_bitmap_def ClusterBitmap.simps) (rule unat_of_nat_small, simp)
qed

lemma index_at_small:
  assumes "unat T \<le> 1044480"
  shows "index_at (unat T) \<le> 432"
proof -
  have "(unat T + 32767) div 32768 \<le> (1044480 + 32767) div 32768" using assms by (intro div_le_mono) simp
  then show ?thesis using layout_bounds(6) [of "unat T"] by (simp add: index_at_def bitmap_clusters_def)
qed

lemma fs_bitmap_wf:
  assumes "unat T \<le> 1044480" "0 < unat T"
  shows "bm_wf (fs_bitmap d T)"
proof -
  note s = fs_bitmap_size [OF assms(1), of d]
  have "0 < unat (bitmap_size_sectors (fs_bitmap d T))" using s(2) assms(2) by linarith
  moreover have "unat (bitmap_start_sector (fs_bitmap d T)) + unat (bitmap_size_sectors (fs_bitmap d T)) \<le> 2 ^ 28"
    using s(4,5) layout_bounds(6) [of "unat T"] by simp
  moreover have "bm_total_clusters (fs_bitmap d T) = T" "cached_bitmap (fs_bitmap d T) = None" by (simp_all add: fs_bitmap_def)
  ultimately show ?thesis using s(2,4) by (simp add: bm_wf_def word_less_nat_alt)
qed

lemma ClusterBitmap_new_fs:
  assumes "unat T \<le> 1044480" "unat b = 8 * bitmap_at (unat T)"
  shows "ClusterBitmap_new d b T = Ok (fs_bitmap d T)"
proof -
  have "(unat T + 7) div 8 \<le> (1044480 + 7) div 8" using assms(1) by (intro div_le_mono) simp
  moreover have "unat (T + 7) = unat T + 7" using assms(1) by (simp add: unat_add_no_wrap)
  moreover have "b = of_nat (8 * bitmap_at (unat T))" using assms(2) by (simp flip: assms(2) del: of_nat_mult)
  ultimately show ?thesis
    using assms(1) by (simp add: ClusterBitmap_new_def Let_def add_ck_def unat_div fs_bitmap_def)
qed

text \<open>\<open>same_but\<close>: two device states differ at most in the given sectors of one drive.\<close>

definition same_but :: "('v \<Rightarrow> u8 \<Rightarrow> store) \<Rightarrow> u8 \<Rightarrow> nat set \<Rightarrow> 'v \<Rightarrow> 'v \<Rightarrow> bool" where
  "same_but sec d S v v' \<longleftrightarrow> (\<forall>e k. e \<noteq> d \<or> k \<notin> S \<longrightarrow> sec v' e k = sec v e k)"

lemma same_but_trans:
  "same_but sec d S v v' \<Longrightarrow> same_but sec d R v' v'' \<Longrightarrow> same_but sec d (S \<union> R) v v''"
  by (auto simp: same_but_def)

lemma same_but_mono: "same_but sec d S v v' \<Longrightarrow> S \<subseteq> R \<Longrightarrow> same_but sec d R v v'"
  by (auto simp: same_but_def)

lemma same_but_write:
  "sec v' = (sec v)(d := write_sectors (sec v d) a n bs) \<Longrightarrow> same_but sec d {a..<a + n} v v'"
  by (auto simp: same_but_def)

lemma same_but_read:
  "same_but sec d S v v' \<Longrightarrow> {a..<a + n} \<inter> S = {} \<Longrightarrow> read_sectors (sec v' e) a n = read_sectors (sec v e) a n"
  by (rule read_sectors_cong) (auto simp: same_but_def disjoint_iff)

lemma stored_frame:
  assumes "stored sec mm r v" "same_but sec d S v v'"
    "{rec_sector mm (mr_record_number r)..<rec_sector mm (mr_record_number r) + 8} \<inter> S = {}"
  shows "stored sec mm r v'"
  using assms(1) same_but_read [OF assms(2,3)] by (simp add: stored_def disk_record_def)

lemma mark_run_from_0: "mark_run_used B (ClusterRun_new 0 n) = for_each (set_cluster_used B) (u64_range 0 n)"
  using unsigned_less [of n, where 'a = nat] by (simp add: mark_run_used_def ClusterRun_new_def add_ck_def fun_eq_iff)

context block_device
begin

text \<open>Marking the system area loads the bitmap, sets its bits and writes it back.\<close>

lemma wp_mark_system:
  assumes T: "145 \<le> unat T" "unat T \<le> 1044480" and "ready (dev w) d" and n: "unat n = index_at (unat T) + 100"
    and Q: "\<And>v. ready v = ready (dev w) \<Longrightarrow>
      bm_disk sec (fs_bitmap d T) v = fold mark (system_area (unat T)) (bm_disk sec (fs_bitmap d T) (dev w)) \<Longrightarrow>
      same_but sec d {8 * bitmap_at (unat T)..<8 * bitmap_at (unat T) + 8 * bitmap_clusters (unat T)} (dev w) v \<Longrightarrow>
      Q (Ok ((ClusterAllocator_new (fs_bitmap d T) FirstFit)\<lparr>al_bitmap := (fs_bitmap d T)\<lparr>cached_bitmap :=
          Some (fold mark (system_area (unat T)) (bm_disk sec (fs_bitmap d T) (dev w)))\<rparr>\<rparr>)) (w\<lparr>dev := v\<rparr>)"
  shows "wp (run_on (ClusterAllocator_new (fs_bitmap d T) FirstFit)
            (bnd (for_each (\<lambda>cluster. on_bitmap (set_cluster_used B cluster)) (u64_range 0 n)) (\<lambda>_.
              on_bitmap (flush_bitmap B)))) w Q"
proof -
  let ?s = "fs_bitmap d T" and ?r = "ClusterRun_new 0 n"
  let ?b = "bm_disk sec ?s (dev w)" and ?c = "fold mark (system_area (unat T)) (bm_disk sec (fs_bitmap d T) (dev w))"
  have wf: "bm_wf ?s" using T by (intro fs_bitmap_wf) simp_all
  have drive [simp]: "bm_drive ?s = d" "bm_total_clusters ?s = T" by (simp_all add: fs_bitmap_def)
  have view: "bm_view sec ?s (dev w) = ?b" "bm_loaded ?s ?b = ?s\<lparr>cached_bitmap := Some ?b\<rparr>"
    by (simp_all add: bm_view_def bm_loaded_def fs_bitmap_def)
  have r: "wf_run ?r" "run_end ?r = index_at (unat T) + 100"
    using n T(2) layout_fits [of "unat T"] T(1) by (simp_all add: wf_run_def run_end_def ClusterRun_new_def word_less_nat_alt)
  have len: "length ?c = unat (bitmap_size_sectors ?s) * 512" by simp
  have flush: "wp (flush_bitmap B) (?s\<lparr>cached_bitmap := Some ?c, bm_dirty := True\<rparr>, w\<lparr>dev := v\<rparr>)
      (\<lambda>r t. case r of Ok x \<Rightarrow> Q (Ok ((ClusterAllocator_new ?s FirstFit)\<lparr>al_bitmap := fst t\<rparr>)) (snd t)
        | Err e \<Rightarrow> Q (Err e) (snd t) | Panic \<Rightarrow> Q Panic (snd t))"
    if v: "sec v = sec (dev w)" "ready v = ready (dev w)" for v
  proof (rule wp_flush_bitmap)
    show "bm_wf (?s\<lparr>cached_bitmap := Some ?c, bm_dirty := True\<rparr>)" using wf len by (simp add: bm_wf_def)
    show "ready (dev (w\<lparr>dev := v\<rparr>)) (bm_drive (?s\<lparr>cached_bitmap := Some ?c, bm_dirty := True\<rparr>))" using assms(3) v by simp
    fix v'
    assume v': "ready v' = ready (dev (w\<lparr>dev := v\<rparr>))" "bm_disk sec (?s\<lparr>cached_bitmap := Some ?c, bm_dirty := True\<rparr>) v' = ?c"
      and s: "sec v' = (sec (dev (w\<lparr>dev := v\<rparr>)))(bm_drive (?s\<lparr>cached_bitmap := Some ?c, bm_dirty := True\<rparr>) :=
           write_sectors (sec (dev (w\<lparr>dev := v\<rparr>)) (bm_drive (?s\<lparr>cached_bitmap := Some ?c, bm_dirty := True\<rparr>)))
             (unat (bitmap_start_sector (?s\<lparr>cached_bitmap := Some ?c, bm_dirty := True\<rparr>)))
             (unat (bitmap_size_sectors (?s\<lparr>cached_bitmap := Some ?c, bm_dirty := True\<rparr>))) ?c)"
    have "same_but sec d {unat (bitmap_start_sector ?s)..<unat (bitmap_start_sector ?s) + unat (bitmap_size_sectors ?s)} v v'"
      using s by (intro same_but_write) simp
    then have "same_but sec d {8 * bitmap_at (unat T)..<8 * bitmap_at (unat T) + 8 * bitmap_clusters (unat T)} (dev w) v'"
      using fs_bitmap_size [OF T(2), of d] v by (auto simp: same_but_def)
    with v v' Q [of v'] show "case Ok () of
        Ok x \<Rightarrow> Q (Ok ((ClusterAllocator_new ?s FirstFit)\<lparr>al_bitmap := fst (?s\<lparr>cached_bitmap := Some ?c, bm_dirty := True\<rparr>\<lparr>bm_dirty := False\<rparr>, w\<lparr>dev := v\<rparr>\<lparr>dev := v'\<rparr>)\<rparr>))
            (snd (?s\<lparr>cached_bitmap := Some ?c, bm_dirty := True\<rparr>\<lparr>bm_dirty := False\<rparr>, w\<lparr>dev := v\<rparr>\<lparr>dev := v'\<rparr>))
      | Err e \<Rightarrow> Q (Err e) (snd (?s\<lparr>cached_bitmap := Some ?c, bm_dirty := True\<rparr>\<lparr>bm_dirty := False\<rparr>, w\<lparr>dev := v\<rparr>\<lparr>dev := v'\<rparr>))
      | Panic \<Rightarrow> Q Panic (snd (?s\<lparr>cached_bitmap := Some ?c, bm_dirty := True\<rparr>\<lparr>bm_dirty := False\<rparr>, w\<lparr>dev := v\<rparr>\<lparr>dev := v'\<rparr>))"
      by (simp add: bm_disk_def fs_bitmap_def)
  qed simp_all
  have fit: "run_end ?r \<le> unat (bm_total_clusters ?s)" using r layout_fits [of "unat T"] T(1) by simp
  have "[unat (start_cluster ?r)..<run_end ?r] = system_area (unat T)"
    by (simp only: r system_area_def) (simp add: ClusterRun_new_def)
  moreover have bm: "al_bitmap (ClusterAllocator_new ?s FirstFit) = ?s" by (simp add: ClusterAllocator_new_def)
  ultimately show ?thesis
    using flush unfolding wp_run_on wp_bnd wp_for_each_on_bitmap mark_run_from_0 [symmetric] bm
    by (intro wp_mark_run_used [OF wf _ r(1) fit]) (simp_all add: assms(3) view wp_on_bitmap ClusterAllocator_new_def cong: res.case_cong)
qed

end

context block_device
begin

lemma wp_create_system_files:
  assumes mm: "mm = MftManager_new d 16 4096" and "ready (dev w) d"
    and Q: "\<And>v. ready v = ready (dev w) \<Longrightarrow> same_but sec d {128..<144} (dev w) v \<Longrightarrow>
      stored sec mm (MftRecord_new 0) v \<Longrightarrow> stored sec mm (MftRecord_new MFT_RECORD_ROOT) v \<Longrightarrow> Q (Ok ()) (w\<lparr>dev := v\<rparr>)"
  shows "wp (create_system_files B mm) w Q"
proof -
  have s: "rec_sector mm 0 = 128" "rec_sector mm MFT_RECORD_ROOT = 136" "mm_drive mm = d"
    "mr_record_number (MftRecord_new k) = k" for k
    by (simp_all add: rec_sector_def mm MftManager_new_def MFT_RECORD_ROOT_def MftRecord_new_def)
  have ok: "mm_ok mm 0" "mm_ok mm MFT_RECORD_ROOT" using s(1,2) by (simp_all add: mm_ok_def) (simp_all add: mm MftManager_new_def)
  show ?thesis
    unfolding create_system_files_def wp_bnd
  proof (rule wp_write_stored, goal_cases)
    case (4 v)
    note first = 4
    have f: "same_but sec d {128..<136} (dev w) v" using first(4) s by (auto simp: same_but_def)
    have "wp (write_record B mm (MftRecord_new MFT_RECORD_ROOT)) (w\<lparr>dev := v\<rparr>) Q"
    proof (rule wp_write_stored, goal_cases)
      case (4 v')
      have g: "same_but sec d {136..<144} v v'" using 4(4) s by (auto simp: same_but_def)
      have "same_but sec d {128..<144} (dev w) v'" using same_but_trans [OF f g] by (rule same_but_mono) auto
      moreover have "stored sec mm (MftRecord_new 0) v'" by (rule stored_frame [OF first(2) g]) (auto simp: s)
      ultimately show ?case using Q [of v'] 4(1,2) first(1) by simp
    qed (use ok first(1) assms(2) in \<open>simp_all add: s writable_new\<close>)
    then show ?case by simp
  qed (use ok assms(2) in \<open>simp_all add: s writable_new\<close>)
qed

lemma wp_initialize_root:
  assumes bt: "bt = BTreeManager_new d 0 i 4096" and i: "unat i \<le> 1000" and "ready (dev w) d"
    and Q: "\<And>v. ready v = ready (dev w) \<Longrightarrow> same_but sec d {8 * unat i..<8 * unat i + 8} (dev w) v \<Longrightarrow>
      node_bytes (sec v d) bt 0 = IndexNode_serialize (empty_root 0) \<Longrightarrow> Q (Ok ()) (w\<lparr>dev := v\<rparr>)"
  shows "wp (initialize_btree_root B bt) w Q"
proof -
  have at: "node_at bt 0 = 8 * unat i" "bt_drive bt = d" by (simp_all add: node_at_def bt BTreeManager_new_def)
  have "node_in bt 0" using i by (simp add: node_in_def at) (simp add: bt BTreeManager_new_def)
  then show ?thesis
    unfolding initialize_btree_root_def empty_root_def [symmetric]
  proof (intro wp_write_node, goal_cases)
    case (4 v)
    have "node_bytes (sec v d) bt 0 = IndexNode_serialize (empty_root 0)"
      using 4(2) node_bytes_write_same [OF length_IndexNode_serialize, of "empty_root 0" "sec (dev w) d" bt 0] by (simp add: at(2))
    then show ?case using 4(2,3) by (intro Q) (auto simp: at intro!: same_but_write)
  qed (use assms(3) in \<open>simp_all add: at\<close>)
qed

end

text \<open>The sector numbers that \<^verbatim>\<open>format\<close> computes from the layout.\<close>

lemma sectors_of_small: "unat n \<le> 100000 \<Longrightarrow> sectors_of n 4096 = Ok (n * 8) \<and> unat (n * 8) = 8 * unat n"
  by (simp add: sectors_of_def mul_ck_def unat_mult_no_wrap)

text \<open>The value that a successful format returns, and the numbers it computes on the way.\<close>

definition fresh_fs :: "u8 \<Rightarrow> GalleonSuperBlock \<Rightarrow> ClusterAllocator \<Rightarrow> GalleonFilesystem" where
  "fresh_fs d sb al = (let mm = MftManager_new d 16 4096;
       j = JournalManager_new d (gs_journal_start_cluster sb * 8) (gs_journal_size_clusters sb * 8) in
     \<lparr>gf_super_block = sb, gf_mft_manager = mm, gf_journal_manager = j,
      gf_file_manager = FileRecordManager_new mm (JournalManager_clone j),
      gf_btree_manager = BTreeManager_new d 0 (gs_index_allocation_start sb) 4096, gf_allocator = al, gf_drive = d\<rparr>)"

definition marked_bitmap :: "u8 \<Rightarrow> u64 \<Rightarrow> bytes \<Rightarrow> ClusterAllocator" where
  "marked_bitmap d T b = (ClusterAllocator_new (fs_bitmap d T) FirstFit)\<lparr>al_bitmap := (fs_bitmap d T)\<lparr>cached_bitmap :=
     Some (fold mark (system_area (unat T)) b)\<rparr>\<rparr>"

definition layout_of :: "u64 \<Rightarrow> GalleonSuperBlock \<Rightarrow> bool" where
  "layout_of T sb \<longleftrightarrow> GalleonSuperBlock_new T 4096 = Ok sb \<and> legacy_super_block sb = SuperBlock_new 4096 T 5
     \<and> gs_mft_start_cluster sb = 16 \<and> of_nat (index_at (unat T)) = gs_index_allocation_start sb
     \<and> sectors_of (gs_bitmap_start_cluster sb) 4096 = Ok (gs_bitmap_start_cluster sb * 8)
     \<and> unat (gs_bitmap_start_cluster sb * 8) = 8 * bitmap_at (unat T)
     \<and> sectors_of (gs_journal_start_cluster sb) 4096 = Ok (gs_journal_start_cluster sb * 8)
     \<and> unat (gs_journal_start_cluster sb * 8) = 8 * (16 + mft_clusters (unat T) + mft_clusters (unat T) div 4)
     \<and> sectors_of (gs_journal_size_clusters sb) 4096 = Ok (gs_journal_size_clusters sb * 8)
     \<and> unat (gs_journal_size_clusters sb * 8) = 8 * journal_clusters (unat T)
     \<and> unat (gs_index_allocation_start sb) = index_at (unat T) \<and> unat (gs_index_allocation_start sb + 100) = index_at (unat T) + 100
     \<and> length (GalleonSuperBlock_serialize sb) = 512"

lemma layout_exists:
  assumes "unat T \<le> 1044480"
  obtains sb where "layout_of T sb"
proof -
  let ?t = "unat T"
  note b = layout_bounds [of ?t] index_at_small [OF assms]
  obtain sb where sb: "GalleonSuperBlock_new T 4096 = Ok sb" "legacy_super_block sb = SuperBlock_new 4096 T 5"
    "gs_mft_start_cluster sb = 16" "unat (gs_journal_start_cluster sb) = 16 + mft_clusters ?t + mft_clusters ?t div 4"
    "unat (gs_journal_size_clusters sb) = journal_clusters ?t"
    "unat (gs_bitmap_start_cluster sb) = bitmap_at ?t" "unat (gs_index_allocation_start sb) = index_at ?t"
    by (rule layout [of T]) (use assms in auto)
  have "length (GalleonSuperBlock_serialize sb) = 512"
    by (rule length_GalleonSuperBlock_serialize) (simp add: sb(2) SuperBlock_new_def EXPECTED_MAGIC_def)
  moreover have "of_nat (index_at ?t) = gs_index_allocation_start sb" by (simp flip: sb(7))
  moreover have "unat (gs_index_allocation_start sb + 100) = index_at ?t + 100" using b sb(7) by (simp add: unat_add_no_wrap)
  ultimately have "layout_of T sb"
    using sectors_of_small [of "gs_bitmap_start_cluster sb"] sectors_of_small [of "gs_journal_start_cluster sb"]
      sectors_of_small [of "gs_journal_size_clusters sb"] b sb by (simp add: layout_of_def bitmap_at_def)
  then show ?thesis by (rule that)
qed

context block_device
begin

lemma bitmap_untouched:
  assumes "unat T \<le> 1044480" "same_but sec d S v v'" "{8 * bitmap_at (unat T)..<8 * index_at (unat T)} \<inter> S = {}"
  shows "bm_disk sec (fs_bitmap d T) v' = bm_disk sec (fs_bitmap d T) v"
proof -
  let ?s = "fs_bitmap d T"
  have "{unat (bitmap_start_sector ?s)..<unat (bitmap_start_sector ?s) + unat (bitmap_size_sectors ?s)} \<inter> S = {}"
    using assms(3) fs_bitmap_size(3,5) [OF assms(1), of d] by (auto simp: disjoint_iff index_at_def)
  from same_but_read [OF assms(2) this] show ?thesis by (simp add: bm_disk_def)
qed

text \<open>The four groups of writes of a format: super block, bitmap, table, root node.\<close>

lemma formattedI:
  assumes T: "unat T \<le> 1044480" and sb: "layout_of T sb"
    and fs: "fs = fresh_fs d sb (marked_bitmap d T (bm_disk sec (fs_bitmap d T) v1))"
    and v1: "sec v1 = (sec (dev w))(d := (sec (dev w) d)(0 := GalleonSuperBlock_serialize sb))" "ready v1 = ready (dev w)"
    and v2: "ready v2 = ready v1" "bm_disk sec (fs_bitmap d T) v2 = fold mark (system_area (unat T)) (bm_disk sec (fs_bitmap d T) v1)"
      "same_but sec d {8 * bitmap_at (unat T)..<8 * bitmap_at (unat T) + 8 * bitmap_clusters (unat T)} v1 v2"
    and v3: "ready v3 = ready v2" "same_but sec d {128..<144} v2 v3"
      "stored sec (gf_mft_manager fs) (MftRecord_new 0) v3" "stored sec (gf_mft_manager fs) (MftRecord_new MFT_RECORD_ROOT) v3"
    and v4: "ready v4 = ready v3" "same_but sec d {8 * index_at (unat T)..<8 * index_at (unat T) + 8} v3 v4"
      "node_bytes (sec v4 d) (gf_btree_manager fs) 0 = IndexNode_serialize (empty_root 0)"
  shows "formatted ready sec d T fs w (w\<lparr>dev := v4\<rparr>)"
proof -
  let ?t = "unat T" and ?s = "fs_bitmap d T"
  have mm: "gf_mft_manager fs = MftManager_new d 16 4096" by (simp add: fs fresh_fs_def Let_def)
  have at: "44 \<le> bitmap_at ?t" "bitmap_at ?t + 1 \<le> index_at ?t" using layout_bounds [of ?t] by (simp_all add: index_at_def)
  have first: "same_but sec d {0} (dev w) v1" using v1(1) by (auto simp: same_but_def)
  have "bm_disk sec ?s v1 = bm_disk sec ?s (dev w)" using at by (intro bitmap_untouched [OF T first]) auto
  moreover have "bm_disk sec ?s v3 = bm_disk sec ?s v2" using at by (intro bitmap_untouched [OF T v3(2)]) auto
  moreover have "bm_disk sec ?s v4 = bm_disk sec ?s v3" using at by (intro bitmap_untouched [OF T v4(2)]) auto
  moreover have "same_but sec d (format_writes ?t) (dev w) v4"
    unfolding format_writes_def
    by (rule same_but_mono [OF same_but_trans [OF same_but_trans [OF same_but_trans [OF first v2(3)] v3(2)] v4(2)]]) auto
  moreover have "sec v4 d 0 = GalleonSuperBlock_serialize sb" using v1(1) v2(3) v3(2) v4(2) at by (simp add: same_but_def)
  moreover have "stored sec (gf_mft_manager fs) (MftRecord_new k) v4" if "stored sec (gf_mft_manager fs) (MftRecord_new k) v3" "k \<in> {0, 5}" for k
    using that at by (intro stored_frame [OF that(1) v4(2)]) (auto simp: mm rec_sector_def MftManager_new_def MftRecord_new_def)
  ultimately show ?thesis
    using v1(2) v2 v3 v4 sb
    by (auto simp: formatted_def same_but_def fs fresh_fs_def Let_def marked_bitmap_def layout_of_def ClusterAllocator_new_def
        JournalManager_clone_def JournalManager_new_def MFT_RECORD_ROOT_def intro!: exI [of _ v4])
qed

lemma wp_format:
  assumes "bd_size B d (dev w) = (Ok sz, dev w)" and r: "ready (dev w) d"
    and T: "T = sz div 4096" "145 \<le> unat T" "unat T \<le> 1044480"
    and Q: "\<And>fs w'. formatted ready sec d T fs w w' \<Longrightarrow> Q (Ok fs) w'"
  shows "wp (GalleonFilesystem_format B d) w Q"
proof -
  obtain sb where sb: "layout_of T sb" using layout_exists [OF T(3)] .
  have i: "add_ck (gs_index_allocation_start sb) 100 = (Ok (gs_index_allocation_start sb + 100) :: (fs_error, u64) res)"
    "unat (gs_index_allocation_start sb + 100) = index_at (unat T) + 100" "unat (gs_index_allocation_start sb) \<le> 1000"
    using sb index_at_small [OF T(3)] by (simp_all add: layout_of_def add_ck_def)
  have size: "wp (dsize B d) w R \<longleftrightarrow> R (Ok sz) w" for R using assms(1) by (simp add: wp_def on_dev_def)
  have t: "sz div as_u64 (4096 :: u32) = T" "\<not> T < 100" using T by (simp_all add: word_less_nat_alt)
  have bm: "ClusterBitmap_new d (gs_bitmap_start_cluster sb * 8) T = Ok (fs_bitmap d T)"
    using sb by (intro ClusterBitmap_new_fs [OF T(3)]) (simp add: layout_of_def)
  note steps = res.case wp_bnd wp_lift_res wp_ret sb [unfolded layout_of_def] bm i(1)
  let ?fs = "\<lambda>v1. fresh_fs d sb (marked_bitmap d T (bm_disk sec (fs_bitmap d T) v1))"
  show ?thesis
    unfolding GalleonFilesystem_format_def wp_bnd size Let_def
  proof (simp only: steps t if_False, rule wp_dwrite1, goal_cases)
    case (4 v1)
    note v1 = 4
    show ?case
    proof (simp only: steps, rule wp_mark_system [OF T(2,3) _ i(2)], goal_cases)
      case (2 v2)
      note v2 = 2
      show ?case
      proof (simp only: steps, rule wp_create_system_files [OF refl], goal_cases)
        case (2 v3)
        note v3 = 2
        show ?case
        proof (simp only: steps, rule wp_initialize_root [OF refl i(3)], goal_cases)
          case (2 v4)
          note v4 = 2
          have "formatted ready sec d T (?fs v1) w (w\<lparr>dev := v4\<rparr>)"
            using v1 v2 v3 v4 sb by (intro formattedI [OF T(3) sb refl]) (simp_all add: fresh_fs_def Let_def layout_of_def)
          then show ?case using Q [of "?fs v1"] by (simp add: steps fresh_fs_def marked_bitmap_def Let_def)
        qed (use r v1 v2 v3 in simp)
      qed (use r v1 v2 in simp)
    qed (use r v1 in simp)
  qed (use r sb in \<open>simp_all add: layout_of_def\<close>)
qed

lemma format_runs:
  assumes "ready (dev w) d" and "bd_size B d (dev w) = (Ok sz, dev w)"
    and "T = sz div 4096" and "145 \<le> unat T" and "unat T \<le> 1044480"
  shows "\<exists>fs w'. GalleonFilesystem_format B d w = (Ok fs, w') \<and> formatted ready sec d T fs w w'"
proof -
  have "wp (GalleonFilesystem_format B d) w (\<lambda>r w'. \<exists>fs. r = Ok fs \<and> formatted ready sec d T fs w w')"
    by (rule wp_format [OF assms(2,1,3-5)]) blast
  then show ?thesis by (auto simp: wp_def split: prod.splits)
qed

end

section \<open>Mounting\<close>

lemma wp_attempt:
  "wp (attempt m) w Q \<longleftrightarrow> wp m w (\<lambda>r w'. case r of Ok x \<Rightarrow> Q (Ok (Inr x)) w' | Err e \<Rightarrow> Q (Ok (Inl e)) w' | Panic \<Rightarrow> Q Panic w')"
  by (auto simp: wp_def attempt_def split: prod.splits res.splits)

text \<open>A mount keeps a root node that reads as a leaf and puts an empty leaf in the place of any other.\<close>

definition mounted_root :: "bytes \<Rightarrow> bytes" where
  "mounted_root b = (case IndexNode_deserialize b 0 of
      Ok node \<Rightarrow> if is_leaf (nd_header node) then b else IndexNode_serialize (empty_root 0)
    | _ \<Rightarrow> IndexNode_serialize (empty_root 0))"

context block_device
begin

lemma wp_verify_root:
  assumes bt: "bt = BTreeManager_new d 0 i 4096" and i: "unat i \<le> 1000" and "ready (dev w) d"
    and np: "IndexNode_deserialize (node_bytes (sec (dev w) d) bt 0) 0 \<noteq> Panic"
    and Q: "\<And>v. ready v = ready (dev w) \<Longrightarrow> same_but sec d {8 * unat i..<8 * unat i + 8} (dev w) v \<Longrightarrow>
      node_bytes (sec v d) bt 0 = mounted_root (node_bytes (sec (dev w) d) bt 0) \<Longrightarrow> Q (Ok ()) (w\<lparr>dev := v\<rparr>)"
  shows "wp (verify_root B bt) w Q"
proof -
  let ?b = "node_bytes (sec (dev w) d) bt 0"
  have at: "node_at bt 0 = 8 * unat i" "bt_drive bt = d" by (simp_all add: node_at_def bt BTreeManager_new_def)
  have nin: "node_in bt 0" using i by (simp add: node_in_def at) (simp add: bt BTreeManager_new_def)
  have init: "wp (bnd (initialize_btree_root B bt) (\<lambda>_. bnd (read_node B bt 0) (\<lambda>node. ret ()))) (w\<lparr>dev := v\<rparr>) Q"
    if v: "sec v = sec (dev w)" "ready v = ready (dev w)" and root: "mounted_root ?b = IndexNode_serialize (empty_root 0)" for v
    unfolding wp_bnd
  proof (rule wp_initialize_root [OF bt i], goal_cases)
    case (2 v')
    have "wp (read_node B bt 0) (w\<lparr>dev := v'\<rparr>) (\<lambda>r w'. case r of Ok x \<Rightarrow> Q (Ok ()) w' | Err e \<Rightarrow> Q (Err e) w' | Panic \<Rightarrow> Q Panic w')"
    proof (rule wp_read_node, goal_cases)
      case (3 v'')
      have s: "sec v'' = sec v'" "ready v'' = ready (dev w)" using 3 2(1) v(2) by simp_all
      have "same_but sec d {8 * unat i..<8 * unat i + 8} (dev w) v''" using 2(2) s v by (simp add: same_but_def)
      moreover have "node_bytes (sec v'' d) bt 0 = mounted_root ?b" using 2(3) root unfolding s by (simp only:)
      ultimately have "Q (Ok ()) (w\<lparr>dev := v''\<rparr>)" using s(2) by (intro Q)
      moreover have "IndexNode_deserialize (node_bytes (sec v' d) bt 0) 0 = Ok ((empty_root 0)\<lparr>nd_vcn := 0\<rparr>)"
        by (simp only: 2(3) empty_root_reads)
      ultimately show ?case by (simp add: at)
    qed (use 2 v assms(3) nin in \<open>simp_all add: at\<close>)
    then show ?case unfolding res.case wp_bnd wp_ret by simp
  qed (use v assms(3) in simp)
  have "wp (read_node B bt 0) w (\<lambda>r w'. case r of
      Ok node \<Rightarrow> wp (if \<not> is_leaf (nd_header node) then bnd (initialize_btree_root B bt) (\<lambda>_. bnd (read_node B bt 0) (\<lambda>node. ret ())) else ret ()) w' Q
    | Err e \<Rightarrow> wp (bnd (initialize_btree_root B bt) (\<lambda>_. bnd (read_node B bt 0) (\<lambda>node. ret ()))) w' Q | Panic \<Rightarrow> Q Panic w')"
  proof (rule wp_read_node, goal_cases)
    case (3 v)
    have keep: "Q (Ok ()) (w\<lparr>dev := v\<rparr>)" if "mounted_root ?b = ?b"
      using 3 that by (intro Q) (simp_all add: same_but_def)
    show ?case using 3 np init [of v] keep
      by (cases "IndexNode_deserialize ?b 0") (auto simp: at wp_ret mounted_root_def)
  qed (use assms(3) nin in \<open>simp_all add: at\<close>)
  then show ?thesis by (simp add: verify_root_def wp_bnd wp_attempt wp_ret Let_def cong: res.case_cong)
qed

end

text \<open>What is mounted: the managers of the layout, the bitmap not yet loaded.\<close>

definition mounted_fs :: "u8 \<Rightarrow> u64 \<Rightarrow> GalleonSuperBlock \<Rightarrow> GalleonFilesystem" where
  "mounted_fs d T sb = fresh_fs d sb (ClusterAllocator_new (fs_bitmap d T) FirstFit)"

lemma layout_of_reads:
  assumes "layout_of T sb"
  shows "is_valid (GalleonSuperBlock_serialize sb)" "GalleonSuperBlock_deserialize (GalleonSuperBlock_serialize sb) = Ok sb"
    "gs_cluster_size sb = 4096" "sb_total_blocks (legacy_super_block sb) = T"
proof -
  have l: "length (sb_magic (legacy_super_block sb)) = 64" "sb_magic (legacy_super_block sb) = EXPECTED_MAGIC"
    using assms by (simp_all add: layout_of_def SuperBlock_new_def EXPECTED_MAGIC_def)
  then show "is_valid (GalleonSuperBlock_serialize sb)" by (simp add: legacy_fields(2))
  show c: "gs_cluster_size sb = 4096" "sb_total_blocks (legacy_super_block sb) = T"
    using assms by (auto simp: layout_of_def GalleonSuperBlock_new_def SuperBlock_new_def Let_def add_ck_def sub_ck_def split: if_splits res.splits)
  show "GalleonSuperBlock_deserialize (GalleonSuperBlock_serialize sb) = Ok sb"
    using assms c by (intro GalleonSuperBlock_roundtrip [OF l(1)]) (simp_all add: layout_of_def)
qed

lemma layout_journal:
  assumes "layout_of T sb" "unat T \<le> 1044480"
  shows "jm_ok (JournalManager_new d (gs_journal_start_cluster sb * 8) (gs_journal_size_clusters sb * 8))"
  using assms(1) layout_bounds [of "unat T"] div_le_mono [OF layout_bounds(2) [of "unat T"], of 4]
  by (simp add: layout_of_def jm_ok_def JournalManager_new_def)

context block_device
begin

lemma mount_invalid:
  assumes "ready (dev w) d" "d \<le> 3" "\<not> is_valid (sec (dev w) d 1)"
  shows "wp (GalleonFilesystem_mount B d) w (\<lambda>r w'. r = Err InvalidBootBlock \<and> only_reads ready sec w w')"
proof -
  have "wp (dread B d 1 1 (replicate 512 0)) w (\<lambda>r w'. r = Ok (sec (dev w) d 1) \<and> only_reads ready sec w w')"
    by (rule wp_dread1 [OF assms(1)]) (auto simp: only_reads_def)
  then show ?thesis
    using assms(2,3) unfolding GalleonFilesystem_mount_def
    by (auto simp: wp_bnd wp_fail not_less elim!: wp_mono)
qed

lemma wp_mount:
  assumes "ready (dev w) d" "d \<le> 3" "layout_of T sb" "unat T \<le> 1044480"
    and sb: "sec (dev w) d 1 = GalleonSuperBlock_serialize sb"
    and np: "IndexNode_deserialize (node_bytes (sec (dev w) d) (gf_btree_manager (mounted_fs d T sb)) 0) 0 \<noteq> Panic"
    and Q: "\<And>v. ready v = ready (dev w) \<Longrightarrow> same_but sec d {8 * index_at (unat T)..<8 * index_at (unat T) + 8} (dev w) v \<Longrightarrow>
      node_bytes (sec v d) (gf_btree_manager (mounted_fs d T sb)) 0
        = mounted_root (node_bytes (sec (dev w) d) (gf_btree_manager (mounted_fs d T sb)) 0)
      \<Longrightarrow> Q (Ok (mounted_fs d T sb)) (w\<lparr>dev := v\<rparr>)"
  shows "wp (GalleonFilesystem_mount B d) w Q"
proof -
  let ?bt = "BTreeManager_new d 0 (gs_index_allocation_start sb) 4096"
  note r = layout_of_reads [OF assms(3)]
  have bt: "gf_btree_manager (mounted_fs d T sb) = ?bt" by (simp add: mounted_fs_def fresh_fs_def Let_def)
  have i: "unat (gs_index_allocation_start sb) = index_at (unat T)" "unat (gs_index_allocation_start sb) \<le> 1000"
    using assms(3) index_at_small [OF assms(4)] by (simp_all add: layout_of_def)
  have bm: "ClusterBitmap_new d (gs_bitmap_start_cluster sb * 8) T = Ok (fs_bitmap d T)"
    using assms(3) by (intro ClusterBitmap_new_fs [OF assms(4)]) (simp add: layout_of_def)
  have tot: "sb_total_blocks (SuperBlock_new 4096 T 5) = T" by (simp add: SuperBlock_new_def Let_def)
  note steps = res.case wp_bnd wp_lift_res wp_ret assms(3) [unfolded layout_of_def] bm r tot
  have dr: "\<not> d > 3" "((4096 :: u32) = 0) = False" "(\<not> True) = False" using assms(2) by simp_all
  show ?thesis
    unfolding GalleonFilesystem_mount_def Let_def
  proof (simp only: steps dr if_False, rule wp_dread1 [OF assms(1)], goal_cases)
    case (3 v1)
    note v1 = 3
    show ?case
    proof (simp only: steps sb unat_1 dr if_False, rule wp_recover [OF _ layout_journal [OF assms(3,4)]], goal_cases)
      case (2 v2)
      note v2 = 2
      show ?case
      proof (simp only: steps, rule wp_verify_root [OF refl i(2)], goal_cases)
        case (3 v3)
        have "same_but sec d {8 * index_at (unat T)..<8 * index_at (unat T) + 8} (dev w) v3" using v1 v2 3(2) i by (simp add: same_but_def)
        moreover have "sec v2 = sec (dev w)" using v1 v2 by simp
        ultimately have "Q (Ok (mounted_fs d T sb)) (w\<lparr>dev := v3\<rparr>)" using v1 v2 3 by (intro Q) (simp_all add: bt)
        then show ?case by (simp add: steps mounted_fs_def fresh_fs_def Let_def)
      qed (use v1 v2 assms(1) np in \<open>simp_all add: bt\<close>)
    qed (use v1 assms(1) in \<open>simp add: JournalManager_new_def\<close>)
  qed simp_all
qed

end

section \<open>Free space\<close>

definition free_count :: "bytes \<Rightarrow> nat \<Rightarrow> nat" where
  "free_count b t = card {c. free_in b t c}"

lemma fold_count: "fold (\<lambda>x n. if P x then n + 1 else n) xs k = k + of_nat (length (filter P xs))"
  for k :: "'a::semiring_1"
  by (induction xs arbitrary: k) (simp_all add: add.assoc)

lemma count_range:
  assumes "\<And>c. c < t \<Longrightarrow> P (of_nat c) \<longleftrightarrow> free_in b t c"
  shows "length (filter P (map (of_nat :: nat \<Rightarrow> u64) [0..<t])) = free_count b t"
proof -
  have "length (filter P (map of_nat [0..<t])) = length (filter (free_in b t) [0..<t])"
    using assms by (simp add: filter_map o_def) (metis (no_types, lifting) atLeastLessThan_iff filter_cong set_upt)
  also have "\<dots> = card (set (filter (free_in b t) [0..<t]))" by (rule distinct_card [symmetric]) simp
  also have "set (filter (free_in b t) [0..<t]) = {c. free_in b t c}" by (auto simp: free_in_def)
  finally show ?thesis by (simp add: free_count_def)
qed

lemma get_free_cluster_count_cached:
  assumes "cached_bitmap s = Some b"
  shows "get_free_cluster_count B (s, w) = (Ok (of_nat (free_count b (unat (bm_total_clusters s)))), (s, w))"
proof -
  let ?P = "\<lambda>cluster. unat (cluster div 8) < length b \<and> bit_clear b cluster"
  have "length (filter ?P (u64_range 0 (bm_total_clusters s))) = free_count b (unat (bm_total_clusters s))"
    unfolding u64_range_def unat_0
  proof (rule count_range)
    fix c assume c: "c < unat (bm_total_clusters s)"
    then have "unat (of_nat c :: u64) = c" using unat_bound [of "bm_total_clusters s"] by (simp add: unat_of_nat)
    with c show "?P (of_nat c) \<longleftrightarrow> free_in b (unat (bm_total_clusters s)) c" by (simp add: free_in_def bit_clear_iff unat_div)
  qed
  then show ?thesis
    using assms by (simp add: get_free_cluster_count_def bnd_def gets_def load_bitmap_def fold_count)
qed

lemma free_count_le: "free_count b t \<le> t"
proof -
  have "card {c. free_in b t c} \<le> card {..<t}" by (rule card_mono) (auto simp: free_in_def)
  then show ?thesis by (simp add: free_count_def)
qed

lemma free_count_formatted:
  assumes "145 \<le> unat T" "unat T \<le> 8 * length b"
  shows "free_count (fold mark (system_area (unat T)) b) (unat T) = card {c. free_in b (unat T) c \<and> index_at (unat T) + 100 \<le> c}"
proof -
  have "c div 8 < length b" if "c \<in> set (system_area (unat T))" for c
    using that assms layout_fits [of "unat T"] by (auto simp: system_area_def)
  then show ?thesis by (simp add: free_count_def free_in_fold_mark) (auto simp: system_area_def not_less)
qed

lemma get_stats_cached:
  assumes "cached_bitmap (al_bitmap (gf_allocator fs)) = Some b" "bm_total_clusters (al_bitmap (gf_allocator fs)) = T"
    "layout_of T (gf_super_block fs)" "unat T \<le> 1044480"
  shows "get_stats B (fs, w) = (Ok \<lparr>total_space = T * 4096, free_space = of_nat (free_count b (unat T)) * 4096,
     used_space = T * 4096 - of_nat (free_count b (unat T)) * 4096, fst_cluster_size = 4096, fst_total_clusters = T\<rparr>, (fs, w))"
proof -
  note r = layout_of_reads [OF assms(3)]
  let ?n = "of_nat (free_count b (unat T)) :: u64"
  have n: "unat ?n = free_count b (unat T)" "free_count b (unat T) \<le> unat T"
    using free_count_le [of b "unat T"] assms(4) by (simp_all add: unat_of_nat)
  have m: "unat (?n * 4096) = free_count b (unat T) * 4096" "unat (T * 4096) = unat T * 4096"
    using n assms(4) by (simp_all add: unat_mult_no_wrap)
  have "mul_ck ?n (as_u64 CLUSTER_SIZE) = (Ok (?n * 4096) :: (fs_error, u64) res)" "mul_ck T (4096 :: u64) = (Ok (T * 4096) :: (fs_error, u64) res)"
    "sub_ck (T * 4096) (?n * 4096) = (Ok (T * 4096 - ?n * 4096) :: (fs_error, u64) res)"
    using n m assms(4) by (simp_all add: mul_ck_def sub_ck_def CLUSTER_SIZE_def word_le_nat_alt)
  then show ?thesis
    using r(3,4) get_free_cluster_count_cached [OF assms(1), of B w] assms(2)
    by (simp add: get_stats_def bnd_def gets_def with_allocator_def zoom_def get_free_space_def on_bitmap_def)
qed

section \<open>Disks that are too small\<close>

lemma wp_for_each_append:
  "wp (for_each f (xs @ ys)) w Q \<longleftrightarrow> wp (for_each f xs) w (\<lambda>r w'. case r of Ok x \<Rightarrow> wp (for_each f ys) w' Q | Err e \<Rightarrow> Q (Err e) w' | Panic \<Rightarrow> Q Panic w')"
proof (induction xs arbitrary: w)
  case Nil
  show ?case by (simp add: wp_def)
next
  case (Cons x xs)
  then show ?case by (simp add: wp_bnd cong: res.case_cong)
qed

lemma u64_range_at:
  assumes "unat a < unat b"
  shows "u64_range 0 b = u64_range 0 a @ a # u64_range (a + 1) b"
proof -
  have "[0..<unat b] = [0..<unat a] @ unat a # [Suc (unat a)..<unat b]"
    using assms upt_add_eq_append [of 0 "unat a" "unat b - unat a"] by (simp add: upt_conv_Cons)
  moreover have "unat (a + 1) = Suc (unat a)" using assms unat_bound [of b] by (simp add: unat_add_no_wrap)
  ultimately show ?thesis by (simp add: u64_range_def)
qed

context block_device
begin

lemma wp_mark_past_end:
  assumes "0 < unat T" "unat T \<le> 1044480" "ready (dev w) d" "unat T < unat n"
    and Q: "\<And>s v. sec v = sec (dev w) \<Longrightarrow> ready v = ready (dev w) \<Longrightarrow> Q (Err InvalidParameter) (s, w\<lparr>dev := v\<rparr>)"
  shows "wp (for_each (set_cluster_used B) (u64_range 0 n)) (fs_bitmap d T, w) Q"
proof -
  have s: "bm_drive (fs_bitmap d T) = d" "bm_total_clusters (fs_bitmap d T) = T" by (simp_all add: fs_bitmap_def)
  have r: "wf_run (ClusterRun_new 0 T)" "run_end (ClusterRun_new 0 T) = unat T"
    using assms(1,2) by (simp_all add: wf_run_def run_end_def ClusterRun_new_def word_less_nat_alt)
  have "wp (mark_run_used B (ClusterRun_new 0 T)) (fs_bitmap d T, w) (\<lambda>r t. case r of
      Ok x \<Rightarrow> wp (for_each (set_cluster_used B) (T # u64_range (T + 1) n)) t Q | Err e \<Rightarrow> Q (Err e) t | Panic \<Rightarrow> Q Panic t)"
    by (rule wp_mark_run_used [OF fs_bitmap_wf _ r(1)])
      (use assms in \<open>simp_all add: s r wp_bnd set_cluster_used_def wp_gets wp_fail\<close>)
  then show ?thesis unfolding u64_range_at [OF assms(4)] wp_for_each_append mark_run_from_0 .
qed

lemma wp_format_small:
  assumes "bd_size B d (dev w) = (Ok sz, dev w)" and r: "ready (dev w) d"
    and T: "T = sz div 4096" "100 \<le> unat T" "unat T < 145"
    and Q: "\<And>v. ready v = ready (dev w) \<Longrightarrow> same_but sec d {0} (dev w) v \<Longrightarrow> Q (Err InvalidParameter) (w\<lparr>dev := v\<rparr>)"
  shows "wp (GalleonFilesystem_format B d) w Q"
proof -
  have T3: "unat T \<le> 1044480" using T(3) by simp
  obtain sb where sb: "layout_of T sb" using layout_exists [OF T3] .
  have i: "add_ck (gs_index_allocation_start sb) 100 = (Ok (gs_index_allocation_start sb + 100) :: (fs_error, u64) res)"
    "unat T < unat (gs_index_allocation_start sb + 100)"
    using sb index_at_small [OF T3] layout_fits [of "unat T"] T(3) by (simp_all add: layout_of_def add_ck_def)
  have size: "wp (dsize B d) w R \<longleftrightarrow> R (Ok sz) w" for R using assms(1) by (simp add: wp_def on_dev_def)
  have t: "sz div as_u64 (4096 :: u32) = T" "\<not> T < 100" using T by (simp_all add: word_less_nat_alt)
  have bm: "ClusterBitmap_new d (gs_bitmap_start_cluster sb * 8) T = Ok (fs_bitmap d T)"
    "al_bitmap (ClusterAllocator_new (fs_bitmap d T) FirstFit) = fs_bitmap d T"
    using sb by (simp_all add: ClusterBitmap_new_fs [OF T3] layout_of_def ClusterAllocator_new_def)
  note steps = res.case wp_bnd wp_lift_res wp_ret sb [unfolded layout_of_def] bm i(1) wp_run_on wp_for_each_on_bitmap
  show ?thesis
    unfolding GalleonFilesystem_format_def wp_bnd size Let_def
  proof (simp only: steps t if_False, rule wp_dwrite1, goal_cases)
    case (4 v1)
    note v1 = 4
    have f: "same_but sec d {0} (dev w) v1" using v1(1) by (auto simp: same_but_def)
    show ?case
    proof (simp only: steps, rule wp_mark_past_end [OF _ T3 _ i(2)], goal_cases)
      case (3 s v2)
      have "same_but sec d {0} (dev w) v2" using 3(1) f by (simp add: same_but_def)
      then show ?case using 3(2) v1(2) Q [of v2] by simp
    qed (use r v1 T in simp_all)
  qed (use r sb in \<open>simp_all add: layout_of_def\<close>)
qed

end

section \<open>Creating a file\<close>

lemma wp_with_files [wp_simps]:
  "wp (with_files m) (s, w) Q \<longleftrightarrow> wp m (gf_file_manager s, w) (\<lambda>r t. Q r (s\<lparr>gf_file_manager := fst t\<rparr>, snd t))"
  by (simp add: with_files_def wp_zoom)

lemma wp_with_btree [wp_simps]:
  "wp (with_btree m) (s, w) Q \<longleftrightarrow> wp m (gf_btree_manager s, w) (\<lambda>r t. Q r (s\<lparr>gf_btree_manager := fst t\<rparr>, snd t))"
  by (simp add: with_btree_def wp_zoom)

text \<open>The next record lies in the table of the layout, and the counters are far from their ends.\<close>

definition room :: "u64 \<Rightarrow> 'v world \<Rightarrow> bool" where
  "room T w \<longleftrightarrow> unat (NEXT_RECORD w) < 4 * mft_clusters (unat T) \<and> unat (COUNTER w) + 2 < 2 ^ 64"

lemma file_at_frame:
  assumes "file_at sec mm rn data v" "same_but sec d S v v'" "{rec_sector mm rn..<rec_sector mm rn + 8} \<inter> S = {}"
  shows "file_at sec mm rn data v'"
  using assms stored_frame [OF _ assms(2)] unfolding file_at_def is_file_def by blast

lemma formattedD:
  assumes "formatted ready sec d T fs w0 w"
  shows "mft_manager (gf_file_manager fs) = MftManager_new d 16 4096"
    "journal_manager (gf_file_manager fs) = gf_journal_manager fs"
    "gf_btree_manager fs = BTreeManager_new d 0 (of_nat (index_at (unat T))) 4096" "ready (dev w) = ready (dev w0)"
    "node_bytes (sec (dev w) d) (gf_btree_manager fs) 0 = IndexNode_serialize (empty_root 0)"
    "\<exists>st sz. gf_journal_manager fs = JournalManager_new d st sz
      \<and> unat st = 8 * (16 + mft_clusters (unat T) + mft_clusters (unat T) div 4) \<and> unat sz = 8 * journal_clusters (unat T)"
proof -
  have m: "gf_mft_manager fs = MftManager_new d 16 4096" "gf_file_manager fs = FileRecordManager_new (gf_mft_manager fs) (gf_journal_manager fs)"
    using assms unfolding formatted_def by blast+
  then show "mft_manager (gf_file_manager fs) = MftManager_new d 16 4096" "journal_manager (gf_file_manager fs) = gf_journal_manager fs"
    by (simp_all add: FileRecordManager_new_def)
qed (use assms [unfolded formatted_def] in blast)+

lemma formatted_ready:
  assumes "formatted ready sec d T fs w0 w" "ready (dev w0) d" "room T w" "unat T \<le> 1044480"
  shows "fr_ok ready (gf_file_manager fs) w" "mm_ok (mft_manager (gf_file_manager fs)) (NEXT_RECORD w)"
    "apart (gf_file_manager fs) (NEXT_RECORD w)" "ready (dev w) d"
    "unat (next_transaction_id (journal_manager (gf_file_manager fs))) + 2 < 2 ^ 64"
    "unat (NEXT_RECORD w) + 2 < 2 ^ 64" "node_in (gf_btree_manager fs) 0" "node_at (gf_btree_manager fs) 0 = 8 * index_at (unat T)"
proof -
  let ?t = "unat T"
  note b = layout_bounds [of ?t] div_le_mono [OF layout_bounds(2) [of ?t], of 4] index_at_small [OF assms(4)]
  note fs = formattedD(1-4) [OF assms(1)]
  obtain st sz where j: "gf_journal_manager fs = JournalManager_new d st sz"
    "unat st = 8 * (16 + mft_clusters ?t + mft_clusters ?t div 4)" "unat sz = 8 * journal_clusters ?t"
    using formattedD(6) [OF assms(1)] by blast
  show r: "ready (dev w) d" using fs(4) assms(2) by simp
  have rn: "unat (NEXT_RECORD w) div 4 + 1 \<le> mft_clusters ?t" "unat (NEXT_RECORD w) < 1024" "unat (COUNTER w) + 2 < 2 ^ 64"
    using assms(3) b by (auto simp: room_def)
  then show "mm_ok (mft_manager (gf_file_manager fs)) (NEXT_RECORD w)" "apart (gf_file_manager fs) (NEXT_RECORD w)"
    using b by (simp_all add: fs j mm_ok_def apart_def rec_sector_def MftManager_new_def JournalManager_new_def)
  show "fr_ok ready (gf_file_manager fs) w"
    using rn b r by (simp add: fs j fr_ok_def jm_ok_def MftManager_new_def JournalManager_new_def)
  show "unat (next_transaction_id (journal_manager (gf_file_manager fs))) + 2 < 2 ^ 64" by (simp add: fs j JournalManager_new_def)
  show "unat (NEXT_RECORD w) + 2 < 2 ^ 64" using rn by simp
  have "unat (of_nat (index_at ?t) :: u64) = index_at ?t" using b by (intro unat_of_nat_small) simp
  then show at: "node_at (gf_btree_manager fs) 0 = 8 * index_at ?t" by (simp add: fs node_at_def BTreeManager_new_def)
  show "node_in (gf_btree_manager fs) 0" using b by (simp add: node_in_def at) (simp add: fs BTreeManager_new_def)
qed

text \<open>The root of the index lies behind the journal and the bitmap, out of reach of a record update.\<close>

lemma root_outside:
  assumes "formatted ready sec d T fs w0 w" "room T w" "unat T \<le> 1044480" "8 * index_at (unat T) \<le> k"
  shows "outside (gf_file_manager fs) (NEXT_RECORD w) e k"
proof -
  let ?t = "unat T"
  obtain st sz where j: "gf_journal_manager fs = JournalManager_new d st sz"
    "unat st = 8 * (16 + mft_clusters ?t + mft_clusters ?t div 4)" "unat sz = 8 * journal_clusters ?t"
    using formattedD(6) [OF assms(1)] by blast
  note fs = formattedD(1,2) [OF assms(1)]
  have "unat (NEXT_RECORD w) div 4 + 1 \<le> mft_clusters ?t" using assms(2) by (auto simp: room_def)
  moreover have "k \<ge> 8 * (bitmap_at ?t + 1)" using assms(4) layout_bounds(7) [of ?t] by (simp add: index_at_def)
  ultimately show ?thesis
    by (simp add: outside_def fs j rec_sector_def MftManager_new_def JournalManager_new_def bitmap_at_def)
qed

context block_device
begin

lemma wp_create_formatted:
  assumes f: "formatted ready sec d T fs w0 w" "ready (dev w0) d" "room T w" "unat T \<le> 1044480"
    and "file_fits name data" "length name \<le> 255"
    and Q: "\<And>f' w'. mft_manager f' = mft_manager (gf_file_manager fs) \<Longrightarrow> ready (dev w') = ready (dev w0) \<Longrightarrow>
      file_at sec (mft_manager (gf_file_manager fs)) (NEXT_RECORD w) data (dev w') \<Longrightarrow> NEXT_RECORD w' = NEXT_RECORD w + 1 \<Longrightarrow>
      node_bytes (sec (dev w') d) (gf_btree_manager fs) 0
        = IndexNode_serialize (one_name 0 (NEXT_RECORD w) (FileName_new parent name False)) \<Longrightarrow>
      Q (Ok (NEXT_RECORD w)) (fs\<lparr>gf_file_manager := f'\<rparr>, w')"
  shows "wp (GalleonFilesystem_create_file (Suc n) B parent name (Some data)) (fs, w) Q"
proof -
  let ?rn = "NEXT_RECORD w" and ?g = "FileName_new parent name False" and ?bt = "gf_btree_manager fs"
  note ok = formatted_ready [OF f]
  have bt: "bt_drive ?bt = d" "root_vcn ?bt = 0" by (simp_all add: formattedD(3) [OF f(1)] BTreeManager_new_def)
  have root: "node_bytes (sec (dev w) d) ?bt 0 = IndexNode_serialize (empty_root 0)" by (rule formattedD(5) [OF f(1)])
  have sz: "entry_size ?g \<le> 4000" using assms(6) by (simp add: entry_size_def length_FileName_serialize FileName_new_def)
  show ?thesis
    unfolding GalleonFilesystem_create_file_def wp_bnd wp_with_files Let_def
  proof (rule wp_create_file [OF ok(1,5,6,2,3) assms(5)], goal_cases)
    case (1 f' w')
    note c = 1
    have keep: "node_bytes (sec (dev w') d) ?bt 0 = node_bytes (sec (dev w) d) ?bt 0"
      unfolding node_bytes_def ok(8)
      by (rule read_sectors_cong) (use c(1) root_outside [OF f(1,3,4)] in \<open>auto simp: after_update_def\<close>)
    have below: "{rec_sector (mft_manager (gf_file_manager fs)) ?rn..<rec_sector (mft_manager (gf_file_manager fs)) ?rn + 8}
        \<inter> {8 * index_at (unat T)..<8 * index_at (unat T) + 8} = {}"
    proof -
      have "unat ?rn div 4 + 1 \<le> mft_clusters (unat T)" using f(3) by (auto simp: room_def)
      then show ?thesis by (auto simp: formattedD(1) [OF f(1)] rec_sector_def MftManager_new_def index_at_def bitmap_at_def)
    qed
    have r: "ready (dev w') = ready (dev w0)" "mft_manager f' = mft_manager (gf_file_manager fs)"
      using after_updateD(1,2) [OF c(1)] formattedD(4) [OF f(1)] by simp_all
    have "wp (BTreeManager_insert (Suc n) B (fn_name ?g) ?rn ?g) (?bt, w') (\<lambda>r t. case r of
        Ok x \<Rightarrow> Q (Ok ?rn) (fs\<lparr>gf_file_manager := f', gf_btree_manager := fst t\<rparr>, snd t)
      | Err e \<Rightarrow> Q (Err e) (fs\<lparr>gf_file_manager := f', gf_btree_manager := fst t\<rparr>, snd t)
      | Panic \<Rightarrow> Q Panic (fs\<lparr>gf_file_manager := f', gf_btree_manager := fst t\<rparr>, snd t))"
    proof (rule wp_insert_first [where v = 0], goal_cases)
      case (5 dv)
      have w: "same_but sec d {8 * index_at (unat T)..<8 * index_at (unat T) + 8} (dev w') dv"
        using 5(1) by (intro same_but_write) (simp add: bt ok(8))
      have "file_at sec (mft_manager (gf_file_manager fs)) ?rn data dv" by (rule file_at_frame [OF c(2) w below])
      moreover have "node_bytes (sec dv d) ?bt 0 = IndexNode_serialize (one_name 0 ?rn ?g)"
        using 5(1) by (simp add: bt node_bytes_write_same length_IndexNode_serialize one_name_simps [OF sz])
      ultimately show ?case using 5(2) r c(3) Q [of f' "w'\<lparr>dev := dv\<rparr>"] by simp
    qed (use r f(2) ok(7) root keep sz in \<open>simp_all add: bt\<close>)
    then show ?case by (simp add: wp_bnd wp_with_btree wp_ret cong: res.case_cong)
  qed
qed

end

section \<open>Properties\<close>



text \<open>
  C36: Formatting a ready drive of 145 to 1044480 clusters succeeds. Its super block is in sector 0, the records of
  the table and of the root directory are stored, the root index node is empty, the bitmap on disk and in the allocator
  has the clusters up to 100 behind the start of the index marked and is otherwise what the disk held before, and the sectors outside these regions are unchanged.
\<close>

theorem format_establishes:
  assumes "block_device B ready sec" and "ready (dev w) d" and "bd_size B d (dev w) = (Ok sz, dev w)"
    and "T = sz div 4096" and "145 \<le> unat T" and "unat T \<le> 1044480"
  shows "\<exists>fs w'. GalleonFilesystem_format B d w = (Ok fs, w') \<and> formatted ready sec d T fs w w'"
  using block_device.format_runs [OF assms] .

lemma blank_size: "bd_size ram_bdev 0 (dev (blank_world n)) = (Ok (of_nat n * 512), dev (blank_world n))"
  by (simp add: ram_bdev_def ram_size_def blank_world_def blank_disk_def)

theorem format_establishes_witness:
  "\<exists>fs w'. GalleonFilesystem_format ram_bdev 0 (blank_world 2000) = (Ok fs, w')
     \<and> formatted ram_ready ram_sec 0 250 fs (blank_world 2000) w'"
  by (rule format_establishes [OF ram.block_device_axioms _ blank_size]) simp_all

text \<open>
  A freshly formatted drive reports as free exactly the clusters behind the system area whose bits were clear on
  the disk before, and used and free space add up to the whole volume.
\<close>

theorem stats_after_format:
  assumes "block_device B ready sec" and "ready (dev w) d" and "bd_size B d (dev w) = (Ok sz, dev w)"
    and "T = sz div 4096" and "145 \<le> unat T" and "unat T \<le> 1044480"
  shows "\<exists>fs w' st. GalleonFilesystem_format B d w = (Ok fs, w') \<and> get_stats B (fs, w') = (Ok st, (fs, w'))
     \<and> total_space st = T * 4096 \<and> used_space st + free_space st = total_space st
     \<and> unat (free_space st) = 4096 * card {c. free_in (bm_disk sec (fs_bitmap d T) (dev w)) (unat T) c \<and> index_at (unat T) + 100 \<le> c}"
proof -
  obtain fs w' where f: "GalleonFilesystem_format B d w = (Ok fs, w')" "formatted ready sec d T fs w w'"
    using block_device.format_runs [OF assms] by blast
  let ?b = "bm_disk sec (fs_bitmap d T) (dev w)"
  obtain sb where sb: "layout_of T sb" using layout_exists [OF assms(6)] .
  moreover have "GalleonSuperBlock_new T 4096 = Ok (gf_super_block fs)" using f(2) unfolding formatted_def by blast
  ultimately have l: "layout_of T (gf_super_block fs)" by (simp add: layout_of_def)
  have c: "cached_bitmap (al_bitmap (gf_allocator fs)) = Some (fold mark (system_area (unat T)) ?b)"
    "bm_total_clusters (al_bitmap (gf_allocator fs)) = T"
    using f(2) by (auto simp: formatted_def fs_bitmap_def)
  have "unat T \<le> 8 * length ?b"
    using fs_bitmap_size(2) [OF assms(6), of d] by (simp add: block_device.length_bm_disk [OF assms(1)])
  note n = free_count_formatted [OF assms(5) this] free_count_le [of "fold mark (system_area (unat T)) ?b" "unat T"]
  have "unat (of_nat (free_count (fold mark (system_area (unat T)) ?b) (unat T)) * 4096 :: u64)
      = 4096 * free_count (fold mark (system_area (unat T)) ?b) (unat T)"
    using n(2) assms(6) by (simp add: unat_mult_no_wrap unat_of_nat)
  then show ?thesis using f(1) get_stats_cached [OF c l assms(6), of B w'] unfolding n(1) by simp
qed

theorem stats_after_format_witness:
  "\<exists>fs w' st. GalleonFilesystem_format ram_bdev 0 (blank_world 2000) = (Ok fs, w') \<and> fst (get_stats ram_bdev (fs, w')) = Ok st
     \<and> total_space st = 1024000"
proof -
  have "\<exists>fs w' st. GalleonFilesystem_format ram_bdev 0 (blank_world 2000) = (Ok fs, w') \<and> get_stats ram_bdev (fs, w') = (Ok st, (fs, w'))
     \<and> total_space st = 250 * 4096 \<and> used_space st + free_space st = total_space st
     \<and> unat (free_space st) = 4096 * card {c. free_in (bm_disk ram_sec (fs_bitmap 0 250) (dev (blank_world 2000))) (unat (250 :: u64)) c
         \<and> index_at (unat (250 :: u64)) + 100 \<le> c}"
    by (rule stats_after_format [OF ram.block_device_axioms _ blank_size]) simp_all
  then obtain fs w' st where f: "GalleonFilesystem_format ram_bdev 0 (blank_world 2000) = (Ok fs, w')"
    "get_stats ram_bdev (fs, w') = (Ok st, (fs, w'))" "total_space st = 250 * 4096" by blast
  show ?thesis by (intro exI [of _ fs] exI [of _ w'] exI [of _ st] conjI) (simp_all only: f fst_conv, simp)
qed

text \<open>
  A drive of fewer than 145 clusters is never formatted: below 100 clusters the call fails and writes nothing,
  and from 100 to 144 clusters it fails after it has overwritten sector 0.
\<close>

theorem format_small_drive:
  assumes "block_device B ready sec" and "ready (dev w) d" and "bd_size B d (dev w) = (Ok sz, dev w)"
    and "T = sz div 4096" and "unat T < 145"
  shows "\<exists>w'. GalleonFilesystem_format B d w = (Err (if unat T < 100 then InsufficientSpace else InvalidParameter), w')
     \<and> same_but sec d (if unat T < 100 then {} else {0}) (dev w) (dev w')"
proof (cases "unat T < 100")
  case True
  have s: "dsize B d w = (Ok sz, w)" using assms(3) by (simp add: on_dev_def)
  have "sz div 4096 < 100" using True assms(4) by (simp add: word_less_nat_alt)
  then have "GalleonFilesystem_format B d w = (Err InsufficientSpace, w)"
    by (simp add: GalleonFilesystem_format_def bnd_def s fail_def)
  with True show ?thesis by (simp add: same_but_def)
next
  case False
  have "wp (GalleonFilesystem_format B d) w (\<lambda>r w'. r = Err InvalidParameter \<and> same_but sec d {0} (dev w) (dev w'))"
    by (rule block_device.wp_format_small [OF assms(1,3,2,4) _ assms(5)]) (use False in simp_all)
  with False show ?thesis by (auto simp: wp_def split: prod.splits)
qed

theorem format_small_drive_witness:
  "\<exists>w'. GalleonFilesystem_format ram_bdev 0 (blank_world 1000) = (Err InvalidParameter, w')"
  using format_small_drive [OF ram.block_device_axioms _ blank_size, of 1000 125] by auto

text \<open>
  C38: A drive that has just been formatted cannot be mounted, unless its sector 1 was a super block before: the
  format writes the super block to sector 0 and the mount reads it from sector 1.
\<close>

theorem format_then_mount_fails:
  assumes "block_device B ready sec" and "ready (dev w) d" and "bd_size B d (dev w) = (Ok sz, dev w)"
    and "T = sz div 4096" and "145 \<le> unat T" and "unat T \<le> 1044480"
    and "d \<le> 3" and "\<not> is_valid (sec (dev w) d 1)"
  shows "\<exists>fs w' w''. GalleonFilesystem_format B d w = (Ok fs, w') \<and> GalleonFilesystem_mount B d w' = (Err InvalidBootBlock, w'')"
proof -
  have "wp (GalleonFilesystem_format B d) w (\<lambda>r w'. \<exists>fs. r = Ok fs \<and> (\<exists>w''. GalleonFilesystem_mount B d w' = (Err InvalidBootBlock, w'')))"
  proof (rule block_device.wp_format [OF assms(1,3,2,4-6)])
    fix fs w'
    assume f: "formatted ready sec d T fs w w'"
    have "1 \<notin> format_writes (unat T)"
      using layout_bounds(5,7) [of "unat T"] by (auto simp: format_writes_def index_at_def)
    then have "sec (dev w') d 1 = sec (dev w) d 1" "ready (dev w') d" using f assms(2) unfolding formatted_def by auto
    with block_device.mount_invalid [OF assms(1), of w' d] assms(7,8)
    show "\<exists>gs. Ok fs = Ok gs \<and> (\<exists>w''. GalleonFilesystem_mount B d w' = (Err InvalidBootBlock, w''))"
      by (auto simp: wp_def split: prod.splits)
  qed
  then show ?thesis by (auto simp: wp_def split: prod.splits)
qed

lemma blank_invalid: "\<not> is_valid (ram_sec (dev (blank_world n)) 0 k)"
proof -
  have "ram_sec (dev (blank_world n)) 0 k = replicate 512 0" by (simp add: ram_sec_def blank_world_def blank_disk_def fit_def)
  moreover have "hd (replicate 64 (0 :: u8)) \<noteq> hd EXPECTED_MAGIC" by (simp add: EXPECTED_MAGIC_def hd_replicate)
  then have "replicate 64 (0 :: u8) \<noteq> EXPECTED_MAGIC" by (rule contrapos_nn) (simp only:)
  ultimately show ?thesis by (simp add: is_valid_def window_def)
qed

theorem format_then_mount_fails_witness:
  "\<exists>fs w' w''. GalleonFilesystem_format ram_bdev 0 (blank_world 2000) = (Ok fs, w')
     \<and> GalleonFilesystem_mount ram_bdev 0 w' = (Err InvalidBootBlock, w'')"
  by (rule format_then_mount_fails [OF ram.block_device_axioms _ blank_size refl]) (simp_all add: blank_invalid)

text \<open>
  A file is created on a freshly formatted drive: its contents are read back by the record number, and its name is lost.
\<close>

lemma create_after_format:
  assumes "block_device B ready sec" and "ready (dev w) d" and "bd_size B d (dev w) = (Ok sz, dev w)"
    and "T = sz div 4096" and "145 \<le> unat T" and "unat T \<le> 1044480" and "room T w"
    and "file_fits name data" and "name \<noteq> []" and "0 \<notin> set name" and "length name \<le> 255" and "unat parent < 256"
  shows "\<exists>fs w1 fs' w2. GalleonFilesystem_format B d w = (Ok fs, w1)
     \<and> GalleonFilesystem_create_file (Suc n) B parent name (Some data) (fs, w1) = (Ok (NEXT_RECORD w), (fs', w2))
     \<and> fst (GalleonFilesystem_read_file B (NEXT_RECORD w) (fs', w2)) = Ok data
     \<and> fst (GalleonFilesystem_find_file (Suc m) B fs' name w2)
         = (if length name mod 8 = 0 then Ok None else if length name mod 8 = 7 then Err InvalidParameter else Panic)"
proof -
  let ?g = "FileName_new parent name False"
  have g: "fn_name ?g = name" "fn_parent_directory ?g = parent" by (simp_all add: FileName_new_def)
  have sz: "entry_size ?g \<le> 4000" using assms(11) by (simp add: entry_size_def length_FileName_serialize g)
  let ?good = "\<lambda>(fs', w2). fst (GalleonFilesystem_read_file B (NEXT_RECORD w) (fs', w2)) = Ok data
     \<and> fst (GalleonFilesystem_find_file (Suc m) B fs' name w2) = lost name"
  have "wp (GalleonFilesystem_create_file (Suc n) B parent name (Some data)) (fs, w1) (\<lambda>r s. r = Ok (NEXT_RECORD w) \<and> ?good s)"
    if f: "formatted ready sec d T fs w w1" for fs w1
  proof -
    have n: "NEXT_RECORD w1 = NEXT_RECORD w" "room T w1" using f assms(7) unfolding formatted_def room_def by auto
    note ok = formatted_ready [OF f assms(2) n(2) assms(6)]
    have bt: "bt_drive (gf_btree_manager fs) = d" "root_vcn (gf_btree_manager fs) = 0"
      by (simp_all add: formattedD(3) [OF f] BTreeManager_new_def)
    show ?thesis
    proof (rule block_device.wp_create_formatted [OF assms(1) f assms(2) n(2) assms(6,8,11)], goal_cases)
      case (1 f' w2)
      have r: "ready (dev w2) d" "ready (dev w2) (mm_drive (mft_manager f'))"
        using 1(1,2) assms(2) formattedD(1) [OF f] by (simp_all add: MftManager_new_def)
      obtain w3 where "read_file B (NEXT_RECORD w) (f', w2) = (Ok data, (f', w3))"
        using read_file_at [OF assms(1) _ r(2)] 1(1,3) ok(2) n(1) by metis
      moreover have "wp (BTreeManager_search (Suc m) B (gf_btree_manager fs) (fn_name ?g)) w2 (\<lambda>r w'. r = lost (fn_name ?g))"
        using 1(5) r(1) ok(7) sz assms(9,10,12) by (intro block_device.search_lost [OF assms(1)]) (simp_all add: bt g)
      ultimately show ?case
        by (simp add: n GalleonFilesystem_read_file_def GalleonFilesystem_find_file_def with_files_def zoom_def wp_def g split: prod.splits)
    qed
  qed
  then have "\<exists>fs' w2. GalleonFilesystem_create_file (Suc n) B parent name (Some data) (fs, w1) = (Ok (NEXT_RECORD w), (fs', w2))
      \<and> ?good (fs', w2)" if "formatted ready sec d T fs w w1" for fs w1
    using that by (fastforce simp: wp_def)
  moreover obtain fs w1 where "GalleonFilesystem_format B d w = (Ok fs, w1)" "formatted ready sec d T fs w w1"
    using block_device.format_runs [OF assms(1-6)] by blast
  ultimately show ?thesis unfolding lost_def by blast
qed


text \<open>A drive that is blank but for a super block in sector 1.\<close>

definition copied_world :: "GalleonSuperBlock \<Rightarrow> ram world" where
  "copied_world sb = (blank_world 2000)\<lparr>dev := [0 \<mapsto> \<lparr>rd_sectors = 2000,
     rd_data = (\<lambda>_. replicate 512 0)(1 := GalleonSuperBlock_serialize sb)\<rparr>]\<rparr>"


text \<open>
  C39: A commit record in the last sector of the journal clears the sector behind it, which in the layout of a
  volume is the first sector of the bitmap: on disk the first 4096 clusters, the table, the journal and the index among
  them, are free afterwards.
\<close>

theorem commit_clears_bitmap:
  assumes "block_device B ready sec" and "ready (dev w) d" and "0 < unat T" and "unat T \<le> 1044480"
    and "GalleonSuperBlock_new T 4096 = Ok sb"
    and "jm_drive j = d" and "journal_start_sector j = gs_journal_start_cluster sb * 8"
    and "journal_size_sectors j = gs_journal_size_clusters sb * 8"
    and "\<exists>t\<in>set (active_transactions j). tx_id t = i"
    and "unat (COUNTER w) + 1 < 2 ^ 64" and "unat (current_sequence j) + 1 < 2 ^ 64"
    and "unat (current_sequence j) mod (8 * unat (journal_size_sectors j)) div 8 = unat (journal_size_sectors j) - 1"
  shows "\<exists>j' w'. commit_transaction B i (j, w) = (Ok (), (j', w'))
     \<and> (\<forall>c. c < unat T \<and> c < 4096 \<longrightarrow> free_in (bm_disk sec (fs_bitmap d T) (dev w')) (unat T) c)"
proof -
  obtain sb' where "layout_of T sb'" using layout_exists [OF assms(4)] .
  with assms(5) have l: "layout_of T sb" by (simp add: layout_of_def)
  note b = layout_bounds [of "unat T"] fs_bitmap_size [OF assms(4), of d]
  have at: "unat (journal_start_sector j) + unat (journal_size_sectors j) = unat (bitmap_start_sector (fs_bitmap d T))"
    using l by (simp add: assms(7,8) b(12) layout_of_def bitmap_at_def)
  have j: "jm_ok j" "0 < journal_size_sectors j"
    using l b(3,6,12) at by (simp_all add: jm_ok_def word_less_nat_alt assms(8) layout_of_def)
  have free: "free_in (bm_disk sec (fs_bitmap d T) v) (unat T) c"
    if z: "sec v d (unat (bitmap_start_sector (fs_bitmap d T))) = replicate 512 0" and c: "c < unat T" "c < 4096" for v c
  proof -
    let ?s = "unat (bitmap_start_sector (fs_bitmap d T))" and ?n = "unat (bitmap_size_sectors (fs_bitmap d T))"
    have "0 < ?n" using b(9) assms(3) by linarith
    then have "bm_disk sec (fs_bitmap d T) v = replicate 512 0 @ read_sectors (sec v d) (?s + 1) (?n - 1)"
      using read_sectors_add [of "sec v d" ?s 1 "?n - 1"] z by (simp add: bm_disk_def fs_bitmap_def)
    moreover have "c div 8 < 512" using c(2) by (simp add: div_less_iff_less_mult)
    ultimately show ?thesis using c(1) by (simp add: free_in_def nth_append)
  qed
  have "wp (commit_transaction B i) (j, w) (\<lambda>r s. r = Ok ()
     \<and> sec (dev (snd s)) (jm_drive j) (unat (journal_start_sector j) + unat (journal_size_sectors j)) = replicate 512 0)"
    using assms(2,6,9-12) j by (intro block_device.wp_commit_last_slot [OF assms(1)]) simp_all
  then show ?thesis using free unfolding at assms(6) by (auto simp: wp_def split: prod.splits)
qed

theorem commit_clears_bitmap_witness:
  "\<exists>sb j' w'. GalleonSuperBlock_new 250 4096 = Ok sb
     \<and> commit_transaction ram_bdev 1 ((JournalManager_new 0 (gs_journal_start_cluster sb * 8) (gs_journal_size_clusters sb * 8))
         \<lparr>current_sequence := 504, active_transactions := [Transaction_new 1 1]\<rparr>, blank_world 2000) = (Ok (), (j', w'))
     \<and> free_in (bm_disk ram_sec (fs_bitmap 0 250) (dev w')) (unat (250 :: u64)) 16"
proof -
  obtain sb where l: "layout_of 250 sb" using layout_exists [of 250] by auto
  let ?j = "(JournalManager_new 0 (gs_journal_start_cluster sb * 8) (gs_journal_size_clusters sb * 8))
         \<lparr>current_sequence := 504, active_transactions := [Transaction_new 1 1]\<rparr>"
  have "GalleonSuperBlock_new 250 4096 = Ok sb" "unat (journal_size_sectors ?j) = 64" "unat (COUNTER (blank_world 2000)) = 0"
    using l by (simp_all add: layout_of_def journal_clusters_def JournalManager_new_def blank_world_def)
  then show ?thesis
    using commit_clears_bitmap [where ready = ram_ready and sec = ram_sec and w = "blank_world 2000" and j = ?j and d = 0 and T = 250
        and sb = sb and i = 1, OF ram.block_device_axioms] by (simp add: JournalManager_new_def Transaction_new_def) (elim exE conjE, intro exI conjI, assumption, simp)
qed

end
