(* ===== verification/File_Manager.thy ===== *)
theory File_Manager
  imports Galleon_Fs
begin

text \<open>
  \<^verbatim>\<open>crates/galleon2/src/file.rs\<close>: the interface programs use, a filesystem with a current directory. The
  path arguments of the path-based variants are ignored by the code.
\<close>

section \<open>The file manager\<close>

record FileManager =
  fm_filesystem :: GalleonFilesystem
  current_directory :: FileRecordNumber

abbreviation on_fs :: "(GalleonFilesystem, 'v, 'a) meth \<Rightarrow> (FileManager, 'v, 'a) meth" where
  "on_fs \<equiv> zoom fm_filesystem (\<lambda>x s. s\<lparr>fm_filesystem := x\<rparr>)"

definition FileManager_new :: "GalleonFilesystem \<Rightarrow> FileManager" where
  "FileManager_new filesystem = \<lparr>fm_filesystem = filesystem, current_directory = 5\<rparr>"

definition format_drive :: "'v bdev \<Rightarrow> u8 \<Rightarrow> ('v, FileManager) fs" where
  "format_drive B drive = bnd (GalleonFilesystem_format B drive) (\<lambda>filesystem. ret (FileManager_new filesystem))"

definition mount_drive :: "'v bdev \<Rightarrow> u8 \<Rightarrow> ('v, FileManager) fs" where
  "mount_drive B drive = bnd (GalleonFilesystem_mount B drive) (\<lambda>filesystem. ret (FileManager_new filesystem))"

definition FileManager_create_file :: "nat \<Rightarrow> 'v bdev \<Rightarrow> bytes \<Rightarrow> bytes option \<Rightarrow> (FileManager, 'v, FileRecordNumber) meth" where
  "FileManager_create_file n B name contents =
     bnd (gets current_directory) (\<lambda>dir. on_fs (GalleonFilesystem_create_file n B dir name contents))"

definition create_file_binary :: "nat \<Rightarrow> 'v bdev \<Rightarrow> bytes \<Rightarrow> bytes \<Rightarrow> (FileManager, 'v, FileRecordNumber) meth" where
  "create_file_binary n B name data =
     bnd (gets current_directory) (\<lambda>dir. on_fs (GalleonFilesystem_create_file n B dir name (Some data)))"

definition FileManager_create_directory :: "nat \<Rightarrow> 'v bdev \<Rightarrow> bytes \<Rightarrow> (FileManager, 'v, FileRecordNumber) meth" where
  "FileManager_create_directory n B name =
     bnd (gets current_directory) (\<lambda>dir. on_fs (GalleonFilesystem_create_directory n B dir name))"

text \<open>\<^verbatim>\<open>String::from_utf8\<close> accepts exactly the well-formed byte strings.\<close>

function well_formed_utf8 :: "bytes \<Rightarrow> bool" where
  "well_formed_utf8 bs =
     (if bs = [] then True else case utf8_step bs of (n, valid) \<Rightarrow> valid \<and> well_formed_utf8 (drop n bs))"
  by pat_completeness auto
termination
proof (relation "measure length", goal_cases)
  case (2 bs n valid)
  with utf8_step_pos [of bs] show ?case by (cases "utf8_step bs") simp
qed simp

declare well_formed_utf8.simps [simp del]

definition read_file_binary :: "'v bdev \<Rightarrow> FileRecordNumber \<Rightarrow> (FileManager, 'v, bytes) meth" where
  "read_file_binary B rn = on_fs (GalleonFilesystem_read_file B rn)"

definition read_file_text :: "'v bdev \<Rightarrow> FileRecordNumber \<Rightarrow> (FileManager, 'v, bytes) meth" where
  "read_file_text B rn =
     bnd (on_fs (GalleonFilesystem_read_file B rn)) (\<lambda>data.
       if well_formed_utf8 data then ret data else fail InvalidParameter)"

definition write_file_binary :: "'v bdev \<Rightarrow> FileRecordNumber \<Rightarrow> bytes \<Rightarrow> (FileManager, 'v, unit) meth" where
  "write_file_binary B rn data = on_fs (GalleonFilesystem_write_file B rn data)"

definition write_file_text :: "'v bdev \<Rightarrow> FileRecordNumber \<Rightarrow> bytes \<Rightarrow> (FileManager, 'v, unit) meth" where
  "write_file_text B rn content = on_fs (GalleonFilesystem_write_file B rn content)"

definition FileManager_find_file :: "nat \<Rightarrow> 'v bdev \<Rightarrow> bytes \<Rightarrow> (FileManager, 'v, FileRecordNumber option) meth" where
  "FileManager_find_file n B name =
     bnd (gets fm_filesystem) (\<lambda>filesystem. io (GalleonFilesystem_find_file n B filesystem name))"

definition list_files :: "nat \<Rightarrow> 'v bdev \<Rightarrow> (FileManager, 'v, (bytes \<times> FileRecordNumber) list) meth" where
  "list_files n B = bnd (gets fm_filesystem) (\<lambda>filesystem. io (GalleonFilesystem_list_directory n B filesystem))"

definition FileManager_delete_file :: "nat \<Rightarrow> 'v bdev \<Rightarrow> bytes \<Rightarrow> (FileManager, 'v, unit) meth" where
  "FileManager_delete_file n B name =
     bnd (FileManager_find_file n B name) (\<lambda>found. case found of
       Some rn \<Rightarrow> on_fs (GalleonFilesystem_delete_file n B rn name)
     | None \<Rightarrow> fail InvalidParameter)"

definition change_directory :: "nat \<Rightarrow> 'v bdev \<Rightarrow> bytes \<Rightarrow> (FileManager, 'v, unit) meth" where
  "change_directory n B name =
     bnd (FileManager_find_file n B name) (\<lambda>found. case found of
       Some dir_record \<Rightarrow> modify (\<lambda>s. s\<lparr>current_directory := dir_record\<rparr>)
     | None \<Rightarrow> fail InvalidParameter)"

definition get_current_directory :: "FileManager \<Rightarrow> FileRecordNumber" where
  "get_current_directory self = current_directory self"

definition move_to_parent :: "(FileManager, 'v, unit) meth" where
  "move_to_parent = modify (\<lambda>s. s\<lparr>current_directory := 5\<rparr>)"

definition FileManager_get_stats :: "'v bdev \<Rightarrow> (FileManager, 'v, FilesystemStats) meth" where
  "FileManager_get_stats B = on_fs (get_stats B)"

definition FileManager_defragment :: "'v bdev \<Rightarrow> (FileManager, 'v, unit) meth" where
  "FileManager_defragment B = on_fs (GalleonFilesystem_defragment B)"

definition FileManager_sync :: "'v bdev \<Rightarrow> (FileManager, 'v, unit) meth" where
  "FileManager_sync B = on_fs (GalleonFilesystem_sync B)"

definition copy_file :: "nat \<Rightarrow> 'v bdev \<Rightarrow> bytes \<Rightarrow> bytes \<Rightarrow> (FileManager, 'v, FileRecordNumber) meth" where
  "copy_file n B source_name dest_name =
     bnd (FileManager_find_file n B source_name) (\<lambda>found. case found of
       None \<Rightarrow> fail InvalidParameter
     | Some source_record \<Rightarrow>
         bnd (read_file_binary B source_record) (\<lambda>data.
           create_file_binary n B dest_name data))"

definition move_file :: "nat \<Rightarrow> 'v bdev \<Rightarrow> bytes \<Rightarrow> bytes \<Rightarrow> (FileManager, 'v, unit) meth" where
  "move_file n B old_name new_name =
     bnd (copy_file n B old_name new_name) (\<lambda>_. FileManager_delete_file n B old_name)"

definition get_file_size :: "'v bdev \<Rightarrow> FileRecordNumber \<Rightarrow> (FileManager, 'v, u64) meth" where
  "get_file_size B rn = bnd (read_file_binary B rn) (\<lambda>data. ret (of_nat (length data)))"

definition file_exists :: "nat \<Rightarrow> 'v bdev \<Rightarrow> bytes \<Rightarrow> (FileManager, 'v, bool) meth" where
  "file_exists n B name = bnd (FileManager_find_file n B name) (\<lambda>found. ret (found \<noteq> None))"

definition append_file_text :: "'v bdev \<Rightarrow> FileRecordNumber \<Rightarrow> bytes \<Rightarrow> (FileManager, 'v, unit) meth" where
  "append_file_text B rn additional_content =
     bnd (read_file_binary B rn) (\<lambda>existing_data.
       write_file_binary B rn (existing_data @ additional_content))"

definition append_file_binary :: "'v bdev \<Rightarrow> FileRecordNumber \<Rightarrow> bytes \<Rightarrow> (FileManager, 'v, unit) meth" where
  "append_file_binary B rn additional_data =
     bnd (read_file_binary B rn) (\<lambda>existing_data.
       write_file_binary B rn (existing_data @ additional_data))"

definition truncate_file :: "'v bdev \<Rightarrow> FileRecordNumber \<Rightarrow> nat \<Rightarrow> (FileManager, 'v, unit) meth" where
  "truncate_file B rn new_size =
     bnd (read_file_binary B rn) (\<lambda>data.
       if new_size < length data then write_file_binary B rn (take new_size data) else ret ())"

definition create_file_at_path :: "nat \<Rightarrow> 'v bdev \<Rightarrow> bytes \<Rightarrow> bytes \<Rightarrow> bytes option \<Rightarrow> (FileManager, 'v, FileRecordNumber) meth" where
  "create_file_at_path n B path name contents = FileManager_create_file n B name contents"

definition list_files_at_path :: "nat \<Rightarrow> 'v bdev \<Rightarrow> bytes \<Rightarrow> (FileManager, 'v, (bytes \<times> FileRecordNumber) list) meth" where
  "list_files_at_path n B path = list_files n B"

definition delete_file_at_path :: "nat \<Rightarrow> 'v bdev \<Rightarrow> bytes \<Rightarrow> bytes \<Rightarrow> (FileManager, 'v, unit) meth" where
  "delete_file_at_path n B path name = FileManager_delete_file n B name"

text \<open>The functions of the old interface mount the drive for one call; the listing is a stub.\<close>

definition legacy_create_file :: "nat \<Rightarrow> 'v bdev \<Rightarrow> u8 \<Rightarrow> bytes \<Rightarrow> bytes option \<Rightarrow> ('v, unit) fs" where
  "legacy_create_file n B drive name contents =
     bnd (mount_drive B drive) (\<lambda>manager.
     bnd (run_on manager (bnd (FileManager_create_file n B name contents) (\<lambda>_. FileManager_sync B))) (\<lambda>_.
       ret ()))"

definition legacy_delete_file :: "nat \<Rightarrow> 'v bdev \<Rightarrow> u8 \<Rightarrow> bytes \<Rightarrow> ('v, unit) fs" where
  "legacy_delete_file n B drive name =
     bnd (mount_drive B drive) (\<lambda>manager.
     bnd (run_on manager (bnd (FileManager_delete_file n B name) (\<lambda>_. FileManager_sync B))) (\<lambda>_.
       ret ()))"

definition legacy_list_files :: "u8 \<Rightarrow> bytes \<Rightarrow> (fs_error, bytes list) res" where
  "legacy_list_files drive path = Ok []"

section \<open>Properties\<close>

lemma zoomed_fst: "fst (bnd (zoom g p m) f (s, w)) = (case m (g s, w) of
    (Ok x, (t, w')) \<Rightarrow> fst (f x (p t s, w')) | (Err e, t) \<Rightarrow> Err e | (Panic, t) \<Rightarrow> Panic)"
  by (simp add: zoom_def bnd_def split: prod.splits res.splits)



end
