(* ===== verification/Ide.thy ===== *)
theory Ide
  imports Block_Device
begin

text \<open>
  The disk driver, \<^verbatim>\<open>drivers/ide/src/lib.rs\<close>, with the port instructions of \<^verbatim>\<open>lib_kernel/src/api/commands.rs\<close>.
  The hardware behind the ports is a parameter \<open>P\<close> of the definitions. The locale \<open>ata_controller\<close> says that it follows
  the PIO protocol of the ATA standard; under it the driver is a \<open>block_device\<close>. The delay loop \<^verbatim>\<open>sleep\<close>
  and the console messages are left out.
\<close>

section \<open>Constants\<close>

definition ATA_SR_BSY :: u8 where "ATA_SR_BSY = 0x80"
definition ATA_SR_DF :: u8 where "ATA_SR_DF = 0x20"
definition ATA_SR_DRQ :: u8 where "ATA_SR_DRQ = 0x08"
definition ATA_SR_ERR :: u8 where "ATA_SR_ERR = 0x01"

definition ATA_CMD_READ_PIO :: u8 where "ATA_CMD_READ_PIO = 0x20"
definition ATA_CMD_WRITE_PIO :: u8 where "ATA_CMD_WRITE_PIO = 0x30"
definition ATA_CMD_CACHE_FLUSH :: u8 where "ATA_CMD_CACHE_FLUSH = 0xE7"
definition ATA_CMD_IDENTIFY_PACKET :: u8 where "ATA_CMD_IDENTIFY_PACKET = 0xA1"
definition ATA_CMD_IDENTIFY :: u8 where "ATA_CMD_IDENTIFY = 0xEC"

definition ATA_IDENT_MODEL :: u8 where "ATA_IDENT_MODEL = 54"
definition IDE_ATA :: u8 where "IDE_ATA = 0x00"
definition IDE_ATAPI :: u8 where "IDE_ATAPI = 0x01"

definition ATA_REG_DATA :: u8 where "ATA_REG_DATA = 0x00"
definition ATA_REG_ERROR :: u8 where "ATA_REG_ERROR = 0x01"
definition ATA_REG_SECCOUNT0 :: u8 where "ATA_REG_SECCOUNT0 = 0x02"
definition ATA_REG_LBA0 :: u8 where "ATA_REG_LBA0 = 0x03"
definition ATA_REG_LBA1 :: u8 where "ATA_REG_LBA1 = 0x04"
definition ATA_REG_LBA2 :: u8 where "ATA_REG_LBA2 = 0x05"
definition ATA_REG_HDDEVSEL :: u8 where "ATA_REG_HDDEVSEL = 0x06"
definition ATA_REG_COMMAND :: u8 where "ATA_REG_COMMAND = 0x07"
definition ATA_REG_STATUS :: u8 where "ATA_REG_STATUS = 0x07"
definition ATA_REG_ALTSTATUS :: u8 where "ATA_REG_ALTSTATUS = 0x0C"

lemmas ata_consts = ATA_SR_BSY_def ATA_SR_DF_def ATA_SR_DRQ_def ATA_SR_ERR_def ATA_CMD_READ_PIO_def ATA_CMD_WRITE_PIO_def
  ATA_CMD_CACHE_FLUSH_def ATA_CMD_IDENTIFY_PACKET_def ATA_CMD_IDENTIFY_def ATA_IDENT_MODEL_def IDE_ATA_def IDE_ATAPI_def
  ATA_REG_DATA_def ATA_REG_ERROR_def ATA_REG_SECCOUNT0_def ATA_REG_LBA0_def ATA_REG_LBA1_def ATA_REG_LBA2_def
  ATA_REG_HDDEVSEL_def ATA_REG_COMMAND_def ATA_REG_STATUS_def ATA_REG_ALTSTATUS_def


section \<open>Ports and state\<close>

record 'h ports =
  p_inb :: "u16 \<Rightarrow> 'h \<Rightarrow> u8 \<times> 'h"
  p_outb :: "u16 \<Rightarrow> u8 \<Rightarrow> 'h \<Rightarrow> 'h"
  p_inw :: "u16 \<Rightarrow> 'h \<Rightarrow> u16 \<times> 'h"
  p_outw :: "u16 \<Rightarrow> u16 \<Rightarrow> 'h \<Rightarrow> 'h"

record IDEChannelRegistors =
  ch_base :: u16
  ch_ctrl :: u16
  bmide :: u16
  n_ien :: u8

record IdeDevice =
  reserved :: u8
  dev_channel :: u8
  dev_drive :: u8
  drive_type :: u16
  dev_signature :: u16
  capabilities :: u16
  command_sets :: u32
  dev_size :: u32
  dev_model :: bytes

definition IdeDevice_new :: IdeDevice where
  "IdeDevice_new = \<lparr>reserved = 0, dev_channel = 0, dev_drive = 0, drive_type = 0, dev_signature = 0, capabilities = 0,
     command_sets = 0, dev_size = 0, dev_model = replicate 41 0\<rparr>"

text \<open>The hardware and the \<^verbatim>\<open>static mut\<close> variables of the driver, with their initial values.\<close>

record 'h ide =
  hw :: 'h
  CHANNELS :: "IDEChannelRegistors list"
  IDE_DEVICES :: "IdeDevice list"
  IDE_BUF :: bytes

definition CHANNELS_init :: "IDEChannelRegistors list" where
  "CHANNELS_init = [\<lparr>ch_base = 0x1F0, ch_ctrl = 0x3F6, bmide = 0, n_ien = 0\<rparr>,
     \<lparr>ch_base = 0x170, ch_ctrl = 0x376, bmide = 0, n_ien = 0\<rparr>]"

definition ide_start :: "'h \<Rightarrow> 'h ide" where
  "ide_start h = \<lparr>hw = h, CHANNELS = CHANNELS_init, IDE_DEVICES = replicate 4 IdeDevice_new, IDE_BUF = replicate 2048 0\<rparr>"

type_synonym ('h, 'a) drv = "('h ide, ide_error, 'a) prog"

definition inb :: "'h ports \<Rightarrow> u16 \<Rightarrow> ('h, u8) drv" where
  "inb P port = (\<lambda>s. case p_inb P port (hw s) of (v, h) \<Rightarrow> (Ok v, s\<lparr>hw := h\<rparr>))"

definition outb :: "'h ports \<Rightarrow> u16 \<Rightarrow> u8 \<Rightarrow> ('h, unit) drv" where
  "outb P port v = (\<lambda>s. (Ok (), s\<lparr>hw := p_outb P port v (hw s)\<rparr>))"

definition inw :: "'h ports \<Rightarrow> u16 \<Rightarrow> ('h, u16) drv" where
  "inw P port = (\<lambda>s. case p_inw P port (hw s) of (v, h) \<Rightarrow> (Ok v, s\<lparr>hw := h\<rparr>))"

definition outw :: "'h ports \<Rightarrow> u16 \<Rightarrow> u16 \<Rightarrow> ('h, unit) drv" where
  "outw P port v = (\<lambda>s. (Ok (), s\<lparr>hw := p_outw P port v (hw s)\<rparr>))"

definition get_st :: "('h ide \<Rightarrow> 'a) \<Rightarrow> ('h, 'a) drv" where
  "get_st f = (\<lambda>s. (Ok (f s), s))"

definition set_st :: "('h ide \<Rightarrow> 'h ide) \<Rightarrow> ('h, unit) drv" where
  "set_st f = (\<lambda>s. (Ok (), f s))"

text \<open>An access to an array of the driver panics out of bounds.\<close>

definition nth_ck :: "'a list \<Rightarrow> nat \<Rightarrow> ('e, 'a) res" where
  "nth_ck xs i = (if i < length xs then Ok (xs ! i) else Panic)"

text \<open>Words are read into a buffer low byte first.\<close>

definition word_bytes :: "u16 \<Rightarrow> bytes" where
  "word_bytes w = [as_u8 (w AND 0xFF), as_u8 (drop_bit 8 w)]"

primrec in_words :: "'h ports \<Rightarrow> u16 \<Rightarrow> nat \<Rightarrow> ('h, bytes) drv" where
  "in_words P port 0 = ret []"
| "in_words P port (Suc n) = bnd (inw P port) (\<lambda>w. bnd (in_words P port n) (\<lambda>bs. ret (word_bytes w @ bs)))"

text \<open>The result and the buffer; the caller ignores the error, which leaves the buffer as it was.\<close>

definition read_port_words_safe :: "'h ports \<Rightarrow> u16 \<Rightarrow> bytes \<Rightarrow> ('h, (string + unit) \<times> bytes) drv" where
  "read_port_words_safe P port buffer =
     (if length buffer mod 2 \<noteq> 0 then ret (Inl ''Buffer length must be even for 16-bit reads'', buffer)
      else if length buffer > (2 ^ 32 - 1) * 2 then ret (Inl ''Buffer too large'', buffer)
      else bnd (in_words P port (length buffer div 2)) (\<lambda>bs. ret (Inr (), bs)))"

text \<open>\<^verbatim>\<open>rep outsw\<close>, from a buffer that holds at least \<open>count\<close> words.\<close>

primrec outsw :: "'h ports \<Rightarrow> u16 \<Rightarrow> bytes \<Rightarrow> nat \<Rightarrow> ('h, unit) drv" where
  "outsw P port buf 0 = ret ()"
| "outsw P port buf (Suc n) = bnd (outw P port (get_le 0 buf)) (\<lambda>_. outsw P port (drop 2 buf) n)"


section \<open>Registers and polling\<close>

definition port_of :: "u8 \<Rightarrow> u8 \<Rightarrow> ('h, u16) drv" where
  "port_of channel reg = bnd (get_st CHANNELS) (\<lambda>cs. bnd (lift_res (nth_ck cs (unat channel))) (\<lambda>c.
     if reg < 0x08 then lift_res (add_ck (ch_base c) (ucast reg)) else lift_res (add_ck (ch_ctrl c) (ucast (reg - 0x08)))))"

definition ide_read :: "'h ports \<Rightarrow> u8 \<Rightarrow> u8 \<Rightarrow> ('h, u8) drv" where
  "ide_read P channel reg = bnd (port_of channel reg) (inb P)"

definition ide_write :: "'h ports \<Rightarrow> u8 \<Rightarrow> u8 \<Rightarrow> u8 \<Rightarrow> ('h, unit) drv" where
  "ide_write P channel reg data = bnd (port_of channel reg) (\<lambda>port. outb P port data)"

definition ide_read_buffer :: "'h ports \<Rightarrow> u8 \<Rightarrow> u8 \<Rightarrow> nat \<Rightarrow> ('h, bytes) drv" where
  "ide_read_buffer P channel reg len = bnd (port_of channel reg) (\<lambda>port. in_words P port (len div 2))"

function poll_loop :: "'h ports \<Rightarrow> u8 \<Rightarrow> bool \<Rightarrow> nat \<Rightarrow> ('h, unit) drv" where
  "poll_loop P channel advanced_check timeout =
     bnd (ide_read P channel ATA_REG_STATUS) (\<lambda>status.
     if status AND ATA_SR_BSY = 0 then
       (if advanced_check then
          (if status AND ATA_SR_ERR \<noteq> 0 then fail StatusError
           else if status AND ATA_SR_DF \<noteq> 0 then fail DriveFault
           else if status AND ATA_SR_DRQ = 0 then fail DataNotReady
           else ret ())
        else ret ())
     else if timeout + 1 > 100000 then fail Timeout
     else poll_loop P channel advanced_check (timeout + 1))"
  by pat_completeness auto
termination by (relation "measure (\<lambda>(P, channel, advanced_check, timeout). 100001 - timeout)") auto

declare poll_loop.simps [simp del]

definition ide_polling :: "'h ports \<Rightarrow> u8 \<Rightarrow> bool \<Rightarrow> ('h, unit) drv" where
  "ide_polling P channel advanced_check =
     bnd (ide_read P channel ATA_REG_ALTSTATUS) (\<lambda>_. poll_loop P channel advanced_check 0)"


section \<open>Sector transfers\<close>

primrec read_loop :: "'h ports \<Rightarrow> u16 \<Rightarrow> nat list \<Rightarrow> bytes \<Rightarrow> ('h, bytes) drv" where
  "read_loop P bus [] buf = ret buf"
| "read_loop P bus (sector # ss) buf =
     (let sector_offset = sector * 512 in
      if sector_offset + 512 > length buf then fail BufferTooSmall
      else bnd (read_port_words_safe P bus (window 512 sector_offset buf)) (\<lambda>(r, sector_buf).
        read_loop P bus ss (splice buf sector_offset sector_buf)))"

definition select_and_issue :: "'h ports \<Rightarrow> u8 \<Rightarrow> u8 \<Rightarrow> u8 \<Rightarrow> u8 \<Rightarrow> u32 \<Rightarrow> u8 \<Rightarrow> ('h, unit) drv" where
  "select_and_issue P channel slavebit head numsects lba cmd =
     bnd (ide_write P channel ATA_REG_HDDEVSEL (0xE0 OR push_bit 4 slavebit OR head)) (\<lambda>_.
     bnd (ide_write P channel ATA_REG_SECCOUNT0 numsects) (\<lambda>_.
     bnd (ide_write P channel ATA_REG_LBA0 (as_u8 lba)) (\<lambda>_.
     bnd (ide_write P channel ATA_REG_LBA1 (as_u8 (drop_bit 8 lba))) (\<lambda>_.
     bnd (ide_write P channel ATA_REG_LBA2 (as_u8 (drop_bit 16 lba))) (\<lambda>_.
       ide_write P channel ATA_REG_COMMAND cmd)))))"

definition ide_read_sectors :: "'h ports \<Rightarrow> u8 \<Rightarrow> u8 \<Rightarrow> u32 \<Rightarrow> bytes \<Rightarrow> ('h, bytes) drv" where
  "ide_read_sectors P drive numsects lba buf =
     (if drive > 3 then fail IdeInvalidParameter
      else bnd (get_st IDE_DEVICES) (\<lambda>ds. bnd (lift_res (nth_ck ds (unat drive))) (\<lambda>device.
        if reserved device = 0 then fail IdeDriveNotFound
        else if length buf < unat numsects * 512 then fail BufferTooSmall
        else
        let channel = dev_channel device; slavebit = dev_drive device in
        bnd (get_st CHANNELS) (\<lambda>cs. bnd (lift_res (nth_ck cs (unat channel))) (\<lambda>c.
        let bus = ch_base c;
            head = (if lba \<ge> 0x10000000 then 0 else as_u8 (drop_bit 24 lba AND 0x0F))
        in
        bnd (select_and_issue P channel slavebit head numsects lba ATA_CMD_READ_PIO) (\<lambda>_.
        bnd (ide_polling P channel True) (\<lambda>_.
          read_loop P bus [0..<unat numsects] buf)))))))"

definition ide_write_sectors :: "'h ports \<Rightarrow> u8 \<Rightarrow> u8 \<Rightarrow> u32 \<Rightarrow> bytes \<Rightarrow> ('h, unit) drv" where
  "ide_write_sectors P drive numsects lba buf =
     (if drive > 3 then fail IdeInvalidParameter
      else bnd (get_st IDE_DEVICES) (\<lambda>ds. bnd (lift_res (nth_ck ds (unat drive))) (\<lambda>device.
        if reserved device = 0 then fail IdeDriveNotFound
        else if length buf < unat numsects * 512 then fail BufferTooSmall
        else
        let channel = dev_channel device; slavebit = dev_drive device in
        bnd (get_st CHANNELS) (\<lambda>cs. bnd (lift_res (nth_ck cs (unat channel))) (\<lambda>c.
        let bus = ch_base c in
        if lba \<ge> 0x10000000 then fail LbaOutOfRange
        else
        let head = as_u8 (drop_bit 24 lba AND 0x0F) in
        bnd (select_and_issue P channel slavebit head numsects lba ATA_CMD_WRITE_PIO) (\<lambda>_.
        bnd (ide_polling P channel False) (\<lambda>_.
        bnd (outsw P bus buf (unat numsects * 256)) (\<lambda>_.
        bnd (ide_write P channel ATA_REG_COMMAND ATA_CMD_CACHE_FLUSH) (\<lambda>_.
          ide_polling P channel False)))))))))"

definition return_drive_size_bytes :: "'h ports \<Rightarrow> u8 \<Rightarrow> ('h, u64) drv" where
  "return_drive_size_bytes P drive =
     (if drive > 3 then fail IdeDriveNotFound
      else bnd (get_st IDE_DEVICES) (\<lambda>ds. bnd (lift_res (nth_ck ds (unat drive))) (\<lambda>device.
        if reserved device = 0 then fail IdeDriveNotFound
        else if as_u8 (drive_type device) = IDE_ATA then ret (as_u64 (dev_size device) * 512)
        else ret 0)))"

definition ide_bdev :: "'h ports \<Rightarrow> 'h ide bdev" where
  "ide_bdev P = \<lparr>bd_read = ide_read_sectors P, bd_write = ide_write_sectors P, bd_size = return_drive_size_bytes P\<rparr>"


section \<open>Identification\<close>

function identify_wait :: "'h ports \<Rightarrow> u8 \<Rightarrow> nat \<Rightarrow> ('h, unit) drv" where
  "identify_wait P channel timeout =
     bnd (ide_read P channel ATA_REG_STATUS) (\<lambda>status.
     if status AND ATA_SR_BSY = 0 then ret ()
     else if timeout + 1 > 100000 then fail Timeout
     else identify_wait P channel (timeout + 1))"
  by pat_completeness auto
termination by (relation "measure (\<lambda>(P, channel, timeout). 100001 - timeout)") auto

declare identify_wait.simps [simp del]

definition put_device :: "nat \<Rightarrow> (IdeDevice \<Rightarrow> IdeDevice) \<Rightarrow> ('h, unit) drv" where
  "put_device i f = bnd (get_st IDE_DEVICES) (\<lambda>ds. bnd (lift_res (nth_ck ds i)) (\<lambda>device.
     set_st (\<lambda>s. s\<lparr>IDE_DEVICES := (IDE_DEVICES s)[i := f device]\<rparr>)))"

text \<open>The fields that the identification data gives, for each of the two device types.\<close>

definition model_of :: "bytes \<Rightarrow> bytes" where
  "model_of buf = concat (map (\<lambda>i. let w = get_le (2 * (unat ATA_IDENT_MODEL div 2 + i)) buf :: u16
     in [as_u8 (drop_bit 8 w), as_u8 (w AND 0xFF)]) [0..<20]) @ [0]"

definition ata_device :: "bytes \<Rightarrow> IdeDevice \<Rightarrow> IdeDevice" where
  "ata_device buf d =
     (let wd = (\<lambda>i. get_le (2 * i) buf :: u16);
          cmd_sets = as_u32 (wd 82) OR push_bit 16 (as_u32 (wd 83));
          sectors_28bit = as_u32 (wd 60) OR push_bit 16 (as_u32 (wd 61));
          supports_48bit = (cmd_sets AND push_bit 26 1 \<noteq> 0);
          sectors_48bit = as_u64 (wd 100) OR push_bit 16 (as_u64 (wd 101)) OR push_bit 32 (as_u64 (wd 102)) OR push_bit 48 (as_u64 (wd 103))
      in d\<lparr>dev_signature := wd 0, capabilities := wd 49, command_sets := cmd_sets,
           dev_size := (if supports_48bit \<and> sectors_28bit = 0xFFFFFFFF then as_u32 sectors_48bit else sectors_28bit),
           dev_model := model_of buf\<rparr>)"

definition atapi_device :: "bytes \<Rightarrow> IdeDevice \<Rightarrow> IdeDevice" where
  "atapi_device buf d = d\<lparr>dev_signature := get_le 0 buf, capabilities := get_le 98 buf, dev_size := 0, dev_model := model_of buf\<rparr>"

definition ide_identify :: "'h ports \<Rightarrow> u8 \<Rightarrow> u8 \<Rightarrow> ('h, unit) drv" where
  "ide_identify P channel drive =
     (let device_index = unat channel * 2 + unat drive in
     bnd (ide_write P channel ATA_REG_HDDEVSEL (0xA0 OR push_bit 4 drive)) (\<lambda>_.
     bnd (ide_write P channel ATA_REG_COMMAND ATA_CMD_IDENTIFY) (\<lambda>_.
     bnd (ide_read P channel ATA_REG_STATUS) (\<lambda>status.
     if status = 0 then bnd (put_device device_index (\<lambda>d. d\<lparr>reserved := 0\<rparr>)) (\<lambda>_. fail IdeDriveNotFound)
     else
     bnd (identify_wait P channel 0) (\<lambda>_.
     bnd (ide_read P channel ATA_REG_ERROR) (\<lambda>err.
     bnd (if err \<noteq> 0 then bnd (ide_write P channel ATA_REG_COMMAND ATA_CMD_IDENTIFY_PACKET) (\<lambda>_. ret IDE_ATAPI)
          else ret IDE_ATA) (\<lambda>type.
     bnd (put_device device_index (\<lambda>_. IdeDevice_new\<lparr>reserved := 1, dev_channel := channel, dev_drive := drive, drive_type := ucast type\<rparr>)) (\<lambda>_.
     bnd (ide_read_buffer P channel ATA_REG_DATA 512) (\<lambda>data.
     bnd (set_st (\<lambda>s. s\<lparr>IDE_BUF := splice (IDE_BUF s) 0 data\<rparr>)) (\<lambda>_.
     bnd (get_st IDE_BUF) (\<lambda>buf.
       if type = IDE_ATA then put_device device_index (ata_device buf)
       else if type = IDE_ATAPI then put_device device_index (atapi_device buf)
       else ret ())))))))))))"

primrec identify_all :: "'h ports \<Rightarrow> nat list \<Rightarrow> ('h, unit) drv" where
  "identify_all P [] = ret ()"
| "identify_all P (i # is) = (\<lambda>s. case ide_identify P (of_nat (i div 2)) (of_nat (i mod 2)) s of
      (Panic, s') \<Rightarrow> (Panic, s')
    | (r, s') \<Rightarrow> identify_all P is s')"

definition ide_initialize :: "'h ports \<Rightarrow> ('h, unit) drv" where
  "ide_initialize P =
     bnd (set_st (\<lambda>s. s\<lparr>CHANNELS := map (\<lambda>c. c\<lparr>n_ien := 0x02\<rparr>) (CHANNELS s), IDE_DEVICES := replicate 4 IdeDevice_new\<rparr>)) (\<lambda>_.
       identify_all P [0..<4])"

section \<open>The PIO protocol\<close>

text \<open>
  The part of the ATA standard that the driver relies on, as an automaton. Each channel has a task file of registers, a
  number of status reads for which it stays busy, and a data transfer in progress. \<open>lag\<close> is the number of status reads for which a device is busy after a
  command, \<open>gap\<close> the same between two sectors of a transfer, and \<open>noise\<close> what the data port returns while no data is
  ready. Requests beyond the capacity of a device are not described: every sector number has a content.
\<close>

datatype transfer = NoData | DataIn "u16 list" | DataOut nat "u16 list" nat

record chan =
  regs :: "nat \<Rightarrow> u8"
  busy :: nat
  xfer :: transfer

record ata =
  chan_of :: "nat \<Rightarrow> chan"
  disk :: "nat \<Rightarrow> nat \<Rightarrow> store option"
  ident :: "nat \<Rightarrow> nat \<Rightarrow> u16 list"
  lag :: nat
  gap :: nat
  noise :: u16

definition decode :: "u16 \<Rightarrow> (nat \<times> nat) option" where
  "decode p = (if 0x1F0 \<le> p \<and> p \<le> 0x1F7 then Some (0, unat (p - 0x1F0))
     else if 0x170 \<le> p \<and> p \<le> 0x177 then Some (1, unat (p - 0x170)) else None)"

definition dev_of :: "chan \<Rightarrow> nat" where
  "dev_of ch = (if bit (regs ch 6) 4 then 1 else 0)"

definition lba_of :: "chan \<Rightarrow> nat" where
  "lba_of ch = unat (regs ch 6 AND 0x0F) * 2 ^ 24 + unat (regs ch 5) * 2 ^ 16 + unat (regs ch 4) * 2 ^ 8 + unat (regs ch 3)"

definition count_of :: "chan \<Rightarrow> nat" where
  "count_of ch = (if regs ch 2 = 0 then 256 else unat (regs ch 2))"

fun words_of :: "bytes \<Rightarrow> u16 list" where
  "words_of (a # b # bs) = get_le 0 [a, b] # words_of bs"
| "words_of bs = []"

definition sector_words :: "store \<Rightarrow> nat \<Rightarrow> nat \<Rightarrow> u16 list" where
  "sector_words f l n = words_of (read_sectors (\<lambda>s. fit (f s)) l n)"

definition upd_chan :: "nat \<Rightarrow> (chan \<Rightarrow> chan) \<Rightarrow> ata \<Rightarrow> ata" where
  "upd_chan c f a = a\<lparr>chan_of := (chan_of a)(c := f (chan_of a c))\<rparr>"

definition ata_command :: "nat \<Rightarrow> u8 \<Rightarrow> ata \<Rightarrow> ata" where
  "ata_command c v a = (let ch = chan_of a c in case disk a c (dev_of ch) of
      None \<Rightarrow> a
    | Some f \<Rightarrow> upd_chan c (\<lambda>ch. ch\<lparr>busy := lag a, xfer :=
        (if v = 0x20 then DataIn (sector_words f (lba_of ch) (count_of ch))
         else if v = 0x30 then DataOut (lba_of ch) [] (256 * count_of ch)
         else if v = 0xEC then DataIn (ident a c (dev_of ch))
         else NoData)\<rparr>) a)"

definition out_reg :: "nat \<Rightarrow> nat \<Rightarrow> u8 \<Rightarrow> ata \<Rightarrow> ata" where
  "out_reg c r v a = (if r = 7 then ata_command c v a else upd_chan c (\<lambda>ch. ch\<lparr>regs := (regs ch)(r := v)\<rparr>) a)"

definition in_status :: "nat \<Rightarrow> ata \<Rightarrow> u8 \<times> ata" where
  "in_status c a = (let ch = chan_of a c in
     if disk a c (dev_of ch) = None then (0, a)
     else if busy ch > 0 then (0x80, upd_chan c (\<lambda>ch. ch\<lparr>busy := busy ch - 1\<rparr>) a)
     else (if xfer ch = NoData then 0x40 else 0x48, a))"

definition in_data :: "nat \<Rightarrow> ata \<Rightarrow> u16 \<times> ata" where
  "in_data c a = (let ch = chan_of a c in case xfer ch of
      DataIn (w # ws) \<Rightarrow>
        if busy ch > 0 then (noise a, a)
        else (w, upd_chan c (\<lambda>ch. ch\<lparr>busy := (if ws \<noteq> [] \<and> length ws mod 256 = 0 then gap a else 0),
               xfer := (if ws = [] then NoData else DataIn ws)\<rparr>) a)
    | _ \<Rightarrow> (noise a, a))"

definition out_data :: "nat \<Rightarrow> u16 \<Rightarrow> ata \<Rightarrow> ata" where
  "out_data c w a = (let ch = chan_of a c in case xfer ch of
      DataOut l ws (Suc k) \<Rightarrow>
        if busy ch > 0 then a
        else if k > 0 then upd_chan c (\<lambda>ch. ch\<lparr>busy := (if k mod 256 = 0 then gap a else 0), xfer := DataOut l (ws @ [w]) k\<rparr>) a
        else (upd_chan c (\<lambda>ch. ch\<lparr>busy := lag a, xfer := NoData\<rparr>) a)\<lparr>disk := (disk a)(c := (disk a c)(dev_of ch :=
               map_option (\<lambda>f. write_sectors f l (Suc (length ws) div 256) (concat (map word_bytes (ws @ [w])))) (disk a c (dev_of ch))))\<rparr>
    | _ \<Rightarrow> a)"

definition ata_ports :: "ata ports" where
  "ata_ports = \<lparr>p_inb = (\<lambda>p a. case decode p of
        Some (c, r) \<Rightarrow> if r = 7 then in_status c a else if r = 1 then (0, a) else (regs (chan_of a c) r, a)
      | None \<Rightarrow> (0xFF, a)),
    p_outb = (\<lambda>p v a. case decode p of Some (c, r) \<Rightarrow> out_reg c r v a | None \<Rightarrow> a),
    p_inw = (\<lambda>p a. case decode p of Some (c, r) \<Rightarrow> if r = 0 then in_data c a else (0xFFFF, a) | None \<Rightarrow> (0xFFFF, a)),
    p_outw = (\<lambda>p w a. case decode p of Some (c, r) \<Rightarrow> if r = 0 then out_data c w a else a | None \<Rightarrow> a)\<rparr>"

text \<open>
  Hardware follows the protocol if its state can be seen as a state of the automaton and every port access acts on that view.
\<close>

locale ata_controller =
  fixes P :: "'h ports"
    and view :: "'h \<Rightarrow> ata"
  assumes view_inb: "map_prod id view (p_inb P p h) = p_inb ata_ports p (view h)"
    and view_outb: "view (p_outb P p v h) = p_outb ata_ports p v (view h)"
    and view_inw: "map_prod id view (p_inw P p h) = p_inw ata_ports p (view h)"
    and view_outw: "view (p_outw P p x h) = p_outw ata_ports p x (view h)"

interpretation automaton: ata_controller ata_ports id
  by unfold_locales (simp_all add: prod.map_id0)


section \<open>The driver on the automaton\<close>

text \<open>The state in which calls start and end: the channels at their ports, both idle.\<close>

definition wired :: "'h ide \<Rightarrow> bool" where
  "wired s \<longleftrightarrow> map ch_base (CHANNELS s) = [0x1F0, 0x170] \<and> map ch_ctrl (CHANNELS s) = [0x3F6, 0x376]"

definition idle :: "ata \<Rightarrow> bool" where
  "idle a \<longleftrightarrow> (\<forall>c. busy (chan_of a c) = 0 \<and> xfer (chan_of a c) = NoData)"

lemma wired_hw [simp]: "wired (s\<lparr>hw := h\<rparr>) = wired s"
  by (simp add: wired_def)

definition base_of :: "u8 \<Rightarrow> u16" where
  "base_of c = (if c = 0 then 0x1F0 else 0x170)"

lemma less_2: "c < 2 \<Longrightarrow> c = 0 \<or> c = 1" for c :: u8
proof -
  assume "c < 2"
  then have "unat c < 2" by (simp add: word_less_nat_alt)
  then have "unat c = unat (0 :: u8) \<or> unat c = unat (1 :: u8)" by auto
  then show ?thesis by (simp only: word_unat_eq_iff)
qed

lemma wiredD:
  assumes "wired s" "c < 2"
  obtains x where "nth_ck (CHANNELS s) (unat c) = (Ok x :: (ide_error, IDEChannelRegistors) res)" "ch_base x = base_of c" "ch_ctrl x = (if c = 0 then 0x3F6 else 0x376)"
proof -
  obtain a b where "CHANNELS s = [a, b]" using assms(1) by (auto simp: wired_def map_eq_Cons_conv)
  moreover have "c = 0 \<or> c = 1" by (rule less_2 [OF assms(2)])
  ultimately show ?thesis using assms(1) that by (auto simp: wired_def nth_ck_def base_of_def)
qed

lemma ucast_u16: "unat (ucast r :: u16) = unat r" for r :: u8
  by (rule ucast_small) (use unat_bound [of r] in simp)

lemma reg_port:
  fixes r :: u8
  assumes "c < 2" "r < 8"
  shows "decode (base_of c + ucast r) = Some (unat c, unat r)" "add_ck (base_of c) (ucast r) = (Ok (base_of c + ucast r) :: (ide_error, u16) res)"
proof -
  have r: "unat r < 8" using assms(2) by (simp add: word_less_nat_alt)
  have b: "unat (base_of c) = (if c = 0 then 0x1F0 else 0x170)" by (simp add: base_of_def)
  have s: "unat (base_of c + ucast r) = unat (base_of c) + unat r" using r b by (simp add: unat_add_no_wrap ucast_u16)
  have d: "base_of c + ucast r - base_of c = ucast r" by simp
  show "add_ck (base_of c) (ucast r) = (Ok (base_of c + ucast r) :: (ide_error, u16) res)"
    using r b by (simp add: add_ck_def ucast_u16)
  show "decode (base_of c + ucast r) = Some (unat c, unat r)"
  proof (cases "c = 0")
    case True
    then have "0x1F0 \<le> base_of c + ucast r" "base_of c + ucast r \<le> 0x1F7" "base_of c + ucast r - 0x1F0 = ucast r"
      using s b r d by (simp_all add: word_le_nat_alt) (simp add: base_of_def)
    then show ?thesis using True by (simp add: decode_def ucast_u16)
  next
    case False
    then have c: "c = 1" using less_2 [OF assms(1)] by simp
    have "\<not> 0x1F0 \<le> base_of c + ucast r" "0x170 \<le> base_of c + ucast r" "base_of c + ucast r \<le> 0x177" "base_of c + ucast r - 0x170 = ucast r"
      using s b r d False by (simp_all add: word_le_nat_alt) (simp add: base_of_def)
    then show ?thesis using c by (simp add: decode_def ucast_u16)
  qed
qed

lemma port_of_reg:
  assumes "wired s" "c < 2" "r < 8"
  shows "port_of c r s = (Ok (base_of c + ucast r), s)"
proof -
  obtain x where "nth_ck (CHANNELS s) (unat c) = (Ok x :: (ide_error, IDEChannelRegistors) res)" "ch_base x = base_of c"
    by (rule wiredD [OF assms(1,2)])
  then show ?thesis using assms(3) reg_port(2) [OF assms(2,3)] by (simp add: port_of_def get_st_def bnd_def)
qed

lemma ide_write_reg:
  assumes "wired s" "c < 2" "r < 8"
  shows "ide_write ata_ports c r v s = (Ok (), s\<lparr>hw := out_reg (unat c) (unat r) v (hw s)\<rparr>)"
  using port_of_reg [OF assms] reg_port(1) [OF assms(2,3)] by (simp add: ide_write_def bnd_def outb_def ata_ports_def)

lemma ide_read_status:
  assumes "wired s" "c < 2"
  shows "ide_read ata_ports c ATA_REG_STATUS s = (case in_status (unat c) (hw s) of (v, h) \<Rightarrow> (Ok v, s\<lparr>hw := h\<rparr>))"
  using port_of_reg [OF assms, of 7] reg_port(1) [OF assms(2), of 7] by (simp add: ide_read_def bnd_def inb_def ata_ports_def ata_consts)

text \<open>The read of the alternate status goes to a port of another device.\<close>

lemma ide_read_alternate:
  assumes "wired s" "c < 2"
  shows "ide_read ata_ports c ATA_REG_ALTSTATUS s = (Ok 0xFF, s)"
proof -
  obtain x where "nth_ck (CHANNELS s) (unat c) = (Ok x :: (ide_error, IDEChannelRegistors) res)" "ch_ctrl x = (if c = 0 then 0x3F6 else 0x376)"
    by (rule wiredD [OF assms])
  then show ?thesis
    by (simp add: ide_read_def port_of_def bnd_def get_st_def ata_consts add_ck_def inb_def ata_ports_def decode_def)
qed

lemma upd_chan_simps [simp]:
  "chan_of (upd_chan c f a) c = f (chan_of a c)" "c' \<noteq> c \<Longrightarrow> chan_of (upd_chan c f a) c' = chan_of a c'"
  "disk (upd_chan c f a) = disk a" "ident (upd_chan c f a) = ident a" "lag (upd_chan c f a) = lag a"
  "gap (upd_chan c f a) = gap a" "noise (upd_chan c f a) = noise a"
  "upd_chan c f (upd_chan c g a) = upd_chan c (\<lambda>ch. f (g ch)) a"
  by (simp_all add: upd_chan_def)

lemma chan_order [simp]: "ch\<lparr>xfer := x, busy := b\<rparr> = ch\<lparr>busy := b, xfer := x\<rparr>"
  by (rule chan.equality) simp_all

lemma dev_of_simps [simp]: "dev_of (ch\<lparr>busy := b\<rparr>) = dev_of ch" "dev_of (ch\<lparr>xfer := x\<rparr>) = dev_of ch"
  by (simp_all add: dev_of_def)

text \<open>Polling waits until a busy device is ready.\<close>

lemma poll_loop_ready:
  assumes "wired s" "c < 2" "disk (hw s) (unat c) (dev_of (chan_of (hw s) (unat c))) \<noteq> None"
    and "busy (chan_of (hw s) (unat c)) = k" "t + k \<le> 100000" "adv \<longrightarrow> xfer (chan_of (hw s) (unat c)) \<noteq> NoData"
  shows "poll_loop ata_ports c adv t s = (Ok (), s\<lparr>hw := upd_chan (unat c) (\<lambda>ch. ch\<lparr>busy := 0\<rparr>) (hw s)\<rparr>)"
  using assms
proof (induction k arbitrary: s t)
  case 0
  have "(chan_of (hw s) (unat c))\<lparr>busy := 0\<rparr> = chan_of (hw s) (unat c)" by (rule chan.equality) (simp_all add: 0(4))
  then have "s\<lparr>hw := upd_chan (unat c) (\<lambda>ch. ch\<lparr>busy := 0\<rparr>) (hw s)\<rparr> = s" by (simp add: upd_chan_def)
  moreover have st: "ide_read ata_ports c ATA_REG_STATUS s = (Ok (if xfer (chan_of (hw s) (unat c)) = NoData then 0x40 else 0x48), s)"
    using 0 by (simp add: ide_read_status in_status_def Let_def)
  ultimately show ?case
    using 0(6) by (subst poll_loop.simps, subst bnd_Ok [where m = "ide_read ata_ports c ATA_REG_STATUS", OF st]) (simp add: ata_consts)
next
  case (Suc k)
  let ?s = "s\<lparr>hw := upd_chan (unat c) (\<lambda>ch. ch\<lparr>busy := busy ch - 1\<rparr>) (hw s)\<rparr>"
  have st: "ide_read ata_ports c ATA_REG_STATUS s = (Ok 0x80, ?s)" using Suc.prems by (simp add: ide_read_status in_status_def Let_def)
  have "poll_loop ata_ports c adv (t + 1) ?s = (Ok (), ?s\<lparr>hw := upd_chan (unat c) (\<lambda>ch. ch\<lparr>busy := 0\<rparr>) (hw ?s)\<rparr>)"
    using Suc.prems by (intro Suc.IH) simp_all
  then show ?case
    using Suc.prems(5) by (subst poll_loop.simps, subst bnd_Ok [where m = "ide_read ata_ports c ATA_REG_STATUS", OF st]) (simp add: ATA_SR_BSY_def)
qed

lemma ide_polling_ready:
  assumes "wired s" "c < 2" "disk (hw s) (unat c) (dev_of (chan_of (hw s) (unat c))) \<noteq> None"
    and "busy (chan_of (hw s) (unat c)) \<le> 100000" "adv \<longrightarrow> xfer (chan_of (hw s) (unat c)) \<noteq> NoData"
  shows "ide_polling ata_ports c adv s = (Ok (), s\<lparr>hw := upd_chan (unat c) (\<lambda>ch. ch\<lparr>busy := 0\<rparr>) (hw s)\<rparr>)"
  using poll_loop_ready [OF assms(1-3) refl _ assms(5), of 0] assms(4) ide_read_alternate [OF assms(1,2)]
  by (simp add: ide_polling_def bnd_def)

lemma word_bytes_le: "word_bytes w = to_le_bytes w"
proof -
  have "unat (as_u8 (w AND 0xFF)) = unat w mod 256"
  proof -
    have "w AND 0xFF = take_bit 8 w" by (simp add: take_bit_eq_mask mask_eq_exp_minus_1)
    then show ?thesis by (simp add: unsigned_ucast_eq take_bit_eq_mod unat_mod)
  qed
  moreover have "unat (as_u8 (drop_bit 8 w)) = unat w div 256 mod 256"
    by (simp add: unsigned_ucast_eq take_bit_eq_mod drop_bit_eq_div unat_div)
  ultimately show ?thesis
    by (simp add: word_bytes_def to_le_bytes_def numeral_2_eq_2 word_unat_eq_iff)
qed

lemma word_bytes_pair: "word_bytes (get_le 0 [a, b]) = [a, b]"
  using to_from_le_bytes [where 'l = 16 and bs = "[a, b]"] by (simp add: get_le_def window_def word_bytes_le)

lemma word_bytes_get_le: "2 \<le> length bs \<Longrightarrow> word_bytes (get_le 0 bs) = take 2 bs"
proof -
  assume "2 \<le> length bs"
  then obtain a b cs where "bs = a # b # cs" by (cases bs; cases "tl bs") auto
  moreover have "get_le 0 (a # b # cs) = (get_le 0 [a, b] :: u16)" by (simp add: get_le_def window_def)
  ultimately show ?thesis by (simp add: word_bytes_pair numeral_2_eq_2)
qed

lemma length_word_bytes [simp]: "length (word_bytes w) = 2"
  by (simp add: word_bytes_def)

lemma words_of_bytes: "even (length bs) \<Longrightarrow> concat (map word_bytes (words_of bs)) = bs"
  by (induction bs rule: words_of.induct) (simp_all add: word_bytes_pair)

lemma length_words_of: "length (words_of bs) = length bs div 2"
  by (induction bs rule: words_of.induct) simp_all

lemma sector_words_bytes:
  "concat (map word_bytes (sector_words f l n)) = read_sectors (\<lambda>s. fit (f s)) l n" "length (sector_words f l n) = 256 * n"
proof -
  have l: "length (read_sectors (\<lambda>s. fit (f s)) l n) = n * 512" by (rule length_read_sectors) (simp add: sectored_def)
  show "concat (map word_bytes (sector_words f l n)) = read_sectors (\<lambda>s. fit (f s)) l n"
    unfolding sector_words_def by (rule words_of_bytes) (simp add: l)
  show "length (sector_words f l n) = 256 * n" by (simp add: sector_words_def length_words_of l)
qed

definition in_progress :: "nat \<Rightarrow> u16 list \<Rightarrow> ata \<Rightarrow> ata" where
  "in_progress c ws = upd_chan c (\<lambda>ch. ch\<lparr>busy := 0, xfer := (if ws = [] then NoData else DataIn ws)\<rparr>)"

lemma in_words_data:
  assumes "c < 2" "gap (hw s) = 0" "length ws = n"
  shows "in_words ata_ports (base_of c) n (s\<lparr>hw := in_progress (unat c) (ws @ rs) (hw s)\<rparr>)
    = (Ok (concat (map word_bytes ws)), s\<lparr>hw := in_progress (unat c) rs (hw s)\<rparr>)"
  using assms(3)
proof (induction n arbitrary: ws)
  case 0
  then show ?case by simp
next
  case (Suc n)
  then obtain w vs where ws: "ws = w # vs" "length vs = n" by (cases ws) auto
  have d: "decode (base_of c) = Some (unat c, 0)" using reg_port(1) [OF assms(1), of 0] by simp
  have "p_inw ata_ports (base_of c) (in_progress (unat c) (ws @ rs) (hw s)) = (w, in_progress (unat c) (vs @ rs) (hw s))"
    by (simp add: ata_ports_def d ws in_data_def in_progress_def assms(2))
  then show ?case using Suc.IH [OF ws(2)] by (simp add: inw_def bnd_def ws)
qed

lemma read_loop_data:
  assumes "c < 2" "gap (hw s) = 0" "length ws = 256 * m" "(k + m) * 512 \<le> length buf"
  shows "read_loop ata_ports (base_of c) [k..<k + m] buf (s\<lparr>hw := in_progress (unat c) ws (hw s)\<rparr>)
    = (Ok (take (k * 512) buf @ concat (map word_bytes ws) @ drop ((k + m) * 512) buf), s\<lparr>hw := in_progress (unat c) [] (hw s)\<rparr>)"
  using assms(3,4)
proof (induction m arbitrary: k ws buf)
  case 0
  then show ?case by simp
next
  case (Suc m)
  let ?vs = "take 256 ws" and ?rs = "drop 256 ws"
  have k: "k * 512 + 512 \<le> length buf" "[k..<k + Suc m] = k # [Suc k..<Suc k + m]" using Suc.prems(2) by (simp_all add: upt_conv_Cons)
  have v: "length ?vs = 256" "length ?rs = 256 * m" using Suc.prems(1) by simp_all
  have c: "length (concat (map word_bytes ?vs)) = 512"
  proof -
    have "length (concat (map word_bytes xs)) = 2 * length xs" for xs by (induction xs) simp_all
    from this [of ?vs] show ?thesis unfolding v(1) by simp
  qed
  have "in_words ata_ports (base_of c) 256 (s\<lparr>hw := in_progress (unat c) ws (hw s)\<rparr>)
      = (Ok (concat (map word_bytes ?vs)), s\<lparr>hw := in_progress (unat c) ?rs (hw s)\<rparr>)"
    using in_words_data [OF assms(1,2) v(1), of ?rs] by simp
  then have rd: "read_port_words_safe ata_ports (base_of c) (window 512 (k * 512) buf) (s\<lparr>hw := in_progress (unat c) ws (hw s)\<rparr>)
      = (Ok (Inr (), concat (map word_bytes ?vs)), s\<lparr>hw := in_progress (unat c) ?rs (hw s)\<rparr>)"
    using k(1) by (simp add: read_port_words_safe_def bnd_def)
  let ?buf = "splice buf (k * 512) (concat (map word_bytes ?vs))"
  have lb: "length ?buf = length buf" using c k(1) by (simp add: splice_def)
  have "read_loop ata_ports (base_of c) [Suc k..<Suc k + m] ?buf (s\<lparr>hw := in_progress (unat c) ?rs (hw s)\<rparr>)
      = (Ok (take (Suc k * 512) ?buf @ concat (map word_bytes ?rs) @ drop ((Suc k + m) * 512) ?buf), s\<lparr>hw := in_progress (unat c) [] (hw s)\<rparr>)"
    using Suc.prems(2) lb by (intro Suc.IH [OF v(2)]) simp
  moreover have "take (Suc k * 512) ?buf = take (k * 512) buf @ concat (map word_bytes ?vs)" using c k(1) by (simp add: splice_def)
  moreover have "drop ((Suc k + m) * 512) ?buf = drop ((k + Suc m) * 512) buf" using c k(1) by (simp add: splice_def algebra_simps)
  moreover have "concat (map word_bytes ws) = concat (map word_bytes ?vs) @ concat (map word_bytes ?rs)"
    by (metis append_take_drop_id concat_append map_append)
  ultimately show ?case
    using k rd by (simp add: Let_def bnd_def)
qed

text \<open>The driver spreads a sector number over the registers and the automaton puts it together again.\<close>

lemma digits:
  "x = 256 * q1 + r0 \<Longrightarrow> q1 = 256 * q2 + r1 \<Longrightarrow> q2 = 256 * q3 + r2 \<Longrightarrow> q3 * 2 ^ 24 + r2 * 2 ^ 16 + r1 * 2 ^ 8 + r0 = (x :: nat)"
  by simp

lemma lba_bytes:
  fixes lba :: u32
  assumes "unat lba < 2 ^ 28" "h = as_u8 (drop_bit 24 lba AND 0x0F)" "sl < 2"
  shows "unat ((0xE0 OR push_bit 4 sl OR h) AND 0x0F) * 2 ^ 24 + unat (as_u8 (drop_bit 16 lba)) * 2 ^ 16
      + unat (as_u8 (drop_bit 8 lba)) * 2 ^ 8 + unat (as_u8 lba) = unat lba"
    "bit (0xE0 OR push_bit 4 sl OR h) 4 \<longleftrightarrow> sl = 1"
proof -
  have lo: "unat (as_u8 lba) = unat lba mod 256" "unat (as_u8 (drop_bit 8 lba)) = unat lba div 256 mod 256"
    "unat (as_u8 (drop_bit 16 lba)) = unat lba div 65536 mod 256"
    by (simp_all add: unsigned_ucast_eq take_bit_eq_mod drop_bit_eq_div unat_div)
  have "drop_bit 24 lba AND 0x0F = take_bit 4 (drop_bit 24 lba)" by (simp add: take_bit_eq_mask mask_eq_exp_minus_1)
  then have h: "unat h = unat lba div 16777216" "h = take_bit 4 h"
  proof -
    have "unat lba div 16777216 < 16" using assms(1) by (simp add: div_less_iff_less_mult)
    moreover have "unat (drop_bit 24 lba AND 0x0F) = unat lba div 16777216 mod 16"
      using \<open>drop_bit 24 lba AND 0x0F = take_bit 4 (drop_bit 24 lba)\<close>
      by (simp add: take_bit_eq_mod drop_bit_eq_div unat_div unat_mod)
    ultimately show "unat h = unat lba div 16777216" using assms(2) by (simp add: ucast_small)
    then show "h = take_bit 4 h" using \<open>unat lba div 16777216 < 16\<close>
      by (simp add: word_unat_eq_iff unsigned_take_bit_eq take_bit_nat_eq_self)
  qed
  have h15: "h AND 0x0F = h" using h(2) by (simp add: take_bit_eq_mask mask_eq_exp_minus_1)
  have h4: "\<not> bit h 4" using h(2) by (metis bit_take_bit_iff less_irrefl)
  have "(0xE0 OR push_bit 4 sl) AND 0x0F = 0" using less_2 [OF assms(3)] by auto
  then have "(0xE0 OR push_bit 4 sl OR h) AND 0x0F = h" using h15 by (simp add: bit.conj_disj_distrib2)
  then show "unat ((0xE0 OR push_bit 4 sl OR h) AND 0x0F) * 2 ^ 24 + unat (as_u8 (drop_bit 16 lba)) * 2 ^ 16
      + unat (as_u8 (drop_bit 8 lba)) * 2 ^ 8 + unat (as_u8 lba) = unat lba"
  proof -
    define x where "x = unat lba"
    have e: "x = 256 * (x div 256) + x mod 256" "x div 256 = 256 * (x div 65536) + x div 256 mod 256"
      "x div 65536 = 256 * (x div 16777216) + x div 65536 mod 256"
      by (simp_all flip: div_mult2_eq) (simp_all add: div_mult2_eq [of x 256 256, simplified] div_mult2_eq [of x 65536 256, simplified])
    show ?thesis
      unfolding \<open>(0xE0 OR push_bit 4 sl OR h) AND 0x0F = h\<close> lo h(1) x_def [symmetric] by (rule digits [OF e])
  qed
  show "bit (0xE0 OR push_bit 4 sl OR h) 4 \<longleftrightarrow> sl = 1"
    using less_2 [OF assms(3)] h4 by (auto simp: bit_or_iff)
qed

definition task :: "u8 \<Rightarrow> u8 \<Rightarrow> u32 \<Rightarrow> (nat \<Rightarrow> u8) \<Rightarrow> nat \<Rightarrow> u8" where
  "task sl n lba r = r(6 := 0xE0 OR push_bit 4 sl OR as_u8 (drop_bit 24 lba AND 0x0F), 2 := n, 3 := as_u8 lba,
     4 := as_u8 (drop_bit 8 lba), 5 := as_u8 (drop_bit 16 lba))"

lemma task_fields:
  assumes "unat lba < 2 ^ 28" "sl < 2" "regs ch = task sl n lba r"
  shows "lba_of ch = unat lba" "dev_of ch = unat sl" "0 < n \<Longrightarrow> count_of ch = unat n"
  using lba_bytes [OF assms(1) refl assms(2)] less_2 [OF assms(2)] assms(3)
  by (auto simp: lba_of_def dev_of_def count_of_def task_def)

lemma select_and_issue_ata:
  assumes "wired s" "c < 2" "sl < 2" "unat lba < 2 ^ 28" "0 < n" "disk (hw s) (unat c) (unat sl) = Some f"
    and "cmd = 0x20 \<or> cmd = 0x30"
  shows "select_and_issue ata_ports c sl (as_u8 (drop_bit 24 lba AND 0x0F)) n lba cmd s = (Ok (), s\<lparr>hw :=
     upd_chan (unat c) (\<lambda>ch. ch\<lparr>regs := task sl n lba (regs ch), busy := lag (hw s),
       xfer := (if cmd = 0x20 then DataIn (sector_words f (unat lba) (unat n)) else DataOut (unat lba) [] (256 * unat n))\<rparr>) (hw s)\<rparr>)"
proof -
  let ?ch = "(chan_of (hw s) (unat c))\<lparr>regs := task sl n lba (regs (chan_of (hw s) (unat c)))\<rparr>"
  let ?a = "upd_chan (unat c) (\<lambda>ch. ch\<lparr>regs := task sl n lba (regs ch)\<rparr>) (hw s)"
  have t: "lba_of ?ch = unat lba" "dev_of ?ch = unat sl" "count_of ?ch = unat n"
    using task_fields [OF assms(4,3), of ?ch n] assms(5) by simp_all
  have "out_reg (unat c) 5 (as_u8 (drop_bit 16 lba)) (out_reg (unat c) 4 (as_u8 (drop_bit 8 lba)) (out_reg (unat c) 3 (as_u8 lba)
      (out_reg (unat c) 2 n (out_reg (unat c) 6 (0xE0 OR push_bit 4 sl OR as_u8 (drop_bit 24 lba AND 0x0F)) (hw s))))) = ?a"
    by (simp add: out_reg_def upd_chan_def task_def)
  moreover have "out_reg (unat c) 7 cmd ?a = upd_chan (unat c) (\<lambda>ch. ch\<lparr>regs := task sl n lba (regs ch), busy := lag (hw s),
       xfer := (if cmd = 0x20 then DataIn (sector_words f (unat lba) (unat n)) else DataOut (unat lba) [] (256 * unat n))\<rparr>) (hw s)"
    using assms(6,7) t by (auto simp: out_reg_def ata_command_def Let_def upd_chan_def)
  moreover have "ide_write ata_ports c r v (s\<lparr>hw := a\<rparr>) = (Ok (), s\<lparr>hw := out_reg (unat c) (unat r) v a\<rparr>)" if "r < 8" for r v a
    using ide_write_reg [of "s\<lparr>hw := a\<rparr>" c r v] assms(1,2) that by simp
  moreover have "ide_write ata_ports c r v s = (Ok (), s\<lparr>hw := out_reg (unat c) (unat r) v (hw s)\<rparr>)" if "r < 8" for r v
    by (rule ide_write_reg [OF assms(1,2) that])
  ultimately show ?thesis by (simp add: select_and_issue_def bnd_def ata_consts)
qed

text \<open>A drive that was identified: its entry in \<^verbatim>\<open>IDE_DEVICES\<close> names its channel and position.\<close>

definition present :: "'h ide \<Rightarrow> u8 \<Rightarrow> bool" where
  "present s d \<longleftrightarrow> d \<le> 3 \<and> wired s \<and> length (IDE_DEVICES s) = 4
     \<and> reserved (IDE_DEVICES s ! unat d) \<noteq> 0 \<and> dev_channel (IDE_DEVICES s ! unat d) = d div 2 \<and> dev_drive (IDE_DEVICES s ! unat d) = d mod 2"

lemma presentD:
  assumes "present s d"
  shows "\<not> d > 3" "wired s" "d div 2 < 2" "d mod 2 < 2" "unat (d div 2) = unat d div 2" "unat (d mod 2) = unat d mod 2"
    and "\<exists>x. nth_ck (IDE_DEVICES s) (unat d) = (Ok x :: (ide_error, IdeDevice) res) \<and> reserved x \<noteq> 0 \<and> dev_channel x = d div 2 \<and> dev_drive x = d mod 2"
proof -
  have d: "unat d \<le> 3" using assms by (simp add: present_def word_le_nat_alt)
  then have "unat d div 2 < 2" by (simp add: div_less_iff_less_mult)
  then show "d div 2 < 2" "d mod 2 < 2" "unat (d div 2) = unat d div 2" "unat (d mod 2) = unat d mod 2"
    by (simp_all add: word_less_nat_alt unat_div unat_mod)
  show "\<not> d > 3" "wired s" using assms by (auto simp: present_def)
  show "\<exists>x. nth_ck (IDE_DEVICES s) (unat d) = (Ok x :: (ide_error, IdeDevice) res) \<and> reserved x \<noteq> 0 \<and> dev_channel x = d div 2 \<and> dev_drive x = d mod 2"
    using assms d by (simp add: present_def nth_ck_def)
qed

text \<open>Up to the first transferred word, a read waits for the device once; what follows is the transfer loop.\<close>

lemma ide_read_sectors_issue:
  assumes "present s d" "lag (hw s) \<le> 100000" "disk (hw s) (unat d div 2) (unat d mod 2) = Some f"
    and "0 < n" "unat n * 512 \<le> length buf" "unat lba < 2 ^ 28"
  shows "ide_read_sectors ata_ports d n lba buf s = read_loop ata_ports (base_of (d div 2)) [0..<unat n] buf
     (s\<lparr>hw := in_progress (unat d div 2) (sector_words f (unat lba) (unat n))
       (upd_chan (unat d div 2) (\<lambda>ch. ch\<lparr>regs := task (d mod 2) n lba (regs ch)\<rparr>) (hw s))\<rparr>)"
proof -
  note p = presentD [OF assms(1)]
  let ?c = "unat d div 2" and ?ws = "sector_words f (unat lba) (unat n)"
  obtain x where x: "nth_ck (IDE_DEVICES s) (unat d) = (Ok x :: (ide_error, IdeDevice) res)" "reserved x \<noteq> 0" "dev_channel x = d div 2" "dev_drive x = d mod 2"
    using p(7) by blast
  obtain y where y: "nth_ck (CHANNELS s) (unat (d div 2)) = (Ok y :: (ide_error, IDEChannelRegistors) res)" "ch_base y = base_of (d div 2)"
    by (rule wiredD [OF p(2,3)])
  have lba: "\<not> lba \<ge> 0x10000000" using assms(6) by (simp add: word_le_nat_alt)
  let ?s1 = "s\<lparr>hw := upd_chan ?c (\<lambda>ch. ch\<lparr>regs := task (d mod 2) n lba (regs ch), busy := lag (hw s), xfer := DataIn ?ws\<rparr>) (hw s)\<rparr>"
  let ?a = "upd_chan ?c (\<lambda>ch. ch\<lparr>regs := task (d mod 2) n lba (regs ch)\<rparr>) (hw s)"
  have i: "select_and_issue ata_ports (d div 2) (d mod 2) (as_u8 (drop_bit 24 lba AND 0x0F)) n lba ATA_CMD_READ_PIO s = (Ok (), ?s1)"
    using select_and_issue_ata [OF p(2-4) assms(6,4), of f ATA_CMD_READ_PIO] assms(3) by (simp add: p(5,6) ata_consts)
  have "?ws \<noteq> []" using sector_words_bytes(2) [of f "unat lba" "unat n"] assms(4) by (auto simp: word_less_nat_alt)
  then have pr: "in_progress ?c ?ws ?a = upd_chan ?c (\<lambda>ch. ch\<lparr>regs := task (d mod 2) n lba (regs ch), busy := 0, xfer := DataIn ?ws\<rparr>) (hw s)"
    by (simp add: in_progress_def upd_chan_def)
  have "ide_polling ata_ports (d div 2) True ?s1 = (Ok (), s\<lparr>hw := in_progress ?c ?ws ?a\<rparr>)"
    using ide_polling_ready [of ?s1 "d div 2" True] p(2,3) assms(2,3) task_fields(2) [OF assms(6) p(4)]
    unfolding pr by (simp add: p(5,6) upd_chan_def)
  then show ?thesis
    using p(1) x y i lba assms(5) by (simp add: ide_read_sectors_def bnd_def get_st_def Let_def)
qed

lemma ide_read_sectors_ata:
  assumes "present s d" "gap (hw s) = 0" "lag (hw s) \<le> 100000"
    and "disk (hw s) (unat d div 2) (unat d mod 2) = Some f"
    and "0 < n" "unat n * 512 \<le> length buf" "unat lba < 2 ^ 28"
  shows "ide_read_sectors ata_ports d n lba buf s
     = (Ok (read_sectors (\<lambda>k. fit (f k)) (unat lba) (unat n) @ drop (unat n * 512) buf),
        s\<lparr>hw := upd_chan (unat d div 2) (\<lambda>ch. ch\<lparr>regs := task (d mod 2) n lba (regs ch), busy := 0, xfer := NoData\<rparr>) (hw s)\<rparr>)"
proof -
  note p = presentD [OF assms(1)]
  let ?c = "unat d div 2" and ?ws = "sector_words f (unat lba) (unat n)"
  let ?a = "upd_chan ?c (\<lambda>ch. ch\<lparr>regs := task (d mod 2) n lba (regs ch)\<rparr>) (hw s)"
  have "read_loop ata_ports (base_of (d div 2)) [0..<unat n] buf (s\<lparr>hw := in_progress ?c ?ws ?a\<rparr>)
      = (Ok (read_sectors (\<lambda>k. fit (f k)) (unat lba) (unat n) @ drop (unat n * 512) buf), s\<lparr>hw := in_progress ?c [] ?a\<rparr>)"
    using read_loop_data [OF p(3), of "s\<lparr>hw := ?a\<rparr>" ?ws "unat n" 0 buf] assms(2,6) sector_words_bytes [of f] by (simp add: p(5))
  moreover have "in_progress ?c [] ?a = upd_chan ?c (\<lambda>ch. ch\<lparr>regs := task (d mod 2) n lba (regs ch), busy := 0, xfer := NoData\<rparr>) (hw s)"
    by (simp add: in_progress_def upd_chan_def)
  ultimately show ?thesis by (simp add: ide_read_sectors_issue [OF assms(1,3-7)])
qed

definition stored_on :: "nat \<Rightarrow> nat \<Rightarrow> store \<Rightarrow> ata \<Rightarrow> ata" where
  "stored_on c dv f a = a\<lparr>disk := (disk a)(c := (disk a c)(dv \<mapsto> f))\<rparr>"

definition out_progress :: "nat \<Rightarrow> nat \<Rightarrow> u16 list \<Rightarrow> nat \<Rightarrow> ata \<Rightarrow> ata" where
  "out_progress c l ws k = upd_chan c (\<lambda>ch. ch\<lparr>busy := 0, xfer := DataOut l ws k\<rparr>)"

lemma outsw_data:
  assumes "c < 2" "gap (hw s) = 0" "disk (hw s) (unat c) (dev_of (chan_of (hw s) (unat c))) = Some f" "2 * Suc k \<le> length buf"
  shows "outsw ata_ports (base_of c) buf (Suc k) (s\<lparr>hw := out_progress (unat c) l ws (Suc k) (hw s)\<rparr>) = (Ok (), s\<lparr>hw :=
     stored_on (unat c) (dev_of (chan_of (hw s) (unat c))) (write_sectors f l ((length ws + Suc k) div 256) (concat (map word_bytes ws) @ take (2 * Suc k) buf))
       (upd_chan (unat c) (\<lambda>ch. ch\<lparr>busy := lag (hw s), xfer := NoData\<rparr>) (hw s))\<rparr>)"
  using assms(4)
proof (induction k arbitrary: buf ws)
  case 0
  have d: "decode (base_of c) = Some (unat c, 0)" using reg_port(1) [OF assms(1), of 0] by simp
  have w: "word_bytes (get_le 0 buf) = take 2 buf" using 0 by (intro word_bytes_get_le) simp
  have "p_outw ata_ports (base_of c) (get_le 0 buf) (out_progress (unat c) l ws (Suc 0) (hw s))
      = stored_on (unat c) (dev_of (chan_of (hw s) (unat c))) (write_sectors f l (Suc (length ws) div 256) (concat (map word_bytes ws) @ take 2 buf))
          (upd_chan (unat c) (\<lambda>ch. ch\<lparr>busy := lag (hw s), xfer := NoData\<rparr>) (hw s))"
    using assms(3) by (simp add: ata_ports_def d out_data_def out_progress_def stored_on_def w upd_chan_def)
  then show ?case by (simp add: outw_def bnd_def)
next
  case (Suc k)
  have d: "decode (base_of c) = Some (unat c, 0)" using reg_port(1) [OF assms(1), of 0] by simp
  let ?w = "get_le 0 buf :: u16"
  have w: "word_bytes ?w = take 2 buf" using Suc.prems by (intro word_bytes_get_le) simp
  have "p_outw ata_ports (base_of c) ?w (out_progress (unat c) l ws (Suc (Suc k)) (hw s)) = out_progress (unat c) l (ws @ [?w]) (Suc k) (hw s)"
    using assms(2) by (simp add: ata_ports_def d out_data_def out_progress_def upd_chan_def)
  moreover have "take 2 buf @ take (2 * Suc k) (drop 2 buf) = take (2 * Suc (Suc k)) buf"
    by (simp add: take_add [symmetric] del: take_Suc take_Suc_Cons)
  ultimately show ?case
    using Suc.IH [of "drop 2 buf" "ws @ [?w]"] Suc.prems by (simp add: outw_def bnd_def w del: outsw.simps(2)) (simp add: outw_def bnd_def)
qed

lemma stored_on_simps [simp]:
  "chan_of (stored_on c dv f a) = chan_of a" "lag (stored_on c dv f a) = lag a" "gap (stored_on c dv f a) = gap a"
  "disk (stored_on c dv f a) = (disk a)(c := (disk a c)(dv \<mapsto> f))"
  "upd_chan c' g (stored_on c dv f a) = stored_on c dv f (upd_chan c' g a)"
  by (simp_all add: stored_on_def upd_chan_def)

lemma ide_write_sectors_ata:
  assumes "present s d" "gap (hw s) = 0" "lag (hw s) \<le> 100000"
    and "disk (hw s) (unat d div 2) (unat d mod 2) = Some f"
    and "0 < n" "unat n * 512 \<le> length buf" "unat lba < 2 ^ 28"
  shows "ide_write_sectors ata_ports d n lba buf s = (Ok (), s\<lparr>hw :=
     stored_on (unat d div 2) (unat d mod 2) (write_sectors f (unat lba) (unat n) (take (unat n * 512) buf))
      (upd_chan (unat d div 2) (\<lambda>ch. ch\<lparr>regs := task (d mod 2) n lba (regs ch), busy := 0, xfer := NoData\<rparr>) (hw s))\<rparr>)"
proof -
  note p = presentD [OF assms(1)]
  let ?c = "unat d div 2" and ?dv = "unat d mod 2" and ?g = "write_sectors f (unat lba) (unat n) (take (unat n * 512) buf)"
  obtain x where x: "nth_ck (IDE_DEVICES s) (unat d) = (Ok x :: (ide_error, IdeDevice) res)" "reserved x \<noteq> 0" "dev_channel x = d div 2" "dev_drive x = d mod 2"
    using p(7) by blast
  obtain y where y: "nth_ck (CHANNELS s) (unat (d div 2)) = (Ok y :: (ide_error, IDEChannelRegistors) res)" "ch_base y = base_of (d div 2)"
    by (rule wiredD [OF p(2,3)])
  have lba: "\<not> lba \<ge> 0x10000000" using assms(7) by (simp add: word_le_nat_alt)
  let ?t = "\<lambda>ch. task (d mod 2) n lba (regs ch)"
  let ?a = "upd_chan ?c (\<lambda>ch. ch\<lparr>regs := ?t ch\<rparr>) (hw s)"
  let ?s1 = "s\<lparr>hw := upd_chan ?c (\<lambda>ch. ch\<lparr>regs := ?t ch, busy := lag (hw s), xfer := DataOut (unat lba) [] (256 * unat n)\<rparr>) (hw s)\<rparr>"
  have dev: "dev_of ((chan_of (hw s) ?c)\<lparr>regs := ?t (chan_of (hw s) ?c), busy := b, xfer := z\<rparr>) = ?dv" for b z
    using task_fields(2) [OF assms(7) p(4), of "(chan_of (hw s) ?c)\<lparr>regs := ?t (chan_of (hw s) ?c), busy := b, xfer := z\<rparr>" n] by (simp add: p(6))
  have dev': "dev_of ((chan_of (hw s) ?c)\<lparr>regs := ?t (chan_of (hw s) ?c)\<rparr>) = ?dv"
    using task_fields(2) [OF assms(7) p(4), of "(chan_of (hw s) ?c)\<lparr>regs := ?t (chan_of (hw s) ?c)\<rparr>" n] by (simp add: p(6))
  have i: "select_and_issue ata_ports (d div 2) (d mod 2) (as_u8 (drop_bit 24 lba AND 0x0F)) n lba ATA_CMD_WRITE_PIO s = (Ok (), ?s1)"
    using select_and_issue_ata [OF p(2-4) assms(7,5), of f ATA_CMD_WRITE_PIO] assms(4) by (simp add: p(5,6) ata_consts)
  have poll1: "ide_polling ata_ports (d div 2) False ?s1 = (Ok (), s\<lparr>hw := out_progress ?c (unat lba) [] (256 * unat n) ?a\<rparr>)"
    using ide_polling_ready [of ?s1 "d div 2" False] p(2,3) assms(3,4) dev by (simp add: p(5) out_progress_def)
  obtain k where k: "256 * unat n = Suc k" using assms(5) by (cases "256 * unat n") (simp_all add: word_less_nat_alt)
  let ?b = "upd_chan ?c (\<lambda>ch. ch\<lparr>regs := ?t ch, busy := lag (hw s), xfer := NoData\<rparr>) (hw s)"
  have out: "outsw ata_ports (base_of (d div 2)) buf (unat n * 256) (s\<lparr>hw := out_progress ?c (unat lba) [] (256 * unat n) ?a\<rparr>)
      = (Ok (), s\<lparr>hw := stored_on ?c ?dv ?g ?b\<rparr>)"
  proof -
    have e: "2 * Suc k = unat n * 512" "length [] + Suc k = Suc k" "Suc k div 256 = unat n" "unat n * 256 = Suc k" using k by simp_all
    show ?thesis
      using outsw_data [OF p(3), of "s\<lparr>hw := ?a\<rparr>" f k buf "unat lba" "[]", unfolded e(1-3)] assms(2,4,6) dev'
      unfolding k e(4) by (simp add: p(5) del: outsw.simps)
  qed
  have flush: "ide_write ata_ports (d div 2) ATA_REG_COMMAND ATA_CMD_CACHE_FLUSH (s\<lparr>hw := stored_on ?c ?dv ?g ?b\<rparr>) = (Ok (), s\<lparr>hw := stored_on ?c ?dv ?g ?b\<rparr>)"
    using ide_write_reg [of "s\<lparr>hw := stored_on ?c ?dv ?g ?b\<rparr>" "d div 2" 7] p(2,3) dev
    by (simp add: p(5) ata_consts out_reg_def ata_command_def)
  have "ide_polling ata_ports (d div 2) False (s\<lparr>hw := stored_on ?c ?dv ?g ?b\<rparr>)
      = (Ok (), s\<lparr>hw := stored_on ?c ?dv ?g (upd_chan ?c (\<lambda>ch. ch\<lparr>regs := ?t ch, busy := 0, xfer := NoData\<rparr>) (hw s))\<rparr>)"
    using ide_polling_ready [of "s\<lparr>hw := stored_on ?c ?dv ?g ?b\<rparr>" "d div 2" False] p(2,3) assms(3) dev by (simp add: p(5))
  with i poll1 out flush show ?thesis
    using p(1) x y lba assms(6) by (simp add: ide_write_sectors_def bnd_def get_st_def Let_def)
qed

section \<open>Any controller\<close>

text \<open>
  A driver function run against a controller does what it does against the automaton: \<open>follows\<close> relates the two, and
  every definition of the driver respects it.
\<close>

definition vw :: "('h \<Rightarrow> ata) \<Rightarrow> 'h ide \<Rightarrow> ata ide" where
  "vw view s = \<lparr>hw = view (hw s), CHANNELS = CHANNELS s, IDE_DEVICES = IDE_DEVICES s, IDE_BUF = IDE_BUF s\<rparr>"

lemma vw_simps [simp]:
  "hw (vw view s) = view (hw s)" "CHANNELS (vw view s) = CHANNELS s" "IDE_DEVICES (vw view s) = IDE_DEVICES s" "IDE_BUF (vw view s) = IDE_BUF s"
  by (simp_all add: vw_def)

definition follows :: "('h \<Rightarrow> ata) \<Rightarrow> ('h, 'a) drv \<Rightarrow> (ata, 'a) drv \<Rightarrow> bool" where
  "follows view m m' \<longleftrightarrow> (\<forall>s. map_prod id (vw view) (m s) = m' (vw view s))"

named_theorems follows_intros \<open>driver functions respect the view\<close>

lemma followsD: "follows view m m' \<Longrightarrow> m s = (r, s') \<Longrightarrow> m' (vw view s) = (r, vw view s')"
  unfolding follows_def by (metis id_apply map_prod_simp)

lemma follows_bnd [follows_intros]:
  assumes "follows view m m'" "\<And>x. follows view (f x) (f' x)"
  shows "follows view (bnd m f) (bnd m' f')"
  unfolding follows_def
proof
  fix s
  obtain r s1 where "m s = (r, s1)" by (cases "m s")
  with followsD [OF assms(1)] assms(2) show "map_prod id (vw view) (bnd m f s) = bnd m' f' (vw view s)"
    by (cases r) (simp_all add: follows_def)
qed

lemma follows_basic [follows_intros]:
  "follows view (ret x) (ret x)" "follows view (fail e) (fail e)" "follows view (lift_res r) (lift_res r)"
  "follows view (get_st CHANNELS) (get_st CHANNELS)" "follows view (get_st IDE_DEVICES) (get_st IDE_DEVICES)"
  by (simp_all add: follows_def get_st_def)

lemma follows_if [follows_intros]:
  "(b \<Longrightarrow> follows view m m') \<Longrightarrow> (\<not> b \<Longrightarrow> follows view k k') \<Longrightarrow> follows view (if b then m else k) (if b then m' else k')"
  by simp

lemma follows_prod [follows_intros]:
  "(\<And>x y. follows view (f x y) (f' x y)) \<Longrightarrow> follows view (case p of (x, y) \<Rightarrow> f x y) (case p of (x, y) \<Rightarrow> f' x y)"
  by (cases p) simp

lemma follows_let [follows_intros]: "(\<And>x. follows view (f x) (f' x)) \<Longrightarrow> follows view (Let t f) (Let t f')"
  by (simp add: Let_def)

context ata_controller
begin

lemma follows_ports [follows_intros]:
  "follows view (inb P p) (inb ata_ports p)" "follows view (outb P p v) (outb ata_ports p v)"
  "follows view (inw P p) (inw ata_ports p)" "follows view (outw P p x) (outw ata_ports p x)"
proof -
  have "map_prod id (vw view) (inb P p s) = inb ata_ports p (vw view s)" for s
    using view_inb [of p "hw s", symmetric] by (cases "p_inb P p (hw s)") (simp add: inb_def vw_def)
  moreover have "map_prod id (vw view) (inw P p s) = inw ata_ports p (vw view s)" for s
    using view_inw [of p "hw s", symmetric] by (cases "p_inw P p (hw s)") (simp add: inw_def vw_def)
  ultimately show "follows view (inb P p) (inb ata_ports p)" "follows view (outb P p v) (outb ata_ports p v)"
    "follows view (inw P p) (inw ata_ports p)" "follows view (outw P p x) (outw ata_ports p x)"
    by (simp_all add: follows_def outb_def outw_def vw_def view_outb view_outw)
qed

lemma follows_words [follows_intros]:
  "follows view (in_words P p n) (in_words ata_ports p n)" "follows view (outsw P p buf n) (outsw ata_ports p buf n)"
  by (induction n arbitrary: buf) (auto intro!: follows_intros)

lemma follows_regs [follows_intros]:
  "follows view (port_of c r) (port_of c r)" "follows view (ide_read P c r) (ide_read ata_ports c r)"
  "follows view (ide_write P c r v) (ide_write ata_ports c r v)"
  unfolding ide_read_def ide_write_def port_of_def by (intro follows_intros)+

lemma follows_poll_loop [follows_intros]: "follows view (poll_loop P c adv t) (poll_loop ata_ports c adv t)"
proof (induction "100001 - t" arbitrary: t rule: less_induct)
  case less
  show ?case
    by (subst (1 2) poll_loop.simps) (intro follows_intros less, simp)
qed

lemma follows_read_loop [follows_intros]: "follows view (read_loop P bus ss buf) (read_loop ata_ports bus ss buf)"
  by (induction ss arbitrary: buf) (auto simp: read_port_words_safe_def intro!: follows_intros)

lemma follows_sectors:
  "follows view (ide_read_sectors P d n lba buf) (ide_read_sectors ata_ports d n lba buf)"
  "follows view (ide_write_sectors P d n lba buf) (ide_write_sectors ata_ports d n lba buf)"
  unfolding ide_read_sectors_def ide_write_sectors_def select_and_issue_def ide_polling_def by (intro follows_intros)+

end

section \<open>The driver is a block device\<close>

definition ide_ready :: "('h \<Rightarrow> ata) \<Rightarrow> 'h ide \<Rightarrow> u8 \<Rightarrow> bool" where
  "ide_ready view s d \<longleftrightarrow> present s d \<and> idle (view (hw s)) \<and> gap (view (hw s)) = 0 \<and> lag (view (hw s)) \<le> 100000
     \<and> disk (view (hw s)) (unat d div 2) (unat d mod 2) \<noteq> None"

definition ide_sec :: "('h \<Rightarrow> ata) \<Rightarrow> 'h ide \<Rightarrow> u8 \<Rightarrow> store" where
  "ide_sec view s d = (\<lambda>k. case (if d \<le> 3 then disk (view (hw s)) (unat d div 2) (unat d mod 2) else None) of
     None \<Rightarrow> replicate 512 0 | Some f \<Rightarrow> fit (f k))"

lemma vw_present [simp]: "present (vw view s) d = present s d" "ide_ready id (vw view s) d = ide_ready view s d"
  "ide_sec id (vw view s) d = ide_sec view s d"
  by (simp_all add: present_def wired_def ide_ready_def ide_sec_def)

lemma ide_ready_upd:
  assumes "ide_ready id s d"
  shows "ide_ready id (s\<lparr>hw := upd_chan c (\<lambda>ch. ch\<lparr>regs := r ch, busy := 0, xfer := NoData\<rparr>) (hw s)\<rparr>) = ide_ready id s"
proof -
  have "idle (upd_chan c (\<lambda>ch. ch\<lparr>regs := r ch, busy := 0, xfer := NoData\<rparr>) (hw s))" "idle (hw s)"
    using assms by (auto simp: ide_ready_def idle_def upd_chan_def)
  then show ?thesis by (simp add: ide_ready_def fun_eq_iff present_def)
qed

lemma drives_differ:
  fixes d e :: u8
  assumes "d \<le> 3" "e \<le> 3" "unat d div 2 = unat e div 2" "unat d mod 2 = unat e mod 2"
  shows "d = e"
proof -
  have "unat d = unat e" using assms(3,4) div_mult_mod_eq [of "unat d" 2] div_mult_mod_eq [of "unat e" 2] by metis
  then show ?thesis by (simp add: word_unat_eq_iff)
qed

lemma ide_sec_stored:
  assumes "d \<le> 3" "disk (hw s) (unat d div 2) (unat d mod 2) = Some f" "unat n * 512 \<le> length buf"
  shows "ide_sec id (s\<lparr>hw := stored_on (unat d div 2) (unat d mod 2) (write_sectors f l (unat n) (take (unat n * 512) buf)) (upd_chan c g (hw s))\<rparr>)
    = (ide_sec id s)(d := write_sectors (ide_sec id s d) l (unat n) buf)"
proof (intro ext)
  fix e k
  have w: "fit (write_sectors f l (unat n) (take (unat n * 512) buf) k) = write_sectors (\<lambda>k. fit (f k)) l (unat n) buf k"
  proof (cases "l \<le> k \<and> k < l + unat n")
    case True
    then have "Suc (k - l) * 512 \<le> unat n * 512" by (intro mult_le_mono1) linarith
    then have "512 \<le> length buf - (k - l) * 512" "512 \<le> unat n * 512 - (k - l) * 512" using assms(3) by simp_all
    then have "length (window 512 ((k - l) * 512) buf) = 512" "window 512 ((k - l) * 512) (take (unat n * 512) buf) = window 512 ((k - l) * 512) buf"
      by (simp_all add: window_def drop_take)
    with True show ?thesis by (simp add: write_sectors_def fit_id)
  next
    case False
    then show ?thesis by (auto simp: write_sectors_def)
  qed
  show "ide_sec id (s\<lparr>hw := stored_on (unat d div 2) (unat d mod 2) (write_sectors f l (unat n) (take (unat n * 512) buf)) (upd_chan c g (hw s))\<rparr>) e k
      = ((ide_sec id s)(d := write_sectors (ide_sec id s d) l (unat n) buf)) e k"
  proof (cases "e = d")
    case True
    then show ?thesis using assms(1,2) w by (simp add: ide_sec_def cong: if_cong)
  next
    case False
    then have "\<not> (e \<le> 3 \<and> unat e div 2 = unat d div 2 \<and> unat e mod 2 = unat d mod 2)" using drives_differ [OF _ assms(1), of e] by blast
    with False show ?thesis by (auto simp: ide_sec_def)
  qed
qed

lemma ide_refuses:
  assumes "present s d" "length buf < unat n * 512"
  shows "ide_read_sectors P d n lba buf s = (Err BufferTooSmall, s)" "ide_write_sectors P d n lba buf s = (Err BufferTooSmall, s)"
  using presentD(1,7) [OF assms(1)] assms(2)
  by (auto simp: ide_read_sectors_def ide_write_sectors_def bnd_def get_st_def fail_def)

lemma ide_write_far:
  assumes "present s d" "unat n * 512 \<le> length buf" "2 ^ 28 \<le> unat lba"
  shows "ide_write_sectors P d n lba buf s = (Err LbaOutOfRange, s)"
proof -
  note p = presentD [OF assms(1)]
  obtain y where y: "nth_ck (CHANNELS s) (unat (d div 2)) = (Ok y :: (ide_error, IDEChannelRegistors) res)"
    by (rule wiredD [OF p(2,3)])
  have "lba \<ge> 0x10000000" using assms(3) by (simp add: word_le_nat_alt)
  then show ?thesis
    using p(1,7) y assms(2) by (auto simp: ide_write_sectors_def bnd_def get_st_def fail_def Let_def)
qed

lemma automaton_read:
  assumes "ide_ready id s d" "0 < n" "unat n * 512 \<le> length buf" "unat lba < 2 ^ 28"
  shows "\<exists>s'. ide_read_sectors ata_ports d n lba buf s
        = (Ok (read_sectors (ide_sec id s d) (unat lba) (unat n) @ drop (unat n * 512) buf), s')
      \<and> ide_sec id s' = ide_sec id s \<and> ide_ready id s' = ide_ready id s"
proof -
  obtain f where f: "disk (hw s) (unat d div 2) (unat d mod 2) = Some f" using assms(1) by (auto simp: ide_ready_def)
  have v: "present s d" "gap (hw s) = 0" "lag (hw s) \<le> 100000" "d \<le> 3" using assms(1) by (auto simp: ide_ready_def present_def)
  have sec: "ide_sec id s d = (\<lambda>k. fit (f k))" using f v(4) by (simp add: ide_sec_def)
  let ?s' = "s\<lparr>hw := upd_chan (unat d div 2) (\<lambda>ch. ch\<lparr>regs := task (d mod 2) n lba (regs ch), busy := 0, xfer := NoData\<rparr>) (hw s)\<rparr>"
  have "ide_sec id ?s' = ide_sec id s" by (simp add: ide_sec_def fun_eq_iff)
  then show ?thesis
    using ide_ready_upd [OF assms(1)] unfolding ide_read_sectors_ata [OF v(1-3) f assms(2-4)] sec by simp
qed

lemma automaton_write:
  assumes "ide_ready id s d" "0 < n" "unat n * 512 \<le> length buf" "unat lba < 2 ^ 28"
  shows "\<exists>s'. ide_write_sectors ata_ports d n lba buf s = (Ok (), s')
      \<and> ide_sec id s' = (ide_sec id s)(d := write_sectors (ide_sec id s d) (unat lba) (unat n) buf) \<and> ide_ready id s' = ide_ready id s"
proof -
  obtain f where f: "disk (hw s) (unat d div 2) (unat d mod 2) = Some f" using assms(1) by (auto simp: ide_ready_def)
  have v: "present s d" "gap (hw s) = 0" "lag (hw s) \<le> 100000" "d \<le> 3" using assms(1) by (auto simp: ide_ready_def present_def)
  let ?u = "upd_chan (unat d div 2) (\<lambda>ch. ch\<lparr>regs := task (d mod 2) n lba (regs ch), busy := 0, xfer := NoData\<rparr>) (hw s)"
  let ?g = "write_sectors f (unat lba) (unat n) (take (unat n * 512) buf)"
  have "ide_ready id (s\<lparr>hw := stored_on (unat d div 2) (unat d mod 2) ?g a\<rparr>) = ide_ready id (s\<lparr>hw := a\<rparr>)"
    if "disk a = disk (hw s)" for a
    using f that by (auto simp: ide_ready_def fun_eq_iff present_def idle_def)
  then have "ide_ready id (s\<lparr>hw := stored_on (unat d div 2) (unat d mod 2) ?g ?u\<rparr>) = ide_ready id s"
    using ide_ready_upd [OF assms(1)] by simp
  then show ?thesis
    using ide_sec_stored [OF v(4) f assms(3)] unfolding ide_write_sectors_ata [OF v(1-3) f assms(2-4)] by simp
qed

sublocale ata_controller \<subseteq> drv: block_device "ide_bdev P" "ide_ready view" "ide_sec view"
proof unfold_locales
  fix s :: "'h ide" and d n :: u8 and lba :: u32 and buf :: bytes
  assume r: "ide_ready view s d" and n: "0 < n" and l: "unat n * 512 \<le> length buf" and b: "unat lba + unat n \<le> 2 ^ 28"
  have lba: "unat lba < 2 ^ 28" using n b by (simp add: word_less_nat_alt)
  have v: "ide_ready id (vw view s) d" using r by simp
  have ext: "ide_ready id (vw view s') = ide_ready view s'" "ide_sec id (vw view s') = ide_sec view s'" for s' by (simp_all add: fun_eq_iff)
  obtain q s' where rd: "ide_read_sectors P d n lba buf s = (q, s')" by (cases "ide_read_sectors P d n lba buf s")
  with automaton_read [OF v n l lba] show "\<exists>v'. bd_read (ide_bdev P) d n lba buf s
        = (Ok (read_sectors (ide_sec view s d) (unat lba) (unat n) @ drop (unat n * 512) buf), v')
      \<and> ide_sec view v' = ide_sec view s \<and> ide_ready view v' = ide_ready view s"
    unfolding followsD [OF follows_sectors(1) rd] by (auto simp: ide_bdev_def ext)
  obtain q s' where wr: "ide_write_sectors P d n lba buf s = (q, s')" by (cases "ide_write_sectors P d n lba buf s")
  with automaton_write [OF v n l lba] show "\<exists>v'. bd_write (ide_bdev P) d n lba buf s = (Ok (), v')
      \<and> ide_sec view v' = (ide_sec view s)(d := write_sectors (ide_sec view s d) (unat lba) (unat n) buf)
      \<and> ide_ready view v' = ide_ready view s"
    unfolding followsD [OF follows_sectors(2) wr] by (auto simp: ide_bdev_def ext)
qed (auto simp: ide_bdev_def ide_refuses ide_write_far sectored_def ide_sec_def ide_ready_def return_drive_size_bytes_def
    fail_def bnd_def get_st_def nth_ck_def split: option.splits)

section \<open>Identification of the drives\<close>

lemma ide_order [simp]:
  "s\<lparr>IDE_DEVICES := x, hw := h\<rparr> = s\<lparr>hw := h, IDE_DEVICES := x\<rparr>" "s\<lparr>IDE_BUF := b, hw := h\<rparr> = s\<lparr>hw := h, IDE_BUF := b\<rparr>"
  "s\<lparr>IDE_BUF := b, IDE_DEVICES := x\<rparr> = s\<lparr>IDE_DEVICES := x, IDE_BUF := b\<rparr>"
  by (rule ide.equality; simp)+

lemma identify_wait_ready:
  assumes "wired s" "c < 2" "disk (hw s) (unat c) (dev_of (chan_of (hw s) (unat c))) \<noteq> None"
    and "busy (chan_of (hw s) (unat c)) = k" "t + k \<le> 100000"
  shows "identify_wait ata_ports c t s = (Ok (), s\<lparr>hw := upd_chan (unat c) (\<lambda>ch. ch\<lparr>busy := 0\<rparr>) (hw s)\<rparr>)"
  using assms
proof (induction k arbitrary: s t)
  case 0
  have "(chan_of (hw s) (unat c))\<lparr>busy := 0\<rparr> = chan_of (hw s) (unat c)" by (rule chan.equality) (simp_all add: 0(4))
  then have "s\<lparr>hw := upd_chan (unat c) (\<lambda>ch. ch\<lparr>busy := 0\<rparr>) (hw s)\<rparr> = s" by (simp add: upd_chan_def)
  moreover have st: "ide_read ata_ports c ATA_REG_STATUS s = (Ok (if xfer (chan_of (hw s) (unat c)) = NoData then 0x40 else 0x48), s)"
    using 0 by (simp add: ide_read_status in_status_def Let_def)
  ultimately show ?case
    by (subst identify_wait.simps, subst bnd_Ok [where m = "ide_read ata_ports c ATA_REG_STATUS", OF st]) (simp add: ata_consts)
next
  case (Suc k)
  let ?s = "s\<lparr>hw := upd_chan (unat c) (\<lambda>ch. ch\<lparr>busy := busy ch - 1\<rparr>) (hw s)\<rparr>"
  have st: "ide_read ata_ports c ATA_REG_STATUS s = (Ok 0x80, ?s)" using Suc.prems by (simp add: ide_read_status in_status_def Let_def)
  have "identify_wait ata_ports c (t + 1) ?s = (Ok (), ?s\<lparr>hw := upd_chan (unat c) (\<lambda>ch. ch\<lparr>busy := 0\<rparr>) (hw ?s)\<rparr>)"
    using Suc.prems by (intro Suc.IH) simp_all
  then show ?case
    using Suc.prems(5) by (subst identify_wait.simps, subst bnd_Ok [where m = "ide_read ata_ports c ATA_REG_STATUS", OF st]) (simp add: ATA_SR_BSY_def)
qed

definition ident_bytes :: "u16 list \<Rightarrow> bytes" where
  "ident_bytes ws = concat (map word_bytes ws)"

definition fresh_entry :: "u8 \<Rightarrow> u8 \<Rightarrow> IdeDevice" where
  "fresh_entry c dr = IdeDevice_new\<lparr>reserved := 1, dev_channel := c, dev_drive := dr, drive_type := 0\<rparr>"

lemma select_bit: "dr < 2 \<Longrightarrow> (if bit (0xA0 OR push_bit 4 dr) 4 then 1 else 0) = unat dr" for dr :: u8
  using less_2 [of dr] by auto

lemma identify_absent:
  assumes "wired s" "c < 2" "dr < 2" "length (IDE_DEVICES s) = 4" "disk (hw s) (unat c) (unat dr) = None"
  shows "ide_identify ata_ports c dr s = (Err IdeDriveNotFound,
     s\<lparr>hw := upd_chan (unat c) (\<lambda>ch. ch\<lparr>regs := (regs ch)(6 := 0xA0 OR push_bit 4 dr)\<rparr>) (hw s),
       IDE_DEVICES := (IDE_DEVICES s)[unat c * 2 + unat dr := (IDE_DEVICES s ! (unat c * 2 + unat dr))\<lparr>reserved := 0\<rparr>]\<rparr>)"
proof -
  let ?a = "upd_chan (unat c) (\<lambda>ch. ch\<lparr>regs := (regs ch)(6 := 0xA0 OR push_bit 4 dr)\<rparr>) (hw s)"
  have dv: "dev_of (chan_of ?a (unat c)) = unat dr" using select_bit [OF assms(3)] by (simp add: dev_of_def)
  have i: "unat c * 2 + unat dr < 4" using assms(2,3) by (auto dest!: less_2)
  have "ide_write ata_ports c ATA_REG_HDDEVSEL (0xA0 OR push_bit 4 dr) s = (Ok (), s\<lparr>hw := ?a\<rparr>)"
    using ide_write_reg [OF assms(1,2), of 6] by (simp add: ata_consts out_reg_def)
  moreover have "ide_write ata_ports c ATA_REG_COMMAND ATA_CMD_IDENTIFY (s\<lparr>hw := ?a\<rparr>) = (Ok (), s\<lparr>hw := ?a\<rparr>)"
    using ide_write_reg [of "s\<lparr>hw := ?a\<rparr>" c 7] assms(1,2,5) dv by (simp add: ata_consts out_reg_def ata_command_def)
  moreover have "ide_read ata_ports c ATA_REG_STATUS (s\<lparr>hw := ?a\<rparr>) = (Ok 0, s\<lparr>hw := ?a\<rparr>)"
    using ide_read_status [of "s\<lparr>hw := ?a\<rparr>" c] assms(1,2,5) dv by (simp add: in_status_def Let_def)
  ultimately show ?thesis
    using i assms(4) by (simp add: ide_identify_def Let_def bnd_def put_device_def get_st_def set_st_def nth_ck_def)
qed

lemma identify_present:
  assumes "wired s" "c < 2" "dr < 2" "length (IDE_DEVICES s) = 4" "disk (hw s) (unat c) (unat dr) = Some f"
    and "gap (hw s) = 0" "lag (hw s) \<le> 100000" "length (ident (hw s) (unat c) (unat dr)) = 256"
  shows "\<exists>rest. ide_identify ata_ports c dr s = (Ok (),
     s\<lparr>hw := upd_chan (unat c) (\<lambda>ch. ch\<lparr>regs := (regs ch)(6 := 0xA0 OR push_bit 4 dr), busy := 0, xfer := NoData\<rparr>) (hw s),
       IDE_DEVICES := (IDE_DEVICES s)[unat c * 2 + unat dr :=
         ata_device (ident_bytes (ident (hw s) (unat c) (unat dr)) @ rest) (fresh_entry c dr)],
       IDE_BUF := ident_bytes (ident (hw s) (unat c) (unat dr)) @ rest\<rparr>)"
proof -
  let ?r = "\<lambda>ch. (regs ch)(6 := 0xA0 OR push_bit 4 dr)" and ?ws = "ident (hw s) (unat c) (unat dr)" and ?i = "unat c * 2 + unat dr"
  let ?a = "upd_chan (unat c) (\<lambda>ch. ch\<lparr>regs := ?r ch\<rparr>) (hw s)"
  let ?b = "\<lambda>k. upd_chan (unat c) (\<lambda>ch. ch\<lparr>regs := ?r ch, busy := k, xfer := DataIn ?ws\<rparr>) (hw s)"
  have dv: "dev_of (chan_of ?a (unat c)) = unat dr" "dev_of (chan_of (?b k) (unat c)) = unat dr" for k
    using select_bit [OF assms(3)] by (simp_all add: dev_of_def)
  have i: "?i < 4" using assms(2,3) by (auto dest!: less_2)
  have 1: "ide_write ata_ports c ATA_REG_HDDEVSEL (0xA0 OR push_bit 4 dr) s = (Ok (), s\<lparr>hw := ?a\<rparr>)"
    using ide_write_reg [OF assms(1,2), of 6] by (simp add: ata_consts out_reg_def)
  have 2: "ide_write ata_ports c ATA_REG_COMMAND ATA_CMD_IDENTIFY (s\<lparr>hw := ?a\<rparr>) = (Ok (), s\<lparr>hw := ?b (lag (hw s))\<rparr>)"
    using ide_write_reg [of "s\<lparr>hw := ?a\<rparr>" c 7] assms(1,2,5) dv by (simp add: ata_consts out_reg_def ata_command_def Let_def upd_chan_def)
  obtain v where 3: "ide_read ata_ports c ATA_REG_STATUS (s\<lparr>hw := ?b (lag (hw s))\<rparr>) = (Ok v, s\<lparr>hw := ?b (lag (hw s) - 1)\<rparr>)" "v \<noteq> 0"
    using ide_read_status [of "s\<lparr>hw := ?b (lag (hw s))\<rparr>" c] assms(1,2,5) dv by (cases "lag (hw s)") (simp_all add: in_status_def Let_def)
  have 4: "identify_wait ata_ports c 0 (s\<lparr>hw := ?b (lag (hw s) - 1)\<rparr>) = (Ok (), s\<lparr>hw := ?b 0\<rparr>)"
    using identify_wait_ready [of "s\<lparr>hw := ?b (lag (hw s) - 1)\<rparr>" c "lag (hw s) - 1" 0] assms(1,2,5,7) dv by simp
  have 5: "ide_read ata_ports c ATA_REG_ERROR (s\<lparr>hw := h\<rparr>) = (Ok 0, s\<lparr>hw := h\<rparr>)" for h
    using port_of_reg [of "s\<lparr>hw := h\<rparr>" c 1] reg_port(1) [OF assms(2), of 1] assms(1,2)
    by (simp add: ide_read_def bnd_def inb_def ata_ports_def ata_consts)
  let ?s1 = "s\<lparr>hw := ?b 0, IDE_DEVICES := (IDE_DEVICES s)[?i := fresh_entry c dr]\<rparr>"
  let ?n = "upd_chan (unat c) (\<lambda>ch. ch\<lparr>regs := ?r ch, busy := 0, xfer := NoData\<rparr>) (hw s)"
  have 6: "ide_read_buffer ata_ports c ATA_REG_DATA 512 ?s1 = (Ok (ident_bytes ?ws), ?s1\<lparr>hw := ?n\<rparr>)"
  proof -
    have "?ws \<noteq> []" using assms(8) by auto
    then have "in_progress (unat c) ?ws ?a = ?b 0" "in_progress (unat c) [] ?a = ?n" by (simp_all add: in_progress_def)
    then have "in_words ata_ports (base_of c) 256 (?s1\<lparr>hw := ?b 0\<rparr>) = (Ok (ident_bytes ?ws), ?s1\<lparr>hw := ?n\<rparr>)"
      using in_words_data [OF assms(2), of "?s1\<lparr>hw := ?a\<rparr>" ?ws 256 "[]"] assms(6,8) by (simp add: ident_bytes_def)
    then show ?thesis
      using port_of_reg [of ?s1 c 0] assms(1,2) by (simp add: ide_read_buffer_def bnd_def ata_consts wired_def)
  qed
  have "length (ident_bytes ?ws) = 512"
  proof -
    have "length (ident_bytes xs) = 2 * length xs" for xs by (induction xs) (simp_all add: ident_bytes_def)
    then show ?thesis by (simp add: assms(8))
  qed
  then have "splice (IDE_BUF s) 0 (ident_bytes ?ws) = ident_bytes ?ws @ drop 512 (IDE_BUF s)" by (simp add: splice_def)
  with 1 2 3 4 5 6 i assms(4) show ?thesis
    by (intro exI [of _ "drop 512 (IDE_BUF s)"])
      (simp add: ide_identify_def Let_def bnd_def put_device_def get_st_def set_st_def nth_ck_def IDE_ATA_def fresh_entry_def)
qed

text \<open>The state after the first \<open>k\<close> positions have been probed.\<close>

definition entry_ok :: "ata \<Rightarrow> nat \<Rightarrow> IdeDevice \<Rightarrow> bool" where
  "entry_ok a d e \<longleftrightarrow> (if disk a (d div 2) (d mod 2) = None then reserved e = 0
     else \<exists>rest. e = ata_device (ident_bytes (ident a (d div 2) (d mod 2)) @ rest) (fresh_entry (of_nat (d div 2)) (of_nat (d mod 2))))"

definition probed :: "ata \<Rightarrow> nat \<Rightarrow> ata ide \<Rightarrow> bool" where
  "probed a k s \<longleftrightarrow> wired s \<and> length (IDE_DEVICES s) = 4 \<and> idle (hw s) \<and> disk (hw s) = disk a \<and> ident (hw s) = ident a
     \<and> gap (hw s) = gap a \<and> lag (hw s) = lag a \<and> (\<forall>d<k. entry_ok a d (IDE_DEVICES s ! d))"

lemma probe_step:
  assumes "probed a k s" "k < 4" "gap a = 0" "lag a \<le> 100000" "\<And>c dr. length (ident a c dr) = 256"
  shows "\<exists>r s'. ide_identify ata_ports (of_nat (k div 2)) (of_nat (k mod 2)) s = (r, s') \<and> r \<noteq> Panic \<and> probed a (Suc k) s'"
proof -
  let ?c = "of_nat (k div 2) :: u8" and ?d = "of_nat (k mod 2) :: u8"
  have k: "k div 2 < 2" "k mod 2 < 2" using assms(2) by (simp_all add: div_less_iff_less_mult)
  then have u: "unat ?c = k div 2" "unat ?d = k mod 2" by (simp_all add: unat_of_nat)
  then have lt: "?c < 2" "?d < 2" "k div 2 * 2 + k mod 2 = k" using k by (simp_all add: word_less_nat_alt)
  have p: "wired s" "length (IDE_DEVICES s) = 4" "gap (hw s) = 0" "lag (hw s) \<le> 100000" "disk (hw s) = disk a" "ident (hw s) = ident a"
    using assms by (auto simp: probed_def)
  have keep: "probed a (Suc k) (s\<lparr>hw := h, IDE_DEVICES := (IDE_DEVICES s)[k := e], IDE_BUF := z\<rparr>)"
    if "entry_ok a k e" "idle h" "disk h = disk a" "ident h = ident a" "gap h = gap a" "lag h = lag a" for h e z
    using assms(1,2) that by (auto simp: probed_def wired_def nth_list_update less_Suc_eq)
  have h: "idle (hw s)" "disk (hw s) = disk a" "ident (hw s) = ident a" "gap (hw s) = gap a" "lag (hw s) = lag a"
    using assms(1) by (simp_all add: probed_def)
  show ?thesis
  proof (cases "disk a (k div 2) (k mod 2)")
    case None
    have "s\<lparr>hw := h, IDE_DEVICES := e\<rparr> = s\<lparr>hw := h, IDE_DEVICES := e, IDE_BUF := IDE_BUF s\<rparr>" for h e by simp
    then show ?thesis
      using identify_absent [OF p(1) lt(1,2) p(2)] None keep [where z = "IDE_BUF s"] h
      by (auto simp: u lt(3) entry_ok_def idle_def upd_chan_def)
  next
    case (Some f)
    then obtain rest where "ide_identify ata_ports ?c ?d s = (Ok (), s\<lparr>hw := upd_chan (k div 2)
        (\<lambda>ch. ch\<lparr>regs := (regs ch)(6 := 160 OR push_bit 4 ?d), busy := 0, xfer := NoData\<rparr>) (hw s),
        IDE_DEVICES := (IDE_DEVICES s)[k := ata_device (ident_bytes (ident a (k div 2) (k mod 2)) @ rest) (fresh_entry ?c ?d)],
        IDE_BUF := ident_bytes (ident a (k div 2) (k mod 2)) @ rest\<rparr>)"
      using identify_present [OF p(1) lt(1,2) p(2), of f] p(3-6) assms(5) by (auto simp: u lt(3))
    moreover have "entry_ok a k (ata_device (ident_bytes (ident a (k div 2) (k mod 2)) @ rest) (fresh_entry ?c ?d))"
      using Some by (auto simp: entry_ok_def)
    moreover have "idle (upd_chan (k div 2) (\<lambda>ch. ch\<lparr>regs := (regs ch)(6 := 160 OR push_bit 4 ?d), busy := 0, xfer := NoData\<rparr>) (hw s))"
      using h(1) by (simp add: idle_def upd_chan_def)
    ultimately show ?thesis using keep h by (simp add: upd_chan_def)
  qed
qed

lemma probe_all:
  assumes "probed a k s" "k \<le> 4" "gap a = 0" "lag a \<le> 100000" "\<And>c dr. length (ident a c dr) = 256"
  shows "\<exists>s'. identify_all ata_ports [k..<4] s = (Ok (), s') \<and> probed a 4 s'"
  using assms(1,2)
proof (induction "4 - k" arbitrary: k s)
  case 0
  then show ?case by simp
next
  case (Suc n)
  then have k: "k < 4" by simp
  obtain r s1 where s1: "ide_identify ata_ports (of_nat (k div 2)) (of_nat (k mod 2)) s = (r, s1)" "r \<noteq> Panic" "probed a (Suc k) s1"
    using probe_step [OF Suc.prems(1) k assms(3-5)] by blast
  obtain s2 where "identify_all ata_ports [Suc k..<4] s1 = (Ok (), s2)" "probed a 4 s2"
    using Suc.hyps(1) [OF _ s1(3)] Suc.hyps(2) k by (metis Suc_leI diff_Suc_Suc diff_Suc_1 Suc_diff_Suc)
  then show ?case using s1(1,2) k by (cases r) (auto simp: upt_conv_Cons)
qed

lemma initialize_automaton:
  assumes "idle a" "gap a = 0" "lag a \<le> 100000" "\<And>c dr. length (ident a c dr) = 256"
  shows "\<exists>s'. ide_initialize ata_ports (ide_start a) = (Ok (), s') \<and> probed a 4 s'"
proof -
  let ?s = "(ide_start a)\<lparr>CHANNELS := map (\<lambda>c. c\<lparr>n_ien := 0x02\<rparr>) CHANNELS_init\<rparr>"
  have "probed a 0 ?s" using assms(1) by (simp add: probed_def ide_start_def wired_def CHANNELS_init_def)
  moreover have "(ide_start a)\<lparr>CHANNELS := map (\<lambda>c. c\<lparr>n_ien := 0x02\<rparr>) (CHANNELS (ide_start a)), IDE_DEVICES := replicate 4 IdeDevice_new\<rparr> = ?s"
    by (simp add: ide_start_def)
  ultimately show ?thesis
    using probe_all [of a 0 ?s] assms(2-4) by (simp add: ide_initialize_def bnd_def set_st_def)
qed

lemma ident_word: "i < length ws \<Longrightarrow> get_le (2 * i) (ident_bytes ws @ rest) = ws ! i"
proof (induction ws arbitrary: i)
  case (Cons w ws)
  show ?case
  proof (cases i)
    case 0
    then show ?thesis by (simp add: ident_bytes_def word_bytes_le)
  next
    case (Suc j)
    then have "window 2 (2 * i) (ident_bytes (w # ws) @ rest) = window 2 (2 * j) (ident_bytes ws @ rest)"
      by (simp add: window_def ident_bytes_def word_bytes_def)
    then show ?thesis using Cons.IH [of j] Cons.prems Suc by (simp add: get_le_def)
  qed
qed simp

lemma probed_ready:
  assumes "probed a 4 s" "d \<le> 3" "gap a = 0" "lag a \<le> 100000"
  shows "ide_ready id s d \<longleftrightarrow> disk a (unat d div 2) (unat d mod 2) \<noteq> None"
proof -
  have d: "unat d < 4" using assms(2) by (simp add: word_le_nat_alt)
  then have e: "entry_ok a (unat d) (IDE_DEVICES s ! unat d)" using assms(1) by (simp add: probed_def)
  have "of_nat (unat d div 2) = d div 2" "of_nat (unat d mod 2) = d mod 2"
    using d by (simp_all add: word_unat_eq_iff unat_of_nat unat_div unat_mod)
  then have "reserved (IDE_DEVICES s ! unat d) \<noteq> 0 \<and> dev_channel (IDE_DEVICES s ! unat d) = d div 2 \<and> dev_drive (IDE_DEVICES s ! unat d) = d mod 2"
    if "disk a (unat d div 2) (unat d mod 2) \<noteq> None"
    using e that by (auto simp: entry_ok_def ata_device_def Let_def fresh_entry_def)
  then show ?thesis using assms by (auto simp: ide_ready_def probed_def present_def)
qed

definition sectors_28 :: "u16 list \<Rightarrow> u32" where
  "sectors_28 ws = as_u32 (ws ! 60) OR push_bit 16 (as_u32 (ws ! 61))"

lemma probed_size:
  fixes d :: u8
  assumes "probed a 4 (vw view s)" "d \<le> 3" "disk a (unat d div 2) (unat d mod 2) \<noteq> None" "length (ident a (unat d div 2) (unat d mod 2)) = 256"
    and "sectors_28 (ident a (unat d div 2) (unat d mod 2)) \<noteq> 0xFFFFFFFF"
  shows "return_drive_size_bytes P d s = (Ok (as_u64 (sectors_28 (ident a (unat d div 2) (unat d mod 2))) * 512), s)"
proof -
  have d: "unat d < 4" using assms(2) by (simp add: word_le_nat_alt)
  then have "entry_ok a (unat d) (IDE_DEVICES s ! unat d)" using assms(1) by (simp add: probed_def)
  then obtain rest where e: "IDE_DEVICES s ! unat d = ata_device (ident_bytes (ident a (unat d div 2) (unat d mod 2)) @ rest)
      (fresh_entry (of_nat (unat d div 2)) (of_nat (unat d mod 2)))"
    using assms(3) by (auto simp: entry_ok_def)
  have w: "get_le 120 (ident_bytes (ident a (unat d div 2) (unat d mod 2)) @ rest) = ident a (unat d div 2) (unat d mod 2) ! 60"
    "get_le 122 (ident_bytes (ident a (unat d div 2) (unat d mod 2)) @ rest) = ident a (unat d div 2) (unat d mod 2) ! 61"
    using ident_word [of 60 "ident a (unat d div 2) (unat d mod 2)" rest] ident_word [of 61 "ident a (unat d div 2) (unat d mod 2)" rest] assms(4)
    by simp_all
  have "dev_size (IDE_DEVICES s ! unat d) = sectors_28 (ident a (unat d div 2) (unat d mod 2))"
    using assms(5) by (simp add: e ata_device_def Let_def w sectors_28_def)
  moreover have "reserved (IDE_DEVICES s ! unat d) \<noteq> 0" "drive_type (IDE_DEVICES s ! unat d) = 0"
    by (simp_all add: e ata_device_def Let_def fresh_entry_def)
  moreover have "length (IDE_DEVICES s) = 4" "\<not> d > 3" using assms(1,2) by (auto simp: probed_def)
  ultimately show ?thesis
    using d by (simp add: return_drive_size_bytes_def bnd_def get_st_def nth_ck_def IDE_ATA_def)
qed

lemma follows_set_st [follows_intros]:
  assumes "\<And>s. vw view (f s) = f' (vw view s)"
  shows "follows view (set_st f) (set_st f')"
  using assms by (simp add: follows_def set_st_def)

context ata_controller
begin

lemma follows_identify_wait [follows_intros]: "follows view (identify_wait P c t) (identify_wait ata_ports c t)"
proof (induction "100001 - t" arbitrary: t rule: less_induct)
  case less
  show ?case
    by (subst (1 2) identify_wait.simps) (intro follows_intros less, simp)
qed

lemma follows_put_device [follows_intros]: "follows view (put_device i f) (put_device i f)"
  unfolding put_device_def by (intro follows_intros) (simp add: vw_def)

lemma follows_IDE_BUF [follows_intros]: "follows view (get_st IDE_BUF) (get_st IDE_BUF)"
  by (simp add: follows_def get_st_def)

lemma follows_identify: "follows view (ide_identify P c d) (ide_identify ata_ports c d)"
  unfolding ide_identify_def ide_read_buffer_def by (intro follows_intros) (simp add: vw_def)

lemma follows_identify_all [follows_intros]: "follows view (identify_all P is) (identify_all ata_ports is)"
proof (induction "is")
  case (Cons i "is")
  show ?case
    unfolding follows_def
  proof
    fix s
    obtain r s1 where "ide_identify P (of_nat (i div 2)) (of_nat (i mod 2)) s = (r, s1)"
      by (cases "ide_identify P (of_nat (i div 2)) (of_nat (i mod 2)) s")
    with followsD [OF follows_identify this] Cons.IH
    show "map_prod id (vw view) (identify_all P (i # is) s) = identify_all ata_ports (i # is) (vw view s)"
      by (cases r) (simp_all add: follows_def)
  qed
qed (simp add: follows_def)

lemma follows_initialize: "follows view (ide_initialize P) (ide_initialize ata_ports)"
  unfolding ide_initialize_def by (intro follows_intros) (simp add: vw_def)

lemma drives: "block_device (ide_bdev P) (ide_ready view) (ide_sec view)"
  by (rule drv.block_device_axioms)

lemma initialize_probes:
  assumes "idle (view h)" "gap (view h) = 0" "lag (view h) \<le> 100000" "\<And>c dr. length (ident (view h) c dr) = 256"
  shows "\<exists>s. ide_initialize P (ide_start h) = (Ok (), s) \<and> probed (view h) 4 (vw view s)"
proof -
  obtain r s where s: "ide_initialize P (ide_start h) = (r, s)" by (cases "ide_initialize P (ide_start h)")
  have "vw view (ide_start h) = ide_start (view h)" by (simp add: vw_def ide_start_def)
  with followsD [OF follows_initialize s] initialize_automaton [OF assms] s show ?thesis by auto
qed

end

section \<open>Transfers of more than one sector\<close>

text \<open>While a device prepares the next sector of a transfer, the data port returns no data.\<close>

lemma in_words_pause:
  assumes "c < 2" "length ws = Suc n" "n < 256" "length rs = 256"
  shows "in_words ata_ports (base_of c) (Suc n) (s\<lparr>hw := in_progress (unat c) (ws @ rs) (hw s)\<rparr>)
    = (Ok (concat (map word_bytes ws)), s\<lparr>hw := upd_chan (unat c) (\<lambda>ch. ch\<lparr>busy := gap (hw s), xfer := DataIn rs\<rparr>) (hw s)\<rparr>)"
  using assms(2,3)
proof (induction n arbitrary: ws)
  case 0
  then obtain w where ws: "ws = [w]" by (cases ws) auto
  have d: "decode (base_of c) = Some (unat c, 0)" using reg_port(1) [OF assms(1), of 0] by simp
  have "rs \<noteq> []" using assms(4) by auto
  then show ?case by (simp add: inw_def bnd_def ws ata_ports_def d in_data_def in_progress_def assms(4))
next
  case (Suc n)
  then obtain w vs where ws: "ws = w # vs" "length vs = Suc n" by (cases ws) auto
  have d: "decode (base_of c) = Some (unat c, 0)" using reg_port(1) [OF assms(1), of 0] by simp
  have "\<not> 256 dvd 257 + n" using Suc.prems(2) dvd_diff_nat [of 256 "257 + n" 256] dvd_imp_le [of 256 "Suc n"] by auto
  then have "p_inw ata_ports (base_of c) (in_progress (unat c) (ws @ rs) (hw s)) = (w, in_progress (unat c) (vs @ rs) (hw s))"
    using ws(2) assms(4) by (auto simp add: ata_ports_def d ws(1) in_data_def in_progress_def)
  then show ?case using Suc.IH [OF ws(2)] Suc.prems(2) by (simp add: inw_def bnd_def ws(1) del: in_words.simps) (simp add: inw_def bnd_def)
qed

lemma in_words_noise:
  assumes "c < 2" "busy (chan_of (hw s) (unat c)) > 0"
  shows "in_words ata_ports (base_of c) n s = (Ok (concat (replicate n (word_bytes (noise (hw s))))), s)"
proof (induction n)
  case (Suc n)
  have d: "decode (base_of c) = Some (unat c, 0)" using reg_port(1) [OF assms(1), of 0] by simp
  have "p_inw ata_ports (base_of c) (hw s) = (noise (hw s), hw s)"
    using assms(2) by (auto simp: ata_ports_def d in_data_def Let_def split: transfer.splits list.splits)
  then show ?case using Suc by (simp add: inw_def bnd_def)
qed simp

lemma two_sector_read:
  assumes "present s d" "0 < gap (hw s)" "lag (hw s) \<le> 100000" "disk (hw s) (unat d div 2) (unat d mod 2) = Some f"
    and "length buf = 1024" "unat lba < 2 ^ 28"
  shows "\<exists>s'. ide_read_sectors ata_ports d 2 lba buf s = (Ok (fit (f (unat lba)) @ concat (replicate 256 (word_bytes (noise (hw s))))), s')"
proof -
  note p = presentD [OF assms(1)]
  let ?c = "unat d div 2" and ?ws = "sector_words f (unat lba) 2"
  let ?a = "upd_chan ?c (\<lambda>ch. ch\<lparr>regs := task (d mod 2) 2 lba (regs ch)\<rparr>) (hw s)"
  let ?b = "upd_chan ?c (\<lambda>ch. ch\<lparr>busy := gap (hw s), xfer := DataIn (drop 256 ?ws)\<rparr>) ?a"
  have l: "length ?ws = 512" by (simp add: sector_words_bytes(2))
  have lc: "length (concat (map word_bytes xs)) = 2 * length xs" for xs by (induction xs) simp_all
  have tw: "concat (map word_bytes (take 256 ?ws)) = fit (f (unat lba))"
  proof -
    have "concat (map word_bytes (take 256 ?ws)) @ concat (map word_bytes (drop 256 ?ws)) = fit (f (unat lba)) @ fit (f (Suc (unat lba)))"
      using sector_words_bytes(1) [of f "unat lba" 2]
      by (simp add: numeral_2_eq_2 read_sectors_Suc flip: concat_append map_append)
    then show ?thesis using lc l by (simp add: append_eq_append_conv)
  qed
  have 1: "in_words ata_ports (base_of (d div 2)) 256 (s\<lparr>hw := in_progress ?c ?ws ?a\<rparr>) = (Ok (fit (f (unat lba))), s\<lparr>hw := ?b\<rparr>)"
    using in_words_pause [OF p(3), of "take 256 ?ws" 255 "drop 256 ?ws" "s\<lparr>hw := ?a\<rparr>"] l tw by (simp add: p(5))
  have 2: "in_words ata_ports (base_of (d div 2)) 256 (s\<lparr>hw := ?b\<rparr>) = (Ok (concat (replicate 256 (word_bytes (noise (hw s))))), s\<lparr>hw := ?b\<rparr>)"
    using in_words_noise [OF p(3), of "s\<lparr>hw := ?b\<rparr>" 256] assms(2) by (simp add: p(5))
  have "ide_read_sectors ata_ports d 2 lba buf s = read_loop ata_ports (base_of (d div 2)) [0, 1] buf (s\<lparr>hw := in_progress ?c ?ws ?a\<rparr>)"
    using ide_read_sectors_issue [OF assms(1,3,4), of 2 buf lba] assms(5,6) by (simp add: upt_rec)
  moreover have "length (concat (replicate n (word_bytes w))) = 2 * n" for n w by (induction n) simp_all
  ultimately show ?thesis
    using 1 2 assms(5) by (simp add: Let_def read_port_words_safe_def bnd_def splice_def)
qed

section \<open>Properties\<close>

text \<open>A machine for the examples: one disk of zeros, the primary master, of \<open>n\<close> sectors and with delay \<open>g\<close> between sectors.\<close>

definition bench :: "u16 \<Rightarrow> u16 \<Rightarrow> nat \<Rightarrow> ata" where
  "bench lo hi g = \<lparr>chan_of = (\<lambda>_. \<lparr>regs = (\<lambda>_. 0), busy = 0, xfer = NoData\<rparr>),
     disk = (\<lambda>c d. if c = 0 \<and> d = 0 then Some (\<lambda>_. replicate 512 0) else None),
     ident = (\<lambda>_ _. (replicate 256 0)[60 := lo, 61 := hi]), lag = 3, gap = g, noise = 0xFFFF\<rparr>"

definition bench_started :: "nat \<Rightarrow> ata ide" where
  "bench_started g = (ide_start (bench 0x2000 0 g))\<lparr>IDE_DEVICES := fresh_entry 0 0 # replicate 3 IdeDevice_new\<rparr>"

lemma bench_started_present: "present (bench_started g) 0" "idle (hw (bench_started g))"
  by (simp_all add: bench_started_def present_def wired_def ide_start_def CHANNELS_init_def fresh_entry_def bench_def idle_def)

lemma bench_started_ready: "ide_ready id (bench_started 0) 0"
  using bench_started_present [of 0] by (simp add: ide_ready_def bench_started_def ide_start_def bench_def)



text \<open>
  C3: \<^verbatim>\<open>ide_initialize\<close> probes the four positions without panicking; afterwards the drives that are ready are exactly
  those that are present, nothing on a disk has changed, and the capacity reported for a drive is 512 times the 28-bit
  sector count in words 60 and 61 of its identification data.
\<close>

theorem initialize_finds_drives:
  assumes "ata_controller P view" "idle (view h)" "gap (view h) = 0" "lag (view h) \<le> 100000"
    and "\<And>c dr. length (ident (view h) c dr) = 256" "\<And>c dr. sectors_28 (ident (view h) c dr) \<noteq> 0xFFFFFFFF"
  shows "\<exists>s. ide_initialize P (ide_start h) = (Ok (), s) \<and> disk (view (hw s)) = disk (view h)
     \<and> (\<forall>d\<le>3. ide_ready view s d = (disk (view h) (unat d div 2) (unat d mod 2) \<noteq> None))
     \<and> (\<forall>d\<le>3. ide_ready view s d \<longrightarrow>
          return_drive_size_bytes P d s = (Ok (as_u64 (sectors_28 (ident (view h) (unat d div 2) (unat d mod 2))) * 512), s))"
proof -
  obtain s where s: "ide_initialize P (ide_start h) = (Ok (), s)" "probed (view h) 4 (vw view s)"
    using ata_controller.initialize_probes [OF assms(1-5)] by blast
  have r: "ide_ready view s d = (disk (view h) (unat d div 2) (unat d mod 2) \<noteq> None)" if "d \<le> 3" for d
    using probed_ready [OF s(2) that assms(3,4)] by simp
  have "return_drive_size_bytes P d s = (Ok (as_u64 (sectors_28 (ident (view h) (unat d div 2) (unat d mod 2))) * 512), s)"
    if "d \<le> 3" "ide_ready view s d" for d
    using probed_size [OF s(2) that(1), of P] r [OF that(1)] that(2) assms(5,6) by simp
  moreover have "disk (view (hw s)) = disk (view h)" using s(2) by (simp add: probed_def)
  ultimately show ?thesis using s(1) r by blast
qed

theorem initialize_finds_drives_witness:
  "\<exists>s. ide_initialize ata_ports (ide_start (bench 0x2000 1 0)) = (Ok (), s) \<and> ide_ready id s 0 \<and> \<not> ide_ready id s 1
     \<and> return_drive_size_bytes ata_ports 0 s = (Ok 0x2400000, s)"
proof -
  have "sectors_28 ((replicate 256 0)[60 := 0x2000, 61 := 1]) = 0x12000" by (simp add: sectors_28_def)
  then show ?thesis
    using initialize_finds_drives [OF automaton.ata_controller_axioms, of "bench 0x2000 1 0"]
    by (auto simp: bench_def idle_def)
qed

text \<open>
  C4: A transfer of several sectors is only correct for devices that need no time between sectors: \<^verbatim>\<open>ide_read_sectors\<close>
  does not wait again after the first sector, so from a device that does need time it returns success, with whatever the
  data port delivers while no data is ready as the second sector.
\<close>

theorem multi_sector_read_unpolled:
  assumes "present s d" "0 < gap (hw s)" "lag (hw s) \<le> 100000" "disk (hw s) (unat d div 2) (unat d mod 2) = Some f"
    and "length buf = 1024" "unat lba < 2 ^ 28"
  shows "fst (ide_read_sectors ata_ports d 2 lba buf s) = Ok (fit (f (unat lba)) @ concat (replicate 256 (word_bytes (noise (hw s)))))"
  using two_sector_read [OF assms] by auto

theorem multi_sector_read_unpolled_witness:
  "fst (ide_read_sectors ata_ports 0 2 0 (replicate 1024 0) (bench_started 1)) = Ok (replicate 512 0 @ replicate 512 0xFF)"
proof -
  have "concat (replicate n [0xFF, 0xFF :: u8]) = replicate (2 * n) 0xFF" for n by (induction n) simp_all
  then show ?thesis
    using multi_sector_read_unpolled [OF bench_started_present(1) [of 1], of "\<lambda>_. replicate 512 0" "replicate 1024 0" 0]
    by (simp add: bench_started_def ide_start_def bench_def word_bytes_def fit_def)
qed

end
